(* ===== verification/Raft_Prelude.thy ===== *)
theory Raft_Prelude
  imports "HOL-Library.Word"
begin

text \<open>
  Shared vocabulary of the development: the machine integers and byte vectors of the C++
  sources, exceptions as values, sequencing of operations that mutate a state and may throw,
  little-endian byte images of integers, and the interface of a byte codec.
\<close>

unbundle bit_operations_syntax

type_synonym u8 = "8 word"
type_synonym u32 = "32 word"
type_synonym u64 = "64 word"
type_synonym bytes = "u8 list"

named_theorems word_conv \<open>conversions between words and natural numbers\<close>
named_theorems run_simps \<open>unfolding rules that evaluate the model on a closed term\<close>

section \<open>Exceptions\<close>

text \<open>
  The standard exception classes the sources throw, with their message, and two outcomes that
  are not C++ exceptions and that no handler catches: undefined behaviour (an out-of-bounds
  read) and a loop that never ends.
\<close>

datatype exn =
    Runtime_error string
  | Logic_error string
  | Invalid_argument string
  | Out_of_range string
  | Length_error string
  | Undefined_behaviour string
  | Never_returns

fun is_exception :: "exn \<Rightarrow> bool" where
  "is_exception (Undefined_behaviour _) = False"
| "is_exception Never_returns = False"
| "is_exception _ = True"

fun what :: "exn \<Rightarrow> string" where
  "what (Runtime_error s) = s"
| "what (Logic_error s) = s"
| "what (Invalid_argument s) = s"
| "what (Out_of_range s) = s"
| "what (Length_error s) = s"
| "what (Undefined_behaviour s) = s"
| "what Never_returns = []"

text \<open>\<open>std::to_string\<close> on an unsigned integer: its decimal digits.\<close>

fun nat_to_string :: "nat \<Rightarrow> string" where
  "nat_to_string k =
     (if k < 10 then [char_of (48 + k)] else nat_to_string (k div 10) @ [char_of (48 + k mod 10)])"

declare nat_to_string.simps [simp del]

definition to_string :: "'a::len word \<Rightarrow> string" where
  "to_string w = nat_to_string (unat w)"

section \<open>Operations that mutate a state and may throw\<close>

text \<open>
  An operation returns its result or the exception, together with the state it left behind: a
  C++ exception does not undo the writes made before it. \<open>andThen\<close> runs the continuation
  only when nothing was thrown.
\<close>

definition andThen :: "('e + 'a) \<times> 's \<Rightarrow> ('a \<Rightarrow> 's \<Rightarrow> ('e + 'b) \<times> 's) \<Rightarrow> ('e + 'b) \<times> 's" where
  "andThen r f = (case r of (Inl e, s) \<Rightarrow> (Inl e, s) | (Inr a, s) \<Rightarrow> f a s)"

lemma andThen_simps [simp]:
  "andThen (Inl e, s) f = (Inl e, s)"
  "andThen (Inr a, s) f = f a s"
  by (simp_all add: andThen_def)

lemma snd_andThen:
  "snd (andThen r f) = (case fst r of Inl e \<Rightarrow> snd r | Inr a \<Rightarrow> snd (f a (snd r)))"
  by (cases r) (auto simp: andThen_def split: sum.split)

lemma fst_andThen:
  "fst (andThen r f) = (case fst r of Inl e \<Rightarrow> Inl e | Inr a \<Rightarrow> fst (f a (snd r)))"
  by (cases r) (auto simp: andThen_def split: sum.split)

text \<open>A relation between the states before and after is kept by sequencing if it is transitive.\<close>

lemma andThen_post:
  assumes "P (snd r)" and "\<And>a s. r = (Inr a, s) \<Longrightarrow> P s \<Longrightarrow> P (snd (f a s))"
  shows "P (snd (andThen r f))"
  using assms by (cases r) (auto simp: andThen_def split: sum.split)

lemma andThen_ok [simp]: "fst r = Inr () \<Longrightarrow> andThen r f = f () (snd r)"
  by (cases r) simp

lemma andThen_Inr_iff:
  "andThen r f = (Inr b, t) \<longleftrightarrow> (\<exists>a s. r = (Inr a, s) \<and> f a s = (Inr b, t))"
  by (cases r) (auto simp: andThen_def split: sum.splits)

lemma andThen_cong [fundef_cong]:
  assumes "r = r'" and "\<And>a s. r' = (Inr a, s) \<Longrightarrow> f a s = f' a s"
  shows "andThen r f = andThen r' f'"
  using assms by (cases r') (auto simp: andThen_def split: sum.split)

text \<open>Sequencing of pure computations that may throw.\<close>

definition bindE :: "'e + 'a \<Rightarrow> ('a \<Rightarrow> 'e + 'b) \<Rightarrow> 'e + 'b" where
  "bindE r f = (case r of Inl e \<Rightarrow> Inl e | Inr a \<Rightarrow> f a)"

lemma bindE_simps [simp]:
  "bindE (Inl e) f = Inl e"
  "bindE (Inr a) f = f a"
  by (simp_all add: bindE_def)

lemma bindE_Inr_iff: "bindE r f = Inr b \<longleftrightarrow> (\<exists>a. r = Inr a \<and> f a = Inr b)"
  by (cases r) auto

lemma bindE_cong [fundef_cong]:
  assumes "r = r'" and "\<And>a. r' = Inr a \<Longrightarrow> f a = f' a"
  shows "bindE r f = bindE r' f'"
  using assms by (cases r') auto

section \<open>Words\<close>

lemma unat_of_nat_small [word_conv]:
  "k < 2 ^ LENGTH('a) \<Longrightarrow> unat (of_nat k :: 'a::len word) = k"
  by (simp add: unat_of_nat)

lemma unat_less_u64 [simp]: "unat (w :: u64) < 18446744073709551616"
  using unsigned_less [of w] by simp

lemma unat_u64_plus1 [word_conv]:
  "unat (w :: u64) < 18446744073709551615 \<Longrightarrow> unat (w + 1) = Suc (unat w)"
  by (simp add: unat_word_ariths)

lemma unat_u64_plus_of_nat [word_conv]:
  assumes "unat (w :: u64) + k < 18446744073709551616"
  shows "unat (w + of_nat k) = unat w + k"
  using assms by (simp add: unat_word_ariths unat_of_nat)

lemma unat_u64_diff [word_conv]: "(b :: u64) \<le> a \<Longrightarrow> unat (a - b) = unat a - unat b"
  by (rule unat_sub)

section \<open>Little-endian byte images of integers\<close>

text \<open>
  The loops \<open>for (i < n) out.push_back((val >> (i * 8)) & 0xFF)\<close> and
  \<open>for (i < n) val |= uint64_t(in[i]) << (i * 8)\<close> of the sources. The same images are what
  \<open>reinterpret_cast\<close> and \<open>memcpy\<close> see on a little-endian host.
\<close>

definition le_bytes :: "nat \<Rightarrow> 'a::len word \<Rightarrow> bytes" where
  "le_bytes n w = map (\<lambda>i. ucast (drop_bit (8 * i) w AND 255)) [0..<n]"

definition le_value :: "nat \<Rightarrow> bytes \<Rightarrow> 'a::len word" where
  "le_value n bs = fold (\<lambda>i v. v OR push_bit (8 * i) (ucast (bs ! i))) [0..<n] 0"

lemma length_le_bytes [simp]: "length (le_bytes n w) = n"
  by (simp add: le_bytes_def)

lemma le_bytes_eq_Nil [simp]: "le_bytes n w = [] \<longleftrightarrow> n = 0"
  by (simp add: le_bytes_def)

lemma bit_fold_OR:
  "bit (fold (\<lambda>i v. v OR f i) xs (v :: 'a::len word)) k \<longleftrightarrow> bit v k \<or> (\<exists>i \<in> set xs. bit (f i) k)"
  by (induction xs arbitrary: v) (auto simp: bit_or_iff)

lemma bit_255: "bit (255 :: 'a::len word) j \<longleftrightarrow> j < 8 \<and> j < LENGTH('a)"
proof -
  have "bit (255 :: 'a word) j \<longleftrightarrow> bit (mask 8 :: 'a word) j"
    by (simp add: mask_eq_decr_exp)
  then show ?thesis
    by (auto simp only: bit_mask_iff possible_bit_word)
qed

lemma bit_le_byte:
  assumes "i < n"
  shows "bit (le_bytes n (w :: 'a::len word) ! i) j \<longleftrightarrow> j < 8 \<and> bit w (8 * i + j)"
proof -
  have "bit (ucast (drop_bit (8 * i) w AND 255) :: u8) j \<longleftrightarrow> j < 8 \<and> bit w (8 * i + j)"
  proof -
    have "bit w (8 * i + j) \<Longrightarrow> j < LENGTH('a)"
      using bit_imp_le_length [of w "8 * i + j"] by simp
    then show ?thesis
      by (auto simp only: bit_ucast_iff bit_and_iff bit_drop_bit_eq bit_255 comp_def
          possible_bit_word len_num0 len_num1 len_bit0)
  qed
  with assms show ?thesis by (simp add: le_bytes_def)
qed

lemma bit_le_value:
  assumes "length bs = n"
  shows "bit (le_value n bs :: 'a::len word) k \<longleftrightarrow>
    k < LENGTH('a) \<and> k div 8 < n \<and> bit (bs ! (k div 8)) (k mod 8)"
proof -
  have "bit (push_bit (8 * i) (ucast (bs ! i)) :: 'a word) k \<longleftrightarrow>
      k < LENGTH('a) \<and> i = k div 8 \<and> bit (bs ! i) (k mod 8)" for i
  proof (cases "8 * i \<le> k \<and> k < 8 * i + 8")
    case True
    then have "k div 8 = i" by auto
    moreover from this have "k - 8 * i = k mod 8" by (simp add: minus_div_mult_eq_mod [symmetric])
    ultimately show ?thesis using True by (auto simp: bit_simps)
  next
    case False
    then have "i \<noteq> k div 8" by auto
    with False show ?thesis by (auto simp: bit_simps dest: bit_imp_le_length)
  qed
  then show ?thesis
    by (auto simp: le_value_def bit_fold_OR)
qed

lemma le_value_le_bytes [simp]:
  assumes "LENGTH('a) \<le> 8 * n"
  shows "le_value n (le_bytes n w) = (w :: 'a::len word)"
proof (rule bit_word_eqI)
  fix k assume "k < LENGTH('a)"
  moreover from this and assms have "k div 8 < n" by auto
  moreover have "8 * (k div 8) + k mod 8 = k" by simp
  ultimately show "bit (le_value n (le_bytes n w) :: 'a word) k \<longleftrightarrow> bit w k"
    by (simp add: bit_le_value bit_le_byte)
qed

lemma le_bytes_le_value [simp]:
  assumes "length bs = n" and "8 * n \<le> LENGTH('a)"
  shows "le_bytes n (le_value n bs :: 'a::len word) = bs"
proof (rule nth_equalityI)
  show "length (le_bytes n (le_value n bs :: 'a word)) = length bs"
    using assms by simp
next
  fix i assume "i < length (le_bytes n (le_value n bs :: 'a word))"
  then have i: "i < n" by simp
  show "le_bytes n (le_value n bs :: 'a word) ! i = bs ! i"
  proof (rule bit_word_eqI)
    fix j assume j: "j < LENGTH(8)"
    with i have "(8 * i + j) div 8 = i" and "(8 * i + j) mod 8 = j" and "8 * i + j < 8 * n"
      by auto
    with i j assms show "bit (le_bytes n (le_value n bs :: 'a word) ! i) j \<longleftrightarrow> bit (bs ! i) j"
      by (simp add: bit_le_byte bit_le_value)
  qed
qed

lemma le_value_cong:
  assumes "\<And>i. i < n \<Longrightarrow> xs ! i = ys ! i"
  shows "le_value n xs = (le_value n ys :: 'a::len word)"
  unfolding le_value_def by (rule fold_cong) (use assms in auto)

lemma le_value_append [simp]: "length xs = n \<Longrightarrow> le_value n (xs @ ys) = (le_value n xs :: 'a::len word)"
  by (rule le_value_cong) (simp add: nth_append)

lemma le_value_take [simp]: "le_value n (take n xs) = (le_value n xs :: 'a::len word)"
  by (rule le_value_cong) simp

text \<open>A \<open>std::string\<close> is a sequence of chars, each the same eight bits as a \<open>uint8_t\<close>.\<close>

definition chars_to_bytes :: "string \<Rightarrow> bytes" where
  "chars_to_bytes = map of_char"

definition bytes_to_chars :: "bytes \<Rightarrow> string" where
  "bytes_to_chars = map (\<lambda>b. char_of (unat b))"

lemma of_char_char_of_u8 [simp]: "of_char (char_of (unat (b :: u8))) = b"
proof -
  have "(of_char (char_of (unat b)) :: u8) = of_nat (of_char (char_of (unat b)))"
    by (simp only: of_nat_of_char)
  also have "(of_char (char_of (unat b)) :: nat) = unat b"
    using unsigned_less [of b, where 'a = nat] by simp
  finally show ?thesis by simp
qed

lemma char_of_of_char_u8 [simp]: "char_of (unat (of_char c :: u8)) = c"
proof -
  have "(of_char c :: u8) = of_nat (of_char c)"
    by (simp only: of_nat_of_char)
  moreover have "(of_char c :: nat) < 256"
    using of_char_mod_256 [of c, where 'a = nat] mod_less_divisor [of 256 "of_char c :: nat"] by simp
  ultimately show ?thesis by (simp add: unat_of_nat)
qed

lemma bytes_to_chars_to_bytes [simp]: "chars_to_bytes (bytes_to_chars bs) = bs"
  by (simp add: chars_to_bytes_def bytes_to_chars_def map_idI)

lemma chars_to_bytes_to_chars [simp]: "bytes_to_chars (chars_to_bytes s) = s"
  by (simp add: chars_to_bytes_def bytes_to_chars_def map_idI)

lemma length_chars_to_bytes [simp]: "length (chars_to_bytes s) = length s"
  by (simp add: chars_to_bytes_def)

lemma length_bytes_to_chars [simp]: "length (bytes_to_chars bs) = length bs"
  by (simp add: bytes_to_chars_def)

lemma bit_Suc_0_0 [simp]: "bit (Suc 0) 0"
  by (simp add: bit_Suc_0_iff)

lemmas [run_simps] =
  le_bytes_def le_value_def chars_to_bytes_def bytes_to_chars_def char_of_def upt_rec
  to_string_def nat_to_string.simps

section \<open>The interface of a byte codec\<close>

text \<open>
  Every reader of the sources walks a byte vector with an offset that it advances by what it
  consumed. The contract of a writer/reader pair: reading where an image was written gives the
  value back and moves to its end, and whatever is read successfully is the image of a legal
  value that lies inside the vector.
\<close>

locale byte_codec =
  fixes enc :: "'a \<Rightarrow> bytes"
    and dec :: "bytes \<Rightarrow> nat \<Rightarrow> exn + 'a \<times> nat"
    and ok :: "'a \<Rightarrow> bool"
  assumes dec_enc: "ok a \<Longrightarrow> dec (pre @ enc a @ post) (length pre) = Inr (a, length pre + length (enc a))"
    and dec_sound: "dec bs off = Inr (a, off') \<Longrightarrow>
      ok a \<and> off' = off + length (enc a) \<and> off' \<le> length bs \<and> take (length (enc a)) (drop off bs) = enc a"
begin

lemma dec_enc_start: "ok a \<Longrightarrow> dec (enc a @ post) 0 = Inr (a, length (enc a))"
  using dec_enc [where pre = "[]"] by simp

lemma dec_canonical:
  assumes "dec bs 0 = Inr (a, off')"
  shows "bs = enc a @ drop off' bs"
proof -
  from dec_sound [OF assms] have "off' = length (enc a)" and "take (length (enc a)) bs = enc a"
    by simp_all
  then show ?thesis by (metis append_take_drop_id)
qed

lemma enc_prefix_free:
  assumes "ok a" and "ok b" and "enc a @ xs = enc b @ ys"
  shows "a = b \<and> xs = ys"
proof -
  have "dec (enc a @ xs) 0 = Inr (a, length (enc a))" "dec (enc b @ ys) 0 = Inr (b, length (enc b))"
    using assms(1,2) by (simp_all only: dec_enc_start)
  with assms(3) have "a = b" by (simp only: sum.inject prod.inject)
  with assms(3) show ?thesis by simp
qed

lemma dec_truncated_at:
  assumes "ok a" and "k < length (enc a)"
  shows "\<exists>e. dec (pre @ take k (enc a)) (length pre) = Inl e"
proof (cases "dec (pre @ take k (enc a)) (length pre)")
  case (Inr r)
  obtain b off' where r: "r = (b, off')" by (cases r)
  with Inr have "dec (pre @ take k (enc a)) (length pre) = Inr (b, off')" by simp
  from dec_sound [OF this] have "ok b" and b: "length (enc b) \<le> k"
    and "take (length (enc b)) (enc a) = enc b"
    using assms(2) by (auto simp: min_def split: if_splits)
  then have "enc a @ [] = enc b @ drop (length (enc b)) (enc a)"
    by (metis append.right_neutral append_take_drop_id)
  from enc_prefix_free [OF assms(1) \<open>ok b\<close> this] have "a = b" by simp
  with b assms(2) show ?thesis by simp
qed auto

lemma dec_truncated:
  assumes "ok a" and "k < length (enc a)"
  shows "\<exists>e. dec (take k (enc a)) 0 = Inl e"
  using dec_truncated_at [OF assms, of "[]"] by simp

end

text \<open>Reading one value after the other.\<close>

definition dec_pair ::
  "(bytes \<Rightarrow> nat \<Rightarrow> exn + 'a \<times> nat) \<Rightarrow> (bytes \<Rightarrow> nat \<Rightarrow> exn + 'b \<times> nat) \<Rightarrow> bytes \<Rightarrow> nat \<Rightarrow> exn + ('a \<times> 'b) \<times> nat"
where
  "dec_pair d1 d2 bs off =
     bindE (d1 bs off) (\<lambda>(a, off). bindE (d2 bs off) (\<lambda>(b, off). Inr ((a, b), off)))"

lemma byte_codec_pair:
  assumes "byte_codec enc1 dec1 ok1" and "byte_codec enc2 dec2 ok2"
  shows "byte_codec (\<lambda>(a, b). enc1 a @ enc2 b) (dec_pair dec1 dec2) (\<lambda>(a, b). ok1 a \<and> ok2 b)"
proof (unfold_locales, goal_cases)
  case (1 ab pre post)
  obtain a b where ab: "ab = (a, b)" by (cases ab)
  with 1 have "dec1 (pre @ enc1 a @ enc2 b @ post) (length pre) = Inr (a, length pre + length (enc1 a))"
    and "dec2 ((pre @ enc1 a) @ enc2 b @ post) (length (pre @ enc1 a)) =
      Inr (b, length (pre @ enc1 a) + length (enc2 b))"
    using byte_codec.dec_enc [OF assms(1)] byte_codec.dec_enc [OF assms(2)] by blast+
  then show ?case by (simp add: ab dec_pair_def)
next
  case (2 bs off ab off')
  then obtain a b off1 where ab: "ab = (a, b)"
    and "dec1 bs off = Inr (a, off1)" "dec2 bs off1 = Inr (b, off')"
    by (auto simp: dec_pair_def bindE_Inr_iff)
  with byte_codec.dec_sound [OF assms(1), of bs off a off1]
    byte_codec.dec_sound [OF assms(2), of bs off1 b off']
  show ?case
    by (auto simp: ab take_add drop_drop add.commute)
qed

text \<open>A bijective change of the decoded type.\<close>

lemma byte_codec_map:
  assumes "byte_codec enc dec ok" and "\<And>a. g (f a) = a" and "\<And>b. f (g b) = b"
  shows "byte_codec (\<lambda>b. enc (g b)) (\<lambda>bs off. bindE (dec bs off) (\<lambda>(a, off). Inr (f a, off))) (\<lambda>b. ok (g b))"
proof (unfold_locales, goal_cases)
  case (1 b pre post)
  then show ?case using byte_codec.dec_enc [OF assms(1)] by (simp add: assms(3))
next
  case (2 bs off b off')
  then obtain a where "dec bs off = Inr (a, off')" and "b = f a"
    by (auto simp: bindE_Inr_iff)
  with byte_codec.dec_sound [OF assms(1)] show ?case by (simp add: assms(2))
qed

text \<open>Fixed-width integers.\<close>

lemma byte_codec_le:
  assumes "8 * n = LENGTH('a::len)"
  shows "byte_codec (le_bytes n :: 'a word \<Rightarrow> bytes)
    (\<lambda>bs off. if off + n > length bs then Inl e else Inr (le_value n (drop off bs), off + n)) (\<lambda>_. True)"
proof (unfold_locales, goal_cases)
  case (1 a pre post)
  with assms show ?case by simp
next
  case (2 bs off a off')
  then have "a = le_value n (take n (drop off bs))" and l: "off + n \<le> length bs" and off': "off' = off + n"
    by (auto simp del: take_drop split: if_splits)
  then have "le_bytes n a = take n (drop off bs)"
    using assms by (simp only: le_bytes_le_value length_take length_drop)
  with l off' show ?case by simp
qed

text \<open>
  Strings with a 32-bit length prefix, the format of both the command buffers and the snapshots;
  the two readers differ only in what a short buffer makes them do.
\<close>

definition string_ok :: "string \<Rightarrow> bool" where
  "string_ok str \<longleftrightarrow> length str \<le> 4294967295"

definition string_image :: "string \<Rightarrow> bytes" where
  "string_image str = le_bytes 4 (of_nat (length str) :: u32) @ chars_to_bytes str"

lemma byte_codec_string:
  "byte_codec string_image
     (\<lambda>bs off. bindE
        (if off + 4 > length bs then Inl e1 else Inr (le_value 4 (drop off bs) :: u32, off + 4))
        (\<lambda>(len, off). if off + unat len > length bs then Inl e2
           else Inr (bytes_to_chars (take (unat len) (drop off bs)), off + unat len)))
     string_ok"
proof (unfold_locales, goal_cases)
  case (1 str pre post)
  then have "unat (of_nat (length str) :: u32) = length str"
    by (simp add: string_ok_def unat_of_nat)
  then show ?case by (simp add: string_image_def)
next
  case (2 bs off str off')
  define len :: u32 where "len = le_value 4 (drop off bs)"
  from 2 have le: "off + 4 + unat len \<le> length bs" and off': "off' = off + 4 + unat len"
    and str: "str = bytes_to_chars (take (unat len) (drop (off + 4) bs))"
    by (auto simp: len_def bindE_Inr_iff split: if_splits)
  have "unat len \<le> 4294967295"
    using unsigned_less [of len, where 'a = nat] by simp
  moreover have "length str = unat len"
    using le str by simp
  moreover have "le_bytes 4 len = take 4 (drop off bs)"
    using le le_bytes_le_value [of "take 4 (drop off bs)" 4, where 'a = 32] by (simp add: len_def)
  then have "take (4 + unat len) (drop off bs) = le_bytes 4 len @ take (unat len) (drop (off + 4) bs)"
    by (simp add: take_add drop_drop add.commute [of off])
  ultimately show ?case
    using le off' by (simp add: string_ok_def string_image_def) (simp add: str)
qed

end
