(* ===== verification/KV_Command.thy ===== *)
theory KV_Command
  imports Raft_Prelude
begin

text \<open>
  The client commands and their binary format (\<open>include/kvstore/Command.hpp\<close>,
  \<open>src/kvstore/Command.cpp\<close>): the writers that append to a buffer, the readers that walk a
  buffer with an offset, and the laws of the format. Every reader/writer pair is a
  \<open>byte_codec\<close>, from which the round trip, the rejection of truncated input and the canonical
  form of accepted input follow.
\<close>

section \<open>Data\<close>

datatype command_type = CT_PUT | CT_APPEND | CT_GET

fun command_type_code :: "command_type \<Rightarrow> u8" where
  "command_type_code CT_PUT = 1"
| "command_type_code CT_APPEND = 2"
| "command_type_code CT_GET = 3"

record client_request_meta =
  clientId :: u64
  sequenceNum :: u64

datatype command =
    PutCommand client_request_meta string string
  | AppendCommand client_request_meta string string
  | GetCommand client_request_meta string

fun command_meta :: "command \<Rightarrow> client_request_meta" where
  "command_meta (PutCommand m _ _) = m"
| "command_meta (AppendCommand m _ _) = m"
| "command_meta (GetCommand m _) = m"

section \<open>Writers\<close>

definition write_u8 :: "bytes \<Rightarrow> u8 \<Rightarrow> bytes" where
  "write_u8 out val = out @ [val]"

definition write_u64_le :: "bytes \<Rightarrow> u64 \<Rightarrow> bytes" where
  "write_u64_le out val = out @ le_bytes 8 val"

definition write_u32_le :: "bytes \<Rightarrow> u32 \<Rightarrow> bytes" where
  "write_u32_le out val = out @ le_bytes 4 val"

definition write_string :: "bytes \<Rightarrow> string \<Rightarrow> exn + bytes" where
  "write_string out str =
     (if length str > 4294967295 then Inl (Runtime_error ''String too large to serialize'')
      else Inr (write_u32_le out (of_nat (length str)) @ chars_to_bytes str))"

definition write_meta :: "bytes \<Rightarrow> client_request_meta \<Rightarrow> bytes" where
  "write_meta out meta = write_u64_le (write_u64_le out (clientId meta)) (sequenceNum meta)"

fun serialize :: "command \<Rightarrow> exn + bytes" where
  "serialize (PutCommand meta key value) =
     bindE (write_string (write_meta (write_u8 [] (command_type_code CT_PUT)) meta) key)
       (\<lambda>buffer. write_string buffer value)"
| "serialize (AppendCommand meta key value) =
     bindE (write_string (write_meta (write_u8 [] (command_type_code CT_APPEND)) meta) key)
       (\<lambda>buffer. write_string buffer value)"
| "serialize (GetCommand meta key) =
     write_string (write_meta (write_u8 [] (command_type_code CT_GET)) meta) key"

section \<open>Readers\<close>

definition read_u8 :: "bytes \<Rightarrow> nat \<Rightarrow> exn + u8 \<times> nat" where
  "read_u8 inp offset =
     (if offset \<ge> length inp then Inl (Runtime_error ''Buffer underrun reading u8'')
      else Inr (inp ! offset, offset + 1))"

definition read_u64_le :: "bytes \<Rightarrow> nat \<Rightarrow> exn + u64 \<times> nat" where
  "read_u64_le inp offset =
     (if offset + 8 > length inp then Inl (Runtime_error ''Buffer underrun reading u64'')
      else Inr (le_value 8 (drop offset inp), offset + 8))"

definition read_u32_le :: "bytes \<Rightarrow> nat \<Rightarrow> exn + u32 \<times> nat" where
  "read_u32_le inp offset =
     (if offset + 4 > length inp then Inl (Runtime_error ''Buffer underrun reading u32'')
      else Inr (le_value 4 (drop offset inp), offset + 4))"

definition read_string :: "bytes \<Rightarrow> nat \<Rightarrow> exn + string \<times> nat" where
  "read_string inp offset =
     bindE (read_u32_le inp offset) (\<lambda>(len, offset).
       if offset + unat len > length inp then Inl (Runtime_error ''Buffer underrun reading string'')
       else Inr (bytes_to_chars (take (unat len) (drop offset inp)), offset + unat len))"

definition read_meta :: "bytes \<Rightarrow> nat \<Rightarrow> exn + client_request_meta \<times> nat" where
  "read_meta inp offset =
     bindE (read_u64_le inp offset) (\<lambda>(cid, offset).
     bindE (read_u64_le inp offset) (\<lambda>(seq, offset).
       Inr (\<lparr>clientId = cid, sequenceNum = seq\<rparr>, offset)))"

definition deserialize :: "bytes \<Rightarrow> exn + command" where
  "deserialize bs =
     (if bs = [] then Inl (Runtime_error ''Cannot deserialize empty buffer'')
      else bindE (read_u8 bs 0) (\<lambda>(type_byte, offset).
        if type_byte = command_type_code CT_PUT then
          bindE (read_meta bs offset) (\<lambda>(meta, offset).
          bindE (read_string bs offset) (\<lambda>(key, offset).
          bindE (read_string bs offset) (\<lambda>(value, offset).
            Inr (PutCommand meta key value))))
        else if type_byte = command_type_code CT_APPEND then
          bindE (read_meta bs offset) (\<lambda>(meta, offset).
          bindE (read_string bs offset) (\<lambda>(key, offset).
          bindE (read_string bs offset) (\<lambda>(value, offset).
            Inr (AppendCommand meta key value))))
        else if type_byte = command_type_code CT_GET then
          bindE (read_meta bs offset) (\<lambda>(meta, offset).
          bindE (read_string bs offset) (\<lambda>(key, offset).
            Inr (GetCommand meta key)))
        else Inl (Runtime_error (''Unknown command type: '' @ to_string type_byte))))"

lemmas [run_simps] =
  write_u8_def write_u64_le_def write_u32_le_def write_string_def write_meta_def
  read_u8_def read_u64_le_def read_u32_le_def read_string_def read_meta_def deserialize_def

section \<open>The readers and writers are codecs\<close>

text \<open>The image of the metadata, as \<open>write_meta\<close> appends it.\<close>

definition meta_image :: "client_request_meta \<Rightarrow> bytes" where
  "meta_image meta = le_bytes 8 (clientId meta) @ le_bytes 8 (sequenceNum meta)"

lemma write_meta_image: "write_meta out meta = out @ meta_image meta"
  by (simp add: write_meta_def write_u64_le_def meta_image_def)

lemma write_string_image:
  "write_string out str =
     (if string_ok str then Inr (out @ string_image str)
      else Inl (Runtime_error ''String too large to serialize''))"
  by (simp add: write_string_def write_u32_le_def string_ok_def string_image_def)

interpretation u64_codec: byte_codec "le_bytes 8 :: u64 \<Rightarrow> bytes" read_u64_le "\<lambda>_. True"
  unfolding read_u64_le_def [abs_def] by (rule byte_codec_le) simp

interpretation u32_codec: byte_codec "le_bytes 4 :: u32 \<Rightarrow> bytes" read_u32_le "\<lambda>_. True"
  unfolding read_u32_le_def [abs_def] by (rule byte_codec_le) simp

interpretation string_codec: byte_codec string_image read_string string_ok
  unfolding read_string_def [abs_def] read_u32_le_def by (rule byte_codec_string)

interpretation meta_codec: byte_codec meta_image read_meta "\<lambda>_. True"
proof -
  have "byte_codec (\<lambda>m. (\<lambda>(a, b). le_bytes 8 a @ le_bytes 8 b) (clientId m, sequenceNum m))
    (\<lambda>bs off. bindE (dec_pair read_u64_le read_u64_le bs off)
       (\<lambda>(p, off). Inr ((\<lambda>(a, b). \<lparr>clientId = a, sequenceNum = b\<rparr>) p, off)))
    (\<lambda>m. (\<lambda>(a, b). True \<and> True) (clientId m, sequenceNum m))"
    by (rule byte_codec_map [OF byte_codec_pair [OF u64_codec.byte_codec_axioms u64_codec.byte_codec_axioms]]) auto
  moreover have "read_meta = (\<lambda>bs off. bindE (dec_pair read_u64_le read_u64_le bs off)
       (\<lambda>(p, off). Inr ((\<lambda>(a, b). \<lparr>clientId = a, sequenceNum = b\<rparr>) p, off)))"
    by (auto simp: read_meta_def dec_pair_def bindE_def fun_eq_iff split: sum.splits)
  ultimately show "byte_codec meta_image read_meta (\<lambda>_. True)"
    by (simp add: meta_image_def [abs_def])
qed

text \<open>The body of a keyed command with and without a value.\<close>

definition key_body :: "client_request_meta \<times> string \<Rightarrow> bytes" where
  "key_body = (\<lambda>(meta, key). meta_image meta @ string_image key)"

definition key_value_body :: "client_request_meta \<times> string \<times> string \<Rightarrow> bytes" where
  "key_value_body = (\<lambda>(meta, key, value). meta_image meta @ string_image key @ string_image value)"

interpretation key_codec: byte_codec key_body "dec_pair read_meta read_string" "\<lambda>(m, k). string_ok k"
  using byte_codec_pair [OF meta_codec.byte_codec_axioms string_codec.byte_codec_axioms]
  by (simp add: key_body_def)

interpretation key_value_codec: byte_codec key_value_body "dec_pair read_meta (dec_pair read_string read_string)"
  "\<lambda>(m, k, v). string_ok k \<and> string_ok v"
proof -
  have "key_value_body = (\<lambda>(m, kv). meta_image m @ (\<lambda>(k, v). string_image k @ string_image v) kv)"
    and "(\<lambda>(m :: client_request_meta, k, v). string_ok k \<and> string_ok v) =
      (\<lambda>(m, kv). True \<and> (\<lambda>(k, v). string_ok k \<and> string_ok v) kv)"
    by (auto simp: key_value_body_def fun_eq_iff)
  then show "byte_codec key_value_body (dec_pair read_meta (dec_pair read_string read_string))
    (\<lambda>(m, k, v). string_ok k \<and> string_ok v)"
    using byte_codec_pair [OF meta_codec.byte_codec_axioms
        byte_codec_pair [OF string_codec.byte_codec_axioms string_codec.byte_codec_axioms]]
    by (simp only:)
qed

text \<open>The switch of \<open>deserialize\<close> on its own, with the offset it ends at.\<close>

definition read_command :: "bytes \<Rightarrow> nat \<Rightarrow> exn + command \<times> nat" where
  "read_command bs offset = bindE (read_u8 bs offset) (\<lambda>(type_byte, offset).
     if type_byte = command_type_code CT_PUT then
       bindE (dec_pair read_meta (dec_pair read_string read_string) bs offset)
         (\<lambda>((m, k, v), offset). Inr (PutCommand m k v, offset))
     else if type_byte = command_type_code CT_APPEND then
       bindE (dec_pair read_meta (dec_pair read_string read_string) bs offset)
         (\<lambda>((m, k, v), offset). Inr (AppendCommand m k v, offset))
     else if type_byte = command_type_code CT_GET then
       bindE (dec_pair read_meta read_string bs offset) (\<lambda>((m, k), offset). Inr (GetCommand m k, offset))
     else Inl (Runtime_error (''Unknown command type: '' @ to_string type_byte)))"

fun command_ok :: "command \<Rightarrow> bool" where
  "command_ok (PutCommand m k v) = (string_ok k \<and> string_ok v)"
| "command_ok (AppendCommand m k v) = (string_ok k \<and> string_ok v)"
| "command_ok (GetCommand m k) = string_ok k"

fun command_image :: "command \<Rightarrow> bytes" where
  "command_image (PutCommand m k v) = 1 # key_value_body (m, k, v)"
| "command_image (AppendCommand m k v) = 2 # key_value_body (m, k, v)"
| "command_image (GetCommand m k) = 3 # key_body (m, k)"

lemma deserialize_read_command:
  "deserialize bs =
     (if bs = [] then Inl (Runtime_error ''Cannot deserialize empty buffer'')
      else bindE (read_command bs 0) (\<lambda>(c, off). Inr c))"
  by (auto simp: deserialize_def read_command_def dec_pair_def bindE_def split: sum.splits)

lemma serialize_image:
  "serialize c =
     (if command_ok c then Inr (command_image c)
      else Inl (Runtime_error ''String too large to serialize''))"
  by (cases c)
    (auto simp: write_string_image write_meta_image write_u8_def key_body_def key_value_body_def)

lemma read_u8_at [simp]: "read_u8 (pre @ b # post) (length pre) = Inr (b, Suc (length pre))"
  by (simp add: read_u8_def)

interpretation command_codec: byte_codec command_image read_command command_ok
proof (unfold_locales, goal_cases)
  case (1 c pre post)
  then show ?case
    using key_value_codec.dec_enc [where pre = "pre @ [b]" and post = post for b]
      key_codec.dec_enc [where pre = "pre @ [b]" and post = post for b]
    by (cases c) (auto simp: read_command_def)
next
  case (2 bs off c off')
  then obtain b where b: "off < length bs" "b = bs ! off"
    by (auto simp: read_command_def bindE_Inr_iff read_u8_def split: if_splits)
  then have d: "drop off bs = b # drop (Suc off) bs"
    by (simp add: Cons_nth_drop_Suc)
  from 2 b show ?case
    by (auto simp: read_command_def bindE_Inr_iff read_u8_def d split: if_splits
        dest!: key_value_codec.dec_sound key_codec.dec_sound)
qed

section \<open>Laws of the format\<close>

lemma deserialize_image:
  assumes "command_ok c"
  shows "deserialize (command_image c @ rest) = Inr c"
proof -
  have "command_image c @ rest \<noteq> []" by (cases c) simp_all
  then show ?thesis
    by (simp add: deserialize_read_command command_codec.dec_enc_start [OF assms])
qed

lemma deserialize_Inr_image:
  assumes "deserialize bs = Inr c"
  shows "command_ok c \<and> (\<exists>rest. bs = command_image c @ rest)"
proof -
  from assms obtain off where "read_command bs 0 = Inr (c, off)"
    by (auto simp: deserialize_read_command bindE_Inr_iff split: if_splits)
  then show ?thesis
    using command_codec.dec_sound command_codec.dec_canonical by blast
qed

lemma deserialize_error_runtime:
  assumes "deserialize bs = Inl e"
  shows "\<exists>msg. e = Runtime_error msg"
  using assms
  by (auto simp: deserialize_def read_meta_def read_string_def read_u8_def read_u32_le_def
      read_u64_le_def bindE_def split: if_splits sum.splits)

text \<open>
  C28. Round trip of the command format: whatever \<open>serialize\<close> writes, \<open>deserialize\<close> reads back
  as the same command, whatever bytes follow it in the buffer.
\<close>

theorem deserialize_serialize:
  assumes "serialize c = Inr bs"
  shows "deserialize (bs @ rest) = Inr c"
  using assms by (auto simp: serialize_image deserialize_image split: if_splits)

theorem deserialize_serialize_witness:
  "deserialize ([3, 123,0,0,0,0,0,0,0, 200,1,0,0,0,0,0,0, 1,0,0,0, 107] @ [42]) =
     Inr (GetCommand \<lparr>clientId = 123, sequenceNum = 456\<rparr> ''k'')"
  by (rule deserialize_serialize) (simp add: run_simps)

text \<open>
  C29. Accepted input is canonical: a buffer that \<open>deserialize\<close> accepts starts with exactly the
  bytes that \<open>serialize\<close> writes for the command it returns.
\<close>

theorem deserialize_canonical:
  assumes "deserialize bs = Inr c"
  shows "\<exists>img rest. serialize c = Inr img \<and> bs = img @ rest"
  using deserialize_Inr_image [OF assms] by (auto simp: serialize_image)

theorem deserialize_canonical_witness:
  "\<exists>img rest. serialize (GetCommand \<lparr>clientId = 123, sequenceNum = 456\<rparr> ''k'') = Inr img \<and>
     [3, 123,0,0,0,0,0,0,0, 200,1,0,0,0,0,0,0, 1,0,0,0, 107, 9] = img @ rest"
  by (rule deserialize_canonical) (simp add: run_simps)

text \<open>
  Truncation is detected: cutting the image of a command short anywhere makes
  \<open>deserialize\<close> throw \<open>std::runtime_error\<close> instead of returning some other command.
\<close>

theorem deserialize_truncated:
  assumes "serialize c = Inr bs" and "k < length bs"
  shows "\<exists>msg. deserialize (take k bs) = Inl (Runtime_error msg)"
proof -
  from assms have ok: "command_ok c" and bs: "bs = command_image c"
    by (auto simp: serialize_image split: if_splits)
  from command_codec.dec_truncated [OF ok, of k] assms(2) bs
  obtain e where "read_command (take k bs) 0 = Inl e" by auto
  then have "\<exists>e. deserialize (take k bs) = Inl e"
    by (simp add: deserialize_read_command)
  then show ?thesis using deserialize_error_runtime by blast
qed

theorem deserialize_truncated_witness:
  "\<exists>msg. deserialize (take 20 [3, 123,0,0,0,0,0,0,0, 200,1,0,0,0,0,0,0, 1,0,0,0, 107]) =
     Inl (Runtime_error msg)"
  by (rule deserialize_truncated [where c = "GetCommand \<lparr>clientId = 123, sequenceNum = 456\<rparr> ''k''"])
    (simp_all add: run_simps)

text \<open>
  Strings that do not fit the 32-bit length field are the only reason for \<open>serialize\<close> to
  throw, and what it throws is the \<open>runtime_error\<close> that names them.
\<close>

theorem serialize_error:
  "serialize c = Inl e \<longleftrightarrow>
     \<not> command_ok c \<and> e = Runtime_error ''String too large to serialize''"
  by (auto simp: serialize_image)

end
