(* ===== verification/KV_Store.thy ===== *)
theory KV_Store
  imports KV_Command "HOL-Library.AList"
begin

text \<open>
  The key-value store (\<open>include/kvstore/KVStore.hpp\<close>, \<open>src/kvstore/KVStore.cpp\<close>): its hash map,
  the operations, and the binary snapshot. The hash map is an association list in iteration
  order; C++ leaves that order unspecified, so no law below fixes one: each holds for every list
  with distinct keys. Every method holds \<open>mapMutex_\<close> for its whole body, so each is one atomic
  operation here. The locale \<open>key_value_store\<close> is the contract the Raft node relies on.
\<close>

section \<open>State and operations\<close>

record kvstore =
  kvMap :: "(string \<times> string) list"

definition empty_kvstore :: kvstore where
  "empty_kvstore = \<lparr>kvMap = []\<rparr>"

definition Put :: "string \<Rightarrow> string \<Rightarrow> kvstore \<Rightarrow> kvstore" where
  "Put key value kv = kv\<lparr>kvMap := AList.update key value (kvMap kv)\<rparr>"

definition Get :: "string \<Rightarrow> kvstore \<Rightarrow> string option" where
  "Get key kv = (case map_of (kvMap kv) key of Some v \<Rightarrow> Some v | None \<Rightarrow> None)"

text \<open>\<open>Append\<close> returns true on both branches.\<close>

definition Append :: "string \<Rightarrow> string \<Rightarrow> kvstore \<Rightarrow> bool \<times> kvstore" where
  "Append key value kv =
     (case map_of (kvMap kv) key of
        Some old \<Rightarrow> (True, kv\<lparr>kvMap := AList.update key (old @ value) (kvMap kv)\<rparr>)
      | None \<Rightarrow> (True, kv\<lparr>kvMap := AList.update key value (kvMap kv)\<rparr>))"

section \<open>Snapshots\<close>

text \<open>\<open>uint32_t keyLen = key.size()\<close> keeps the low 32 bits of the length.\<close>

definition snapshot_string :: "string \<Rightarrow> bytes" where
  "snapshot_string str = le_bytes 4 (of_nat (length str) :: u32) @ chars_to_bytes str"

definition takeSnapshot :: "kvstore \<Rightarrow> bytes" where
  "takeSnapshot kv =
     le_bytes 8 (of_nat (length (kvMap kv)) :: u64) @
     concat (map (\<lambda>(key, value). snapshot_string key @ snapshot_string value) (kvMap kv))"

text \<open>
  \<open>installSnapshot\<close> copies with \<open>memcpy\<close> and builds strings from raw pointers without comparing
  the offset with the size of the vector: reading past the end is undefined behaviour.
\<close>

definition memcpy_u64 :: "bytes \<Rightarrow> nat \<Rightarrow> exn + u64 \<times> nat" where
  "memcpy_u64 bs offset =
     (if offset + 8 > length bs then Inl (Undefined_behaviour ''memcpy past the end of the snapshot'')
      else Inr (le_value 8 (drop offset bs), offset + 8))"

definition memcpy_u32 :: "bytes \<Rightarrow> nat \<Rightarrow> exn + u32 \<times> nat" where
  "memcpy_u32 bs offset =
     (if offset + 4 > length bs then Inl (Undefined_behaviour ''memcpy past the end of the snapshot'')
      else Inr (le_value 4 (drop offset bs), offset + 4))"

definition snapshot_read_string :: "bytes \<Rightarrow> nat \<Rightarrow> exn + string \<times> nat" where
  "snapshot_read_string bs offset =
     bindE (memcpy_u32 bs offset) (\<lambda>(len, offset).
       if offset + unat len > length bs
       then Inl (Undefined_behaviour ''memcpy past the end of the snapshot'')
       else Inr (bytes_to_chars (take (unat len) (drop offset bs)), offset + unat len))"

fun install_entries :: "nat \<Rightarrow> bytes \<Rightarrow> nat \<Rightarrow> (string \<times> string) list \<Rightarrow> exn + (string \<times> string) list" where
  "install_entries 0 bs offset m = Inr m"
| "install_entries (Suc k) bs offset m =
     bindE (snapshot_read_string bs offset) (\<lambda>(key, offset).
     bindE (snapshot_read_string bs offset) (\<lambda>(value, offset).
       install_entries k bs offset (AList.update key value m)))"

definition installSnapshot :: "bytes \<Rightarrow> kvstore \<Rightarrow> exn + kvstore" where
  "installSnapshot snapshot kv =
     bindE (memcpy_u64 snapshot 0) (\<lambda>(numEntries, offset).
     bindE (install_entries (unat numEntries) snapshot offset []) (\<lambda>m.
       Inr (kv\<lparr>kvMap := m\<rparr>)))"

lemmas [run_simps] =
  empty_kvstore_def Put_def Get_def Append_def takeSnapshot_def snapshot_string_def
  memcpy_u64_def memcpy_u32_def snapshot_read_string_def installSnapshot_def

section \<open>Invariant and functional behaviour\<close>

text \<open>A hash map never holds a key twice, and its lengths fit the fields of the snapshot format.\<close>

definition kv_wf :: "kvstore \<Rightarrow> bool" where
  "kv_wf kv \<longleftrightarrow> distinct (map fst (kvMap kv))"

definition kv_fits :: "kvstore \<Rightarrow> bool" where
  "kv_fits kv \<longleftrightarrow> length (kvMap kv) < 18446744073709551616 \<and>
     (\<forall>(k, v) \<in> set (kvMap kv). length k < 4294967296 \<and> length v < 4294967296)"

lemma Get_map_of: "Get key kv = map_of (kvMap kv) key"
  by (simp add: Get_def split: option.split)

lemma Get_Put: "(\<lambda>k. Get k (Put key value kv)) = (\<lambda>k. Get k kv)(key \<mapsto> value)"
  by (simp add: Get_map_of Put_def update_conv fun_eq_iff)

lemma Get_Append:
  "(\<lambda>k. Get k (snd (Append key value kv))) =
     (\<lambda>k. Get k kv)(key \<mapsto> (case Get key kv of None \<Rightarrow> value | Some old \<Rightarrow> old @ value))"
  by (simp add: Get_map_of Append_def update_conv fun_eq_iff split: option.split)

lemma kv_wf_empty [simp]: "kv_wf empty_kvstore"
  by (simp add: kv_wf_def empty_kvstore_def)

lemma kv_wf_Put [simp]: "kv_wf kv \<Longrightarrow> kv_wf (Put key value kv)"
  by (simp add: kv_wf_def Put_def distinct_update)

lemma kv_wf_Append [simp]: "kv_wf kv \<Longrightarrow> kv_wf (snd (Append key value kv))"
  by (simp add: kv_wf_def Append_def distinct_update split: option.split)

section \<open>A snapshot restores the store\<close>

interpretation snapshot_string_codec: byte_codec string_image snapshot_read_string string_ok
  unfolding snapshot_read_string_def [abs_def] memcpy_u32_def by (rule byte_codec_string)

lemma snapshot_string_image: "snapshot_string str = string_image str"
  by (simp add: snapshot_string_def string_image_def)

definition entries_image :: "(string \<times> string) list \<Rightarrow> bytes" where
  "entries_image m = concat (map (\<lambda>(key, value). snapshot_string key @ snapshot_string value) m)"

lemma install_entries_image:
  assumes "\<forall>(k, v) \<in> set m. string_ok k \<and> string_ok v"
  shows "install_entries (length m) (pre @ entries_image m @ post) (length pre) acc =
    Inr (fold (\<lambda>(k, v). AList.update k v) m acc)"
  using assms
proof (induction m arbitrary: pre acc)
  case Nil
  then show ?case by simp
next
  case (Cons kv m)
  obtain k v where kv: "kv = (k, v)" by (cases kv)
  from Cons.prems have "string_ok k" "string_ok v" by (simp_all add: kv)
  then have "snapshot_read_string (pre @ string_image k @ string_image v @ entries_image m @ post) (length pre)
      = Inr (k, length (pre @ string_image k))"
    and "snapshot_read_string ((pre @ string_image k) @ string_image v @ entries_image m @ post)
        (length (pre @ string_image k)) = Inr (v, length (pre @ string_image k @ string_image v))"
    using snapshot_string_codec.dec_enc [of k pre] snapshot_string_codec.dec_enc [of v "pre @ string_image k"]
    by simp_all
  moreover have "install_entries (length m) ((pre @ string_image k @ string_image v) @ entries_image m @ post)
      (length (pre @ string_image k @ string_image v)) (AList.update k v acc)
      = Inr (fold (\<lambda>(k, v). AList.update k v) m (AList.update k v acc))"
    using Cons.prems by (intro Cons.IH) (simp add: kv)
  ultimately show ?case
    by (simp add: kv entries_image_def snapshot_string_image)
qed

lemma snapshot_read_string_undefined:
  "snapshot_read_string bs off = Inl e \<Longrightarrow> \<exists>msg. e = Undefined_behaviour msg"
  by (auto simp: snapshot_read_string_def memcpy_u32_def bindE_def split: if_splits sum.splits)

lemma install_entries_truncated:
  assumes "\<forall>(k, v) \<in> set m. string_ok k \<and> string_ok v" and "j < length (entries_image m)"
  shows "\<exists>msg. install_entries (length m) (pre @ take j (entries_image m)) (length pre) acc =
    Inl (Undefined_behaviour msg)"
  using assms
proof (induction m arbitrary: pre acc j)
  case Nil
  then show ?case by (simp add: entries_image_def)
next
  case (Cons kv m)
  obtain k v where kv: "kv = (k, v)" by (cases kv)
  let ?a = "length (string_image k)" and ?b = "length (string_image v)"
  from Cons.prems have ok: "string_ok k" "string_ok v" by (simp_all add: kv)
  have img: "entries_image (kv # m) = string_image k @ string_image v @ entries_image m"
    by (simp add: entries_image_def kv snapshot_string_image)
  consider "j < ?a" | "?a \<le> j" "j - ?a < ?b" | "?a + ?b \<le> j" by linarith
  then show ?case
  proof cases
    case 1
    then obtain e where "snapshot_read_string (pre @ take j (string_image k)) (length pre) = Inl e"
      using snapshot_string_codec.dec_truncated_at [OF ok(1)] by blast
    with 1 show ?thesis using snapshot_read_string_undefined by (fastforce simp: img)
  next
    case 2
    then obtain e where "snapshot_read_string ((pre @ string_image k) @ take (j - ?a) (string_image v))
        (length (pre @ string_image k)) = Inl e"
      using snapshot_string_codec.dec_truncated_at [OF ok(2)] by blast
    with 2 show ?thesis
      using snapshot_read_string_undefined snapshot_string_codec.dec_enc [OF ok(1), of pre]
      by (fastforce simp: img)
  next
    case 3
    have "j - ?a - ?b < length (entries_image m)"
      using Cons.prems(2) 3 unfolding img by (simp add: less_diff_conv2)
    then have "\<exists>msg. install_entries (length m) ((pre @ string_image k @ string_image v) @ take (j - ?a - ?b) (entries_image m))
        (length (pre @ string_image k @ string_image v)) (AList.update k v acc) = Inl (Undefined_behaviour msg)"
      using Cons.prems(1) by (intro Cons.IH) (auto simp: kv)
    with 3 show ?thesis
      using snapshot_string_codec.dec_enc [OF ok(1), of pre]
        snapshot_string_codec.dec_enc [OF ok(2), of "pre @ string_image k"]
      by (simp add: img add.assoc)
  qed
qed

lemma distinct_updates:
  "distinct (map fst acc) \<Longrightarrow> distinct (map fst (fold (\<lambda>(k, v). AList.update k v) m acc))"
  by (induction m arbitrary: acc) (auto simp: distinct_update)

lemma map_of_updates:
  "distinct (map fst m) \<Longrightarrow> map_of (fold (\<lambda>(k, v). AList.update k v) m acc) = map_of acc ++ map_of m"
proof (induction m arbitrary: acc)
  case (Cons kv m)
  obtain k v where kv: "kv = (k, v)" by (cases kv)
  with Cons have "map_of (fold (\<lambda>(k, v). AList.update k v) (kv # m) acc) =
    map_of (AList.update k v acc) ++ map_of m" by simp
  also have "\<dots> = (map_of acc)(k \<mapsto> v) ++ map_of m"
    by (simp only: update_conv')
  also have "\<dots> = (map_of acc ++ map_of m)(k \<mapsto> v)"
    using Cons.prems by (intro map_add_upd_left) (simp add: kv dom_map_of_conv_image_fst)
  also have "\<dots> = map_of acc ++ map_of (kv # m)"
    by (simp only: kv map_of.simps map_add_upd fst_conv snd_conv)
  finally show ?case .
qed simp

lemma installSnapshot_takeSnapshot:
  assumes "kv_wf kv" and "kv_fits kv"
  shows "\<exists>kv'. installSnapshot (takeSnapshot kv) kv0 = Inr kv' \<and> kv_wf kv' \<and>
    (\<forall>key. Get key kv' = Get key kv)"
proof -
  let ?n = "of_nat (length (kvMap kv)) :: u64"
  let ?m = "fold (\<lambda>(k, v). AList.update k v) (kvMap kv) []"
  have n: "unat ?n = length (kvMap kv)"
    using assms(2) by (simp add: kv_fits_def unat_of_nat)
  have "install_entries (length (kvMap kv)) (le_bytes 8 ?n @ entries_image (kvMap kv) @ [])
      (length (le_bytes 8 ?n)) [] = Inr ?m"
    using assms(2) by (intro install_entries_image) (auto simp: kv_fits_def string_ok_def)
  then have "installSnapshot (takeSnapshot kv) kv0 = Inr (kv0\<lparr>kvMap := ?m\<rparr>)"
    using n by (simp add: installSnapshot_def takeSnapshot_def memcpy_u64_def entries_image_def)
  then show ?thesis
    using assms(1) distinct_updates [of "[]"]
    by (simp add: kv_wf_def Get_map_of map_of_updates)
qed

section \<open>The contract of the store\<close>

text \<open>
  The commands act on a store through \<open>Put\<close> and \<open>Append\<close>; a \<open>GET\<close> changes nothing. The abstract
  store is a map from keys to values.
\<close>

fun exec_with :: "(string \<Rightarrow> string \<Rightarrow> 's \<Rightarrow> 's) \<Rightarrow> (string \<Rightarrow> string \<Rightarrow> 's \<Rightarrow> 's) \<Rightarrow> command \<Rightarrow> 's \<Rightarrow> 's" where
  "exec_with put app (PutCommand m k v) s = put k v s"
| "exec_with put app (AppendCommand m k v) s = app k v s"
| "exec_with put app (GetCommand m k) s = s"

definition upd_put :: "string \<Rightarrow> string \<Rightarrow> (string \<rightharpoonup> string) \<Rightarrow> (string \<rightharpoonup> string)" where
  "upd_put k v m = m(k \<mapsto> v)"

definition upd_append :: "string \<Rightarrow> string \<Rightarrow> (string \<rightharpoonup> string) \<Rightarrow> (string \<rightharpoonup> string)" where
  "upd_append k v m = m(k \<mapsto> (case m k of None \<Rightarrow> v | Some old \<Rightarrow> old @ v))"

abbreviation exec_map :: "command \<Rightarrow> (string \<rightharpoonup> string) \<Rightarrow> (string \<rightharpoonup> string)" where
  "exec_map \<equiv> exec_with upd_put upd_append"

locale key_value_store =
  fixes put :: "string \<Rightarrow> string \<Rightarrow> 's \<Rightarrow> 's"
    and app :: "string \<Rightarrow> string \<Rightarrow> 's \<Rightarrow> 's"
    and get :: "string \<Rightarrow> 's \<Rightarrow> string option"
    and wf :: "'s \<Rightarrow> bool"
  assumes wf_put: "wf s \<Longrightarrow> wf (put k v s)"
    and wf_app: "wf s \<Longrightarrow> wf (app k v s)"
    and get_put: "wf s \<Longrightarrow> (\<lambda>k'. get k' (put k v s)) = upd_put k v (\<lambda>k'. get k' s)"
    and get_app: "wf s \<Longrightarrow> (\<lambda>k'. get k' (app k v s)) = upd_append k v (\<lambda>k'. get k' s)"
begin

lemma exec_refines:
  assumes "wf s"
  shows "wf (exec_with put app c s) \<and>
    (\<lambda>k. get k (exec_with put app c s)) = exec_map c (\<lambda>k. get k s)"
  using assms by (cases c) (simp_all add: wf_put wf_app get_put get_app)

lemma replay_refines:
  assumes "wf s"
  shows "wf (fold (exec_with put app) cs s) \<and>
    (\<lambda>k. get k (fold (exec_with put app) cs s)) = fold exec_map cs (\<lambda>k. get k s)"
  using assms
proof (induction cs arbitrary: s)
  case (Cons c cs)
  then have "wf (exec_with put app c s)" using exec_refines by blast
  with Cons show ?case using exec_refines [of s c] by simp
qed simp

lemma replay_cong:
  assumes "wf s" and "wf t" and "\<And>k. get k s = get k t"
  shows "get k (fold (exec_with put app) cs s) = get k (fold (exec_with put app) cs t)"
proof -
  have "(\<lambda>k. get k s) = (\<lambda>k. get k t)" using assms(3) by blast
  then have "(\<lambda>k. get k (fold (exec_with put app) cs s)) = (\<lambda>k. get k (fold (exec_with put app) cs t))"
    using replay_refines [OF assms(1)] replay_refines [OF assms(2)] by simp
  then show ?thesis by (rule fun_cong)
qed

end

locale snapshot_store = key_value_store +
  fixes snapshot :: "'s \<Rightarrow> bytes"
    and install :: "bytes \<Rightarrow> 's \<Rightarrow> exn + 's"
    and fits :: "'s \<Rightarrow> bool"
  assumes install_snapshot: "wf s \<Longrightarrow> fits s \<Longrightarrow>
    \<exists>s'. install (snapshot s) s0 = Inr s' \<and> wf s' \<and> (\<forall>k. get k s' = get k s)"
begin

lemma snapshot_then_replay:
  assumes "wf s" and "fits s"
  shows "\<exists>s'. install (snapshot s) s0 = Inr s' \<and>
    (\<forall>k cs. get k (fold (exec_with put app) cs s') = get k (fold (exec_with put app) cs s))"
proof -
  from install_snapshot [OF assms] obtain s' where "install (snapshot s) s0 = Inr s'" "wf s'"
    and "\<forall>k. get k s' = get k s" by blast
  then show ?thesis using replay_cong [of s' s] assms(1) by blast
qed

end

definition exec_command :: "command \<Rightarrow> kvstore \<Rightarrow> kvstore" where
  "exec_command = exec_with Put (\<lambda>k v kv. snd (Append k v kv))"

interpretation kv: key_value_store Put "\<lambda>k v kv. snd (Append k v kv)" Get kv_wf
  by unfold_locales (simp_all add: Get_Put Get_Append upd_put_def upd_append_def)

interpretation kv_snap: snapshot_store Put "\<lambda>k v kv. snd (Append k v kv)" Get kv_wf
  takeSnapshot installSnapshot kv_fits
  by unfold_locales (rule installSnapshot_takeSnapshot)

section \<open>Laws of the store\<close>

text \<open>
  The store refines the abstract map: replaying any list of commands on a well-formed store
  keeps it well formed and its \<open>Get\<close> is the map that the commands build.
\<close>

theorem kvstore_replay_refines:
  "(\<lambda>k. Get k (fold exec_command cs empty_kvstore)) = fold exec_map cs (\<lambda>k. None) \<and>
   kv_wf (fold exec_command cs empty_kvstore)"
  using kv.replay_refines [of empty_kvstore cs]
  by (simp add: exec_command_def) (simp add: Get_def empty_kvstore_def)

text \<open>
  C30. A snapshot is a complete substitute for the commands it covers: installing the snapshot of
  a store into any other store and replaying further commands gives, key for key, what replaying
  them on the original store gives.
\<close>

theorem snapshot_transfer:
  assumes "kv_wf kv" and "kv_fits kv"
  shows "\<exists>kv'. installSnapshot (takeSnapshot kv) kv0 = Inr kv' \<and>
    (\<forall>key cs. Get key (fold exec_command cs kv') = Get key (fold exec_command cs kv))"
  using kv_snap.snapshot_then_replay [OF assms] by (simp add: exec_command_def)

theorem snapshot_transfer_witness:
  "\<exists>kv'. installSnapshot (takeSnapshot \<lparr>kvMap = [(''key1'', ''value1''), (''k'', ''v'')]\<rparr>) empty_kvstore = Inr kv' \<and>
    (\<forall>key cs. Get key (fold exec_command cs kv') =
       Get key (fold exec_command cs \<lparr>kvMap = [(''key1'', ''value1''), (''k'', ''v'')]\<rparr>))"
  by (rule snapshot_transfer) (simp_all add: kv_wf_def kv_fits_def)

text \<open>
  \<open>installSnapshot\<close> does not check its input: on a snapshot that is cut short anywhere, such
  as a partly written file, it reads past the end of the vector.
\<close>

theorem installSnapshot_truncated_undefined:
  assumes "kv_fits kv" and "k < length (takeSnapshot kv)"
  shows "\<exists>msg. installSnapshot (take k (takeSnapshot kv)) kv0 = Inl (Undefined_behaviour msg)"
proof (cases "k < 8")
  case True
  then have "length (take k (takeSnapshot kv)) < 8" by simp
  then show ?thesis by (simp only: installSnapshot_def memcpy_u64_def) simp
next
  case False
  let ?n = "of_nat (length (kvMap kv)) :: u64"
  have n: "unat ?n = length (kvMap kv)"
    using assms(1) by (simp add: kv_fits_def unat_of_nat)
  have s: "takeSnapshot kv = le_bytes 8 ?n @ entries_image (kvMap kv)"
    by (simp add: takeSnapshot_def entries_image_def)
  have "\<exists>msg. install_entries (length (kvMap kv)) (le_bytes 8 ?n @ take (k - 8) (entries_image (kvMap kv)))
      (length (le_bytes 8 ?n)) [] = Inl (Undefined_behaviour msg)"
    using assms(1,2) False by (intro install_entries_truncated) (auto simp: kv_fits_def string_ok_def s)
  with False n show ?thesis
    by (auto simp: installSnapshot_def memcpy_u64_def s)
qed

theorem installSnapshot_truncated_undefined_witness:
  "\<exists>msg. installSnapshot (take 9 (takeSnapshot \<lparr>kvMap = [(''k'', ''v'')]\<rparr>)) empty_kvstore =
     Inl (Undefined_behaviour msg)"
  by (rule installSnapshot_truncated_undefined) (simp_all add: kv_fits_def run_simps)

end
