(* ===== verification/Raft_Log.thy ===== *)
theory Raft_Log
  imports Raft_Prelude
begin

text \<open>
  The replicated log (\<open>include/raft/Log.hpp\<close>, \<open>src/raft/Log.cpp\<close>). The vector \<open>Entries\<close> starts
  with a sentinel: the dummy of the constructor, or the entry (or dummy) at the snapshot index
  after a compaction. \<open>getEntry\<close> and \<open>discardEntriesUpTo\<close> translate a log index to a vector
  position by subtracting the snapshot index; \<open>getTerm\<close> and \<open>truncate\<close> use the log index as the
  position. The laws below therefore come in two groups: the ones that hold for every log, and the
  ones that need a log that was never compacted.
\<close>

section \<open>State\<close>

record log_entry =
  e_index :: u64
  e_term :: u64
  command_data :: bytes

record raft_log =
  Entries :: "log_entry list"
  log_snapshotIndex :: u64
  log_snapshotTerm :: u64

definition dummy_entry :: log_entry where
  "dummy_entry = \<lparr>e_index = 0, e_term = 0, command_data = []\<rparr>"

definition new_log :: raft_log where
  "new_log = \<lparr>Entries = [dummy_entry], log_snapshotIndex = 0, log_snapshotTerm = 0\<rparr>"

section \<open>Operations\<close>

text \<open>\<open>append\<close> is named \<open>log_append\<close>, and \<open>truncate\<close> \<open>log_truncate\<close>.\<close>

definition log_append :: "log_entry \<Rightarrow> raft_log \<Rightarrow> exn + raft_log" where
  "log_append entry l =
     (let expectedIndex = e_index (last (Entries l)) + 1
      in if e_index entry \<noteq> expectedIndex
         then Inl (Logic_error (''Invalid log entry index: expected '' @ to_string expectedIndex @
                                '', got '' @ to_string (e_index entry)))
         else Inr (l\<lparr>Entries := Entries l @ [entry]\<rparr>))"

definition log_truncate :: "u64 \<Rightarrow> raft_log \<Rightarrow> exn + raft_log" where
  "log_truncate index l =
     (if index = 0 then Inl (Invalid_argument ''Cannot truncate at index 0 (sentinel)'')
      else let position = unat index
           in if position \<ge> length (Entries l) then Inr l
              else Inr (l\<lparr>Entries := take position (Entries l)\<rparr>))"

definition getFirstIndex :: "raft_log \<Rightarrow> u64" where
  "getFirstIndex l = log_snapshotIndex l + 1"

definition getEntry :: "raft_log \<Rightarrow> u64 \<Rightarrow> exn + log_entry" where
  "getEntry l index =
     (if index \<le> log_snapshotIndex l then Inl (Out_of_range ''Entry is in snapshot'')
      else let vectorIndex = unat (index - log_snapshotIndex l)
           in if vectorIndex \<ge> length (Entries l) then Inl (Out_of_range ''Index out of range'')
              else Inr (Entries l ! vectorIndex))"

definition discardEntriesUpTo :: "u64 \<Rightarrow> u64 \<Rightarrow> raft_log \<Rightarrow> raft_log" where
  "discardEntriesUpTo index trm l =
     (if index \<le> log_snapshotIndex l then l
      else let vectorIndex = unat (index - log_snapshotIndex l);
               kept = (if vectorIndex \<ge> length (Entries l) then [] else drop vectorIndex (Entries l));
               entries = (if kept = [] \<or> e_index (kept ! 0) \<noteq> index
                          then \<lparr>e_index = index, e_term = trm, command_data = []\<rparr> # kept
                          else kept)
           in \<lparr>Entries = entries, log_snapshotIndex = index, log_snapshotTerm = trm\<rparr>)"

definition getTerm :: "raft_log \<Rightarrow> u64 \<Rightarrow> u64" where
  "getTerm l index = (if unat index \<ge> length (Entries l) then 0 else e_term (Entries l ! unat index))"

definition getLastIndex :: "raft_log \<Rightarrow> u64" where
  "getLastIndex l = e_index (last (Entries l))"

definition getLastTerm :: "raft_log \<Rightarrow> u64" where
  "getLastTerm l = e_term (last (Entries l))"

definition getSnapshotIndex :: "raft_log \<Rightarrow> u64" where
  "getSnapshotIndex l = log_snapshotIndex l"

definition getSnapshotTerm :: "raft_log \<Rightarrow> u64" where
  "getSnapshotTerm l = log_snapshotTerm l"

lemmas [run_simps] =
  dummy_entry_def new_log_def log_append_def log_truncate_def getFirstIndex_def getEntry_def
  discardEntriesUpTo_def getTerm_def getLastIndex_def getLastTerm_def getSnapshotIndex_def
  getSnapshotTerm_def

section \<open>Invariant\<close>

text \<open>
  The vector is never empty, position \<open>k\<close> holds the entry with index \<open>snapshotIndex + k\<close>, and
  the indices do not wrap around.
\<close>

definition log_wf :: "raft_log \<Rightarrow> bool" where
  "log_wf l \<longleftrightarrow> Entries l \<noteq> [] \<and>
     unat (log_snapshotIndex l) + length (Entries l) \<le> 18446744073709551616 \<and>
     (\<forall>k < length (Entries l). unat (e_index (Entries l ! k)) = unat (log_snapshotIndex l) + k)"

text \<open>The last index as a number, and a log that was never compacted.\<close>

definition last_nat :: "raft_log \<Rightarrow> nat" where
  "last_nat l = unat (log_snapshotIndex l) + length (Entries l) - 1"

definition uncompacted :: "raft_log \<Rightarrow> bool" where
  "uncompacted l \<longleftrightarrow> log_snapshotIndex l = 0"

text \<open>The abstract log: a partial map from indices to entries.\<close>

definition log_map :: "raft_log \<Rightarrow> nat \<rightharpoonup> log_entry" where
  "log_map l k = (if unat (log_snapshotIndex l) < k \<and> k \<le> last_nat l
     then Some (Entries l ! (k - unat (log_snapshotIndex l))) else None)"

lemma log_wf_new [simp]: "log_wf new_log"
  by (simp add: log_wf_def new_log_def dummy_entry_def)

lemma log_wf_nonempty: "log_wf l \<Longrightarrow> Entries l \<noteq> []"
  by (simp add: log_wf_def)

lemma getLastIndex_nat: "log_wf l \<Longrightarrow> unat (getLastIndex l) = last_nat l"
  by (cases "Entries l") (auto simp: log_wf_def getLastIndex_def last_nat_def last_conv_nth)

section \<open>Every operation keeps the invariant\<close>

lemma log_wf_index:
  "log_wf l \<Longrightarrow> k < length (Entries l) \<Longrightarrow> unat (e_index (Entries l ! k)) = unat (log_snapshotIndex l) + k"
  by (simp add: log_wf_def)

lemma log_wf_bound: "log_wf l \<Longrightarrow> last_nat l < 18446744073709551616"
  by (cases "Entries l") (auto simp: log_wf_def last_nat_def)

lemma log_append_Inr:
  assumes "log_wf l" and "last_nat l < 18446744073709551615"
  shows "log_append e l = Inr l' \<longleftrightarrow>
    unat (e_index e) = Suc (last_nat l) \<and> l' = l\<lparr>Entries := Entries l @ [e]\<rparr>"
proof -
  have "unat (getLastIndex l + 1) = Suc (last_nat l)"
    using assms by (simp add: word_conv getLastIndex_nat)
  then have "e_index e = getLastIndex l + 1 \<longleftrightarrow> unat (e_index e) = Suc (last_nat l)"
    by (simp add: word_unat_eq_iff)
  then show ?thesis
    by (auto simp: log_append_def Let_def getLastIndex_def)
qed

lemma log_append_wf:
  assumes "log_wf l" and "last_nat l < 18446744073709551615" and "log_append e l = Inr l'"
  shows "log_wf l' \<and> last_nat l' = Suc (last_nat l) \<and> log_map l' = (log_map l)(Suc (last_nat l) \<mapsto> e)"
proof -
  from assms have e: "unat (e_index e) = Suc (last_nat l)"
    and l': "l' = l\<lparr>Entries := Entries l @ [e]\<rparr>" and ne: "Entries l \<noteq> []"
    by (simp_all add: log_append_Inr log_wf_nonempty)
  from ne have len: "Suc (last_nat l) = unat (log_snapshotIndex l) + length (Entries l)"
    by (cases "Entries l") (simp_all add: last_nat_def)
  then have "last_nat l' = Suc (last_nat l)"
    by (simp add: l' last_nat_def)
  moreover have "log_wf l'"
    using assms(1,2) e len by (auto simp: log_wf_def l' nth_append less_Suc_eq)
  moreover have "log_map l' = (log_map l)(Suc (last_nat l) \<mapsto> e)"
    using len calculation(1) ne by (auto simp: log_map_def l' nth_append fun_eq_iff)
  ultimately show ?thesis by simp
qed

lemma log_truncate_wf:
  assumes "log_wf l" and "log_truncate i l = Inr l'"
  shows "log_wf l' \<and> last_nat l' = min (last_nat l) (unat (log_snapshotIndex l) + unat i - 1) \<and>
    log_map l' = log_map l |` {..<unat (log_snapshotIndex l) + unat i}"
proof -
  from assms(2) have i: "0 < unat i"
    by (auto simp: log_truncate_def unat_gt_0 split: if_splits)
  show ?thesis
  proof (cases "unat i \<ge> length (Entries l)")
    case True
    with assms(2) i have "l' = l" by (auto simp: log_truncate_def split: if_splits)
    with True assms(1) show ?thesis
      by (auto simp: last_nat_def min_def log_map_def restrict_map_def fun_eq_iff log_wf_def)
  next
    case False
    with assms(2) i have l': "l' = l\<lparr>Entries := take (unat i) (Entries l)\<rparr>"
      by (auto simp: log_truncate_def Let_def split: if_splits)
    with False i assms(1) show ?thesis
      by (auto simp: last_nat_def min_def log_map_def restrict_map_def fun_eq_iff log_wf_def)
  qed
qed

lemma discardEntriesUpTo_wf:
  assumes "log_wf l"
  shows "log_wf (discardEntriesUpTo i t l) \<and>
    log_snapshotIndex (discardEntriesUpTo i t l) = max i (log_snapshotIndex l) \<and>
    last_nat (discardEntriesUpTo i t l) = max (unat i) (last_nat l) \<and>
    log_map (discardEntriesUpTo i t l) = log_map l |` {unat i<..}"
proof (cases "i \<le> log_snapshotIndex l")
  case True
  moreover from this have "unat i \<le> unat (log_snapshotIndex l)" by (simp add: word_le_nat_alt)
  moreover have "unat (log_snapshotIndex l) \<le> last_nat l"
    using log_wf_nonempty [OF assms] by (cases "Entries l") (simp_all add: last_nat_def)
  ultimately show ?thesis
    using assms by (auto simp: discardEntriesUpTo_def log_map_def restrict_map_def fun_eq_iff max_def)
next
  case False
  then have gt: "unat (log_snapshotIndex l) < unat i" and d: "unat (i - log_snapshotIndex l) = unat i - unat (log_snapshotIndex l)"
    by (simp_all add: word_less_nat_alt not_le word_conv less_imp_le)
  show ?thesis
  proof (cases "unat i - unat (log_snapshotIndex l) \<ge> length (Entries l)")
    case True
    with False d have "discardEntriesUpTo i t l =
      \<lparr>Entries = [\<lparr>e_index = i, e_term = t, command_data = []\<rparr>], log_snapshotIndex = i, log_snapshotTerm = t\<rparr>"
      by (simp add: discardEntriesUpTo_def Let_def)
    moreover have "unat i < 18446744073709551616" by simp
    ultimately show ?thesis
      using True False gt
      by (auto simp: log_wf_def last_nat_def log_map_def restrict_map_def fun_eq_iff max_def Suc_le_eq)
  next
    case inside: False
    let ?v = "unat i - unat (log_snapshotIndex l)"
    have "unat (e_index (Entries l ! ?v)) = unat i"
      using log_wf_index [OF assms, of ?v] inside gt by simp
    then have "e_index (Entries l ! ?v) = i" by (simp add: word_unat_eq_iff)
    with inside False d have "discardEntriesUpTo i t l =
      \<lparr>Entries = drop ?v (Entries l), log_snapshotIndex = i, log_snapshotTerm = t\<rparr>"
      by (simp add: discardEntriesUpTo_def Let_def)
    with inside False gt assms show ?thesis
      by (auto simp: log_wf_def last_nat_def log_map_def restrict_map_def fun_eq_iff max_def)
  qed
qed

section \<open>Reading\<close>

lemma getEntry_log_map:
  assumes "log_wf l"
  shows "getEntry l i = (case log_map l (unat i) of
      Some e \<Rightarrow> Inr e
    | None \<Rightarrow> Inl (Out_of_range (if i \<le> log_snapshotIndex l then ''Entry is in snapshot'' else ''Index out of range'')))"
proof (cases "i \<le> log_snapshotIndex l")
  case True
  then show ?thesis by (simp add: getEntry_def log_map_def word_le_nat_alt)
next
  case False
  then have "unat (log_snapshotIndex l) < unat i"
    and "unat (i - log_snapshotIndex l) = unat i - unat (log_snapshotIndex l)"
    by (simp_all add: word_less_nat_alt not_le word_conv less_imp_le)
  then show ?thesis
    using False log_wf_nonempty [OF assms]
    by (cases "Entries l") (auto simp: getEntry_def log_map_def last_nat_def Let_def)
qed

lemma log_map_index:
  assumes "log_wf l" and "log_map l k = Some e"
  shows "unat (e_index e) = k"
  using assms log_wf_index [OF assms(1), of "k - unat (log_snapshotIndex l)"]
  by (cases "Entries l") (auto simp: log_map_def last_nat_def split: if_splits)

lemma dom_log_map: "dom (log_map l) = {unat (log_snapshotIndex l)<..last_nat l}"
  by (auto simp: log_map_def split: if_splits)

lemma getTerm_log_map:
  assumes "log_wf l" and "0 < i"
  shows "getTerm l i = (case log_map l (unat (log_snapshotIndex l) + unat i) of Some e \<Rightarrow> e_term e | None \<Rightarrow> 0)"
proof -
  from assms(2) have "0 < unat i" by (simp add: word_less_nat_alt)
  then show ?thesis
    using log_wf_nonempty [OF assms(1)]
    by (cases "Entries l") (auto simp: getTerm_def log_map_def last_nat_def)
qed

section \<open>The interface of a log that grows at its end\<close>

text \<open>
  The loops of the other components that rebuild or extend a log use only \<open>append\<close>: an entry with
  the next index is added at the end, any other index throws and leaves the log alone.
\<close>

fun append_all :: "(log_entry \<Rightarrow> 'l \<Rightarrow> exn + 'l) \<Rightarrow> log_entry list \<Rightarrow> 'l \<Rightarrow> (exn + unit) \<times> 'l" where
  "append_all app [] l = (Inr (), l)"
| "append_all app (e # es) l =
     (case app e l of Inl x \<Rightarrow> (Inl x, l) | Inr l' \<Rightarrow> append_all app es l')"

text \<open>Entries with consecutive indices from \<open>k\<close> on.\<close>

definition consecutive :: "nat \<Rightarrow> log_entry list \<Rightarrow> bool" where
  "consecutive k es \<longleftrightarrow> (\<forall>i < length es. unat (e_index (es ! i)) = k + i)"

lemma consecutive_Nil [simp]: "consecutive k []"
  by (simp add: consecutive_def)

lemma consecutive_Cons [simp]:
  "consecutive k (e # es) \<longleftrightarrow> unat (e_index e) = k \<and> consecutive (Suc k) es"
  by (auto simp: consecutive_def less_Suc_eq_0_disj)

lemma log_wf_consecutive:
  "log_wf l \<longleftrightarrow> Entries l \<noteq> [] \<and>
     unat (log_snapshotIndex l) + length (Entries l) \<le> 18446744073709551616 \<and>
     consecutive (unat (log_snapshotIndex l)) (Entries l)"
  by (simp add: log_wf_def consecutive_def)

locale appendable_log =
  fixes app :: "log_entry \<Rightarrow> 'l \<Rightarrow> exn + 'l"
    and contents :: "'l \<Rightarrow> log_entry list"
    and next_index :: "'l \<Rightarrow> nat"
    and wf :: "'l \<Rightarrow> bool"
  assumes app_next: "wf l \<Longrightarrow> next_index l < 18446744073709551616 \<Longrightarrow> unat (e_index e) = next_index l \<Longrightarrow>
      \<exists>l'. app e l = Inr l' \<and> wf l' \<and> contents l' = contents l @ [e] \<and> next_index l' = Suc (next_index l)"
    and app_other: "wf l \<Longrightarrow> next_index l < 18446744073709551616 \<Longrightarrow> unat (e_index e) \<noteq> next_index l \<Longrightarrow>
      \<exists>msg. app e l = Inl (Logic_error msg)"
begin

lemma append_all_consecutive:
  assumes "wf l" and "consecutive (next_index l) es"
    and "next_index l + length es \<le> 18446744073709551616"
  shows "\<exists>l'. append_all app es l = (Inr (), l') \<and> wf l' \<and> contents l' = contents l @ es \<and>
    next_index l' = next_index l + length es"
  using assms
proof (induction es arbitrary: l)
  case Nil
  then show ?case by simp
next
  case (Cons e es)
  then obtain l1 where l1: "app e l = Inr l1" "wf l1" "contents l1 = contents l @ [e]"
    "next_index l1 = Suc (next_index l)"
    using app_next [of l e] by auto
  with Cons.prems Cons.IH [of l1] show ?case by auto
qed

lemma append_all_gap:
  assumes "wf l" and "next_index l < 18446744073709551616" and "unat (e_index e) \<noteq> next_index l"
  shows "\<exists>msg. append_all app (e # es) l = (Inl (Logic_error msg), l)"
  using app_other [OF assms] by auto

end

interpretation log_end: appendable_log log_append "\<lambda>l. tl (Entries l)" "\<lambda>l. Suc (last_nat l)" log_wf
proof (unfold_locales, goal_cases)
  case (1 l e)
  then have "log_append e l = Inr (l\<lparr>Entries := Entries l @ [e]\<rparr>)"
    by (simp add: log_append_Inr)
  with 1 log_append_wf [of l e] log_wf_nonempty [of l] show ?case by simp
next
  case (2 l e)
  then have "log_append e l \<noteq> Inr (l\<lparr>Entries := Entries l @ [e]\<rparr>)" by (simp add: log_append_Inr)
  then show ?case by (auto simp: log_append_def Let_def split: if_splits)
qed

section \<open>Laws of the log\<close>

text \<open>
  C31. \<open>append\<close> accepts exactly the next index; then the log gains that entry and nothing else
  changes, and on any other index it throws \<open>logic_error\<close>.
\<close>

theorem append_refines:
  assumes "log_wf l" and "last_nat l < 18446744073709551615"
  shows "case log_append e l of
      Inr l' \<Rightarrow> unat (e_index e) = Suc (last_nat l) \<and> log_wf l' \<and>
        last_nat l' = Suc (last_nat l) \<and> log_map l' = (log_map l)(Suc (last_nat l) \<mapsto> e)
    | Inl x \<Rightarrow> unat (e_index e) \<noteq> Suc (last_nat l) \<and> (\<exists>msg. x = Logic_error msg)"
proof (cases "log_append e l")
  case (Inl x)
  then show ?thesis
    using assms log_append_Inr [OF assms, of e "l\<lparr>Entries := Entries l @ [e]\<rparr>"]
    by (auto simp: log_append_def Let_def split: if_splits)
next
  case (Inr l')
  with log_append_wf [OF assms Inr] show ?thesis
    using log_append_Inr [OF assms, of e l'] by (simp only: sum.case) simp
qed

definition sample_log :: raft_log where
  "sample_log = \<lparr>Entries = [dummy_entry, \<lparr>e_index = 1, e_term = 1, command_data = []\<rparr>,
     \<lparr>e_index = 2, e_term = 1, command_data = []\<rparr>, \<lparr>e_index = 3, e_term = 2, command_data = []\<rparr>],
     log_snapshotIndex = 0, log_snapshotTerm = 0\<rparr>"

lemma sample_log_entries:
  "Entries sample_log = [dummy_entry, \<lparr>e_index = 1, e_term = 1, command_data = []\<rparr>,
     \<lparr>e_index = 2, e_term = 1, command_data = []\<rparr>, \<lparr>e_index = 3, e_term = 2, command_data = []\<rparr>]"
  by (simp add: sample_log_def)

lemma sample_log_wf [simp]: "log_wf sample_log"
  by (simp add: log_wf_consecutive sample_log_def dummy_entry_def)

lemma sample_log_simps [simp]:
  "last_nat sample_log = 3" "log_snapshotIndex sample_log = 0"
  "log_map sample_log 3 = Some \<lparr>e_index = 3, e_term = 2, command_data = []\<rparr>"
  "log_map sample_log 5 = None"
  by (simp_all add: sample_log_def last_nat_def log_map_def)

lemma sample_compacted:
  "log_wf (discardEntriesUpTo 2 1 sample_log)" "log_snapshotIndex (discardEntriesUpTo 2 1 sample_log) = 2"
  "last_nat (discardEntriesUpTo 2 1 sample_log) = 3"
  "log_map (discardEntriesUpTo 2 1 sample_log) = log_map sample_log |` {2<..}"
  using discardEntriesUpTo_wf [OF sample_log_wf, of 2 1] by simp_all

theorem append_refines_witness:
  "case log_append \<lparr>e_index = 5, e_term = 2, command_data = []\<rparr> sample_log of
      Inr l' \<Rightarrow> False | Inl x \<Rightarrow> (\<exists>msg. x = Logic_error msg)"
  using append_refines [of sample_log "\<lparr>e_index = 5, e_term = 2, command_data = []\<rparr>"]
  by (simp split: sum.splits)

text \<open>
  \<open>getEntry\<close> is the abstract lookup: it returns the entry with the requested index when the
  log holds one, and throws \<open>out_of_range\<close> exactly when it does not.
\<close>

theorem getEntry_exact:
  assumes "log_wf l"
  shows "getEntry l i = (case log_map l (unat i) of
      Some e \<Rightarrow> Inr e
    | None \<Rightarrow> Inl (Out_of_range (if i \<le> log_snapshotIndex l then ''Entry is in snapshot'' else ''Index out of range''))) \<and>
    (\<forall>e. getEntry l i = Inr e \<longrightarrow> e_index e = i)"
  using getEntry_log_map [OF assms, of i] log_map_index [OF assms, of "unat i"]
  by (auto split: option.splits simp: word_unat_eq_iff)

theorem getEntry_exact_witness:
  "getEntry sample_log 3 = Inr \<lparr>e_index = 3, e_term = 2, command_data = []\<rparr>"
  using getEntry_exact [of sample_log 3] by simp

text \<open>
  Compaction forgets exactly the entries it covers: every entry above the index stays where
  it was, also when the whole log is discarded, and an older index changes nothing.
\<close>

theorem discard_refines:
  assumes "log_wf l"
  shows "log_wf (discardEntriesUpTo i t l) \<and>
    log_snapshotIndex (discardEntriesUpTo i t l) = max i (log_snapshotIndex l) \<and>
    last_nat (discardEntriesUpTo i t l) = max (unat i) (last_nat l) \<and>
    log_map (discardEntriesUpTo i t l) = log_map l |` {unat i<..}"
  by (rule discardEntriesUpTo_wf [OF assms])

theorem discard_refines_witness:
  "log_wf (discardEntriesUpTo 2 1 sample_log) \<and> last_nat (discardEntriesUpTo 2 1 sample_log) = 3"
  using discard_refines [of sample_log 2 1] by simp

text \<open>
  On a log that was never compacted, \<open>truncate\<close> removes exactly the entries from the given
  index on, and refuses index 0.
\<close>

theorem truncate_uncompacted:
  assumes "log_wf l" and "uncompacted l"
  shows "case log_truncate i l of
      Inr l' \<Rightarrow> i \<noteq> 0 \<and> log_wf l' \<and> uncompacted l' \<and> log_map l' = log_map l |` {..<unat i}
    | Inl x \<Rightarrow> i = 0 \<and> (\<exists>msg. x = Invalid_argument msg)"
proof (cases "log_truncate i l")
  case (Inl x)
  then show ?thesis by (auto simp: log_truncate_def Let_def split: if_splits)
next
  case (Inr l')
  moreover from Inr assms(2) have "uncompacted l'"
    by (auto simp: log_truncate_def Let_def uncompacted_def split: if_splits)
  moreover from Inr have "i \<noteq> 0" by (auto simp: log_truncate_def split: if_splits)
  ultimately show ?thesis
    using log_truncate_wf [OF assms(1) Inr] assms(2) by (simp add: uncompacted_def)
qed

theorem truncate_uncompacted_witness:
  "case log_truncate 2 sample_log of
      Inr l' \<Rightarrow> log_wf l' \<and> log_map l' = log_map sample_log |` {..<2} | Inl x \<Rightarrow> False"
  using truncate_uncompacted [of sample_log 2] by (simp add: uncompacted_def split: sum.splits)

text \<open>
  \<open>getTerm\<close> does not subtract the snapshot index: on every well-formed log it answers for
  index \<open>i\<close> with the term of the entry \<open>snapshotIndex + i\<close>, and with 0 when there is none. It is
  the term of entry \<open>i\<close> only while the log was never compacted.
\<close>

theorem getTerm_shifted:
  assumes "log_wf l" and "0 < i"
  shows "getTerm l i =
    (case log_map l (unat (log_snapshotIndex l) + unat i) of Some e \<Rightarrow> e_term e | None \<Rightarrow> 0)"
  by (rule getTerm_log_map [OF assms])

theorem getTerm_shifted_witness:
  "getTerm (discardEntriesUpTo 2 1 sample_log) 3 = 0 \<and>
   log_map (discardEntriesUpTo 2 1 sample_log) 3 = Some \<lparr>e_index = 3, e_term = 2, command_data = []\<rparr>"
  using getTerm_shifted [OF sample_compacted(1), of 3] by (simp add: sample_compacted)

text \<open>
  \<open>truncate\<close> does not subtract the snapshot index either: on a compacted log the entry at the
  index it was asked to remove survives.
\<close>

theorem truncate_compacted_keeps:
  assumes "log_wf l" and "\<not> uncompacted l" and "log_truncate i l = Inr l'"
  shows "log_map l' (unat i) = log_map l (unat i)"
proof -
  from assms(2) have "0 < unat (log_snapshotIndex l)" by (simp add: uncompacted_def unat_gt_0)
  then show ?thesis using log_truncate_wf [OF assms(1,3)] by simp
qed

theorem truncate_compacted_keeps_witness:
  "log_map (discardEntriesUpTo 2 1 sample_log) 3 \<noteq> None \<and>
   (\<exists>l'. log_truncate 3 (discardEntriesUpTo 2 1 sample_log) = Inr l' \<and>
     log_map l' 3 = log_map (discardEntriesUpTo 2 1 sample_log) 3)"
proof -
  have "log_map (discardEntriesUpTo 2 1 sample_log) 3 \<noteq> None" by (simp add: sample_compacted)
  moreover obtain l' where l': "log_truncate 3 (discardEntriesUpTo 2 1 sample_log) = Inr l'"
    by (cases "log_truncate 3 (discardEntriesUpTo 2 1 sample_log)")
      (auto simp: log_truncate_def Let_def split: if_splits)
  moreover have "log_map l' 3 = log_map (discardEntriesUpTo 2 1 sample_log) 3"
    using truncate_compacted_keeps [OF sample_compacted(1) _ l'] by (simp add: uncompacted_def sample_compacted)
  ultimately show ?thesis by blast
qed

end
