(* ===== verification/Raft_Persistence.thy ===== *)
theory Raft_Persistence
  imports Raft_Log
begin

text \<open>
  Persistence of the Raft state (\<open>include/raft/RaftPersistence.hpp\<close>,
  \<open>src/raft/RaftPersistence.cpp\<close>): the state file with term, vote, snapshot metadata and log, the
  separate snapshot file, saving, loading and clearing. A file system maps paths to contents; which
  paths can be opened is part of the environment. The host is little-endian, so the image that
  \<open>reinterpret_cast\<close> writes of an integer is its little-endian image. Writes that fail halfway
  without an exception (a full disk) are not modelled; a crash between two writes is, through the
  list of file operations that \<open>saveState\<close> performs.
\<close>

section \<open>Files\<close>

record file_system =
  files :: "string \<rightharpoonup> bytes"
  writable :: "string \<Rightarrow> bool"
  readable :: "string \<Rightarrow> bool"

record raft_persistence =
  stateDir :: string
  fs :: file_system

text \<open>The constructor; the directories it creates only show in which paths are writable.\<close>

definition new_persistence :: "string \<Rightarrow> file_system \<Rightarrow> raft_persistence" where
  "new_persistence dir disk = \<lparr>stateDir = dir, fs = disk\<rparr>"

definition getStatePath :: "raft_persistence \<Rightarrow> string" where
  "getStatePath p = stateDir p @ ''/raft_state.dat''"

definition getSnapshotPath :: "raft_persistence \<Rightarrow> string" where
  "getSnapshotPath p = stateDir p @ ''/raft_snapshot.dat''"

definition open_trunc :: "string \<Rightarrow> string \<Rightarrow> file_system \<Rightarrow> exn + file_system" where
  "open_trunc path err f =
     (if writable f path then Inr (f\<lparr>files := (files f)(path \<mapsto> [])\<rparr>) else Inl (Runtime_error err))"

definition write_flush :: "string \<Rightarrow> bytes \<Rightarrow> file_system \<Rightarrow> exn + file_system" where
  "write_flush path content f = Inr (f\<lparr>files := (files f)(path \<mapsto> content)\<rparr>)"

fun run_file_ops :: "(file_system \<Rightarrow> exn + file_system) list \<Rightarrow> file_system \<Rightarrow> (exn + unit) \<times> file_system" where
  "run_file_ops [] f = (Inr (), f)"
| "run_file_ops (op # ops) f = (case op f of Inl e \<Rightarrow> (Inl e, f) | Inr f' \<Rightarrow> run_file_ops ops f')"

section \<open>The log as bytes\<close>

definition entry_bytes :: "log_entry \<Rightarrow> bytes" where
  "entry_bytes e = le_bytes 8 (e_index e) @ le_bytes 8 (e_term e) @
     le_bytes 8 (of_nat (length (command_data e)) :: u64) @ command_data e"

text \<open>
  The loop \<open>for (i = firstIndex; i <= lastIndex; i++)\<close>; \<open>getEntry\<close> throws only
  \<open>out_of_range\<close>, which ends the loop.
\<close>

function serialize_entries :: "raft_log \<Rightarrow> u64 \<Rightarrow> u64 \<Rightarrow> bytes" where
  "serialize_entries l i lastIndex =
     (if i \<le> lastIndex then
        (case getEntry l i of
           Inl e \<Rightarrow> []
         | Inr entry \<Rightarrow> entry_bytes entry @ serialize_entries l (i + 1) lastIndex)
      else [])"
  by pat_completeness auto

definition entries_left :: "raft_log \<Rightarrow> u64 \<Rightarrow> nat" where
  "entries_left l i =
     (if i \<le> log_snapshotIndex l then 0 else length (Entries l) - unat (i - log_snapshotIndex l))"

lemma entries_left_decreases:
  assumes "getEntry l i = Inr e"
  shows "entries_left l (i + 1) < entries_left l i"
proof -
  from assms have i: "log_snapshotIndex l < i" and d: "unat (i - log_snapshotIndex l) < length (Entries l)"
    by (auto simp: getEntry_def Let_def split: if_splits)
  show ?thesis
  proof (cases "i + 1 \<le> log_snapshotIndex l")
    case True
    with i d show ?thesis by (simp add: entries_left_def)
  next
    case False
    have eq: "i + 1 - log_snapshotIndex l = 1 + (i - log_snapshotIndex l)" by simp
    have "1 + (i - log_snapshotIndex l) \<noteq> 0"
    proof
      assume "1 + (i - log_snapshotIndex l) = 0"
      with eq have "i + 1 = log_snapshotIndex l" by simp
      with False show False by simp
    qed
    then have "unat (1 + (i - log_snapshotIndex l)) = Suc (unat (i - log_snapshotIndex l))"
      by (rule unatSuc)
    then have "unat (i + 1 - log_snapshotIndex l) = Suc (unat (i - log_snapshotIndex l))"
      unfolding eq .
    with False i d show ?thesis by (simp add: entries_left_def not_le)
  qed
qed

termination serialize_entries
  by (relation "measure (\<lambda>(l, i, lastIndex). entries_left l i)") (auto simp: entries_left_decreases)

declare serialize_entries.simps [simp del]

definition serializeLog :: "raft_log \<Rightarrow> bytes" where
  "serializeLog l =
     (let firstIndex = getSnapshotIndex l + 1;
          lastIndex = getLastIndex l;
          numEntries = (if lastIndex \<ge> firstIndex then lastIndex - firstIndex + 1 else 0)
      in le_bytes 8 numEntries @ serialize_entries l firstIndex lastIndex)"

text \<open>
  Reading: the guards compare \<open>offset + n\<close> with the size in 64-bit arithmetic. A declared command
  size near \<open>2 ^ 64\<close> makes that sum wrap and pass the guard; then \<open>resize\<close> throws
  \<open>length_error\<close>, because no vector is longer than \<open>2 ^ 63 - 1\<close> bytes.
\<close>

definition log_field :: "string \<Rightarrow> bytes \<Rightarrow> nat \<Rightarrow> exn + u64 \<times> nat" where
  "log_field err data offset =
     (if offset + 8 > length data then Inl (Runtime_error err)
      else Inr (le_value 8 (drop offset data), offset + 8))"

definition max_vector_size :: nat where
  "max_vector_size = 9223372036854775807"

definition log_command :: "bytes \<Rightarrow> u64 \<Rightarrow> nat \<Rightarrow> exn + bytes \<times> nat" where
  "log_command data cmdSize offset =
     (if (offset + unat cmdSize) mod 18446744073709551616 > length data
      then Inl (Runtime_error ''Corrupted log data: incomplete command data'')
      else if unat cmdSize > max_vector_size then Inl (Length_error ''vector::_M_default_append'')
      else if offset + unat cmdSize > length data
      then Inl (Undefined_behaviour ''memcpy past the end of the log data'')
      else Inr (take (unat cmdSize) (drop offset data), offset + unat cmdSize))"

definition read_log_entry :: "bytes \<Rightarrow> nat \<Rightarrow> exn + log_entry \<times> nat" where
  "read_log_entry data offset =
     bindE (log_field ''Corrupted log data: incomplete index'' data offset) (\<lambda>(index, offset).
     bindE (log_field ''Corrupted log data: incomplete term'' data offset) (\<lambda>(trm, offset).
     bindE (log_field ''Corrupted log data: incomplete command size'' data offset) (\<lambda>(cmdSize, offset).
     bindE (log_command data cmdSize offset) (\<lambda>(cmd, offset).
       Inr (\<lparr>e_index = index, e_term = trm, command_data = cmd\<rparr>, offset)))))"

text \<open>Each entry is appended to the caller's log as soon as it is read.\<close>

fun deserialize_entries :: "nat \<Rightarrow> bytes \<Rightarrow> nat \<Rightarrow> raft_log \<Rightarrow> (exn + unit) \<times> raft_log" where
  "deserialize_entries 0 data offset l = (Inr (), l)"
| "deserialize_entries (Suc k) data offset l =
     (case read_log_entry data offset of
        Inl e \<Rightarrow> (Inl e, l)
      | Inr (entry, offset) \<Rightarrow>
          (case log_append entry l of
             Inl e \<Rightarrow> (Inl e, l)
           | Inr l' \<Rightarrow> deserialize_entries k data offset l'))"

definition deserializeLog :: "bytes \<Rightarrow> raft_log \<Rightarrow> (exn + unit) \<times> raft_log" where
  "deserializeLog data l =
     (if data = [] then (Inr (), l)
      else case log_field ''Corrupted log data: missing entry count'' data 0 of
        Inl e \<Rightarrow> (Inl e, l)
      | Inr (numEntries, offset) \<Rightarrow> deserialize_entries (unat numEntries) data offset l)"

section \<open>Saving\<close>

definition state_image :: "u64 \<Rightarrow> u64 \<Rightarrow> raft_log \<Rightarrow> u64 \<Rightarrow> u64 \<Rightarrow> bytes" where
  "state_image trm voted l snapIndex snapTerm =
     (let logData = serializeLog l
      in le_bytes 8 trm @ le_bytes 8 voted @ le_bytes 8 snapIndex @ le_bytes 8 snapTerm @
         le_bytes 8 (of_nat (length logData) :: u64) @ logData)"

text \<open>The file operations of \<open>saveState\<close>, in order: the stream is buffered and flushed once.\<close>

definition save_ops ::
  "raft_persistence \<Rightarrow> u64 \<Rightarrow> u64 \<Rightarrow> raft_log \<Rightarrow> bytes \<Rightarrow> u64 \<Rightarrow> u64 \<Rightarrow> (file_system \<Rightarrow> exn + file_system) list"
where
  "save_ops p trm voted l snapshot snapIndex snapTerm =
     [open_trunc (getStatePath p) ''Failed to open state file for writing'',
      write_flush (getStatePath p) (state_image trm voted l snapIndex snapTerm)] @
     (if snapshot \<noteq> [] then
        [open_trunc (getSnapshotPath p) ''Failed to open snapshot file for writing'',
         write_flush (getSnapshotPath p) snapshot]
      else [])"

definition saveState ::
  "u64 \<Rightarrow> u64 \<Rightarrow> raft_log \<Rightarrow> bytes \<Rightarrow> u64 \<Rightarrow> u64 \<Rightarrow> raft_persistence \<Rightarrow> (exn + unit) \<times> raft_persistence"
where
  "saveState trm voted l snapshot snapIndex snapTerm p =
     (if stateDir p = [] then (Inr (), p)
      else (case run_file_ops (save_ops p trm voted l snapshot snapIndex snapTerm) (fs p) of
              (r, f) \<Rightarrow> (r, p\<lparr>fs := f\<rparr>)))"

text \<open>The file system when the process dies after \<open>k\<close> of the operations.\<close>

definition saveState_crash ::
  "nat \<Rightarrow> u64 \<Rightarrow> u64 \<Rightarrow> raft_log \<Rightarrow> bytes \<Rightarrow> u64 \<Rightarrow> u64 \<Rightarrow> raft_persistence \<Rightarrow> raft_persistence"
where
  "saveState_crash k trm voted l snapshot snapIndex snapTerm p =
     (if stateDir p = [] then p
      else p\<lparr>fs := snd (run_file_ops (take k (save_ops p trm voted l snapshot snapIndex snapTerm)) (fs p))\<rparr>)"

section \<open>Loading\<close>

record loaded_state =
  loaded_term :: u64
  loaded_votedFor :: u64
  loaded_snapshot :: bytes
  loaded_snapshotIndex :: u64
  loaded_snapshotTerm :: u64

definition persistence_exists :: "raft_persistence \<Rightarrow> bool" where
  "persistence_exists p \<longleftrightarrow> files (fs p) (getStatePath p) \<noteq> None"

definition persistence_clear :: "raft_persistence \<Rightarrow> raft_persistence" where
  "persistence_clear p =
     (if stateDir p = [] then p
      else p\<lparr>fs := (fs p)\<lparr>files := (files (fs p))(getStatePath p := None, getSnapshotPath p := None)\<rparr>\<rparr>)"

text \<open>The header of the state file; the last component is the log data.\<close>

definition read_state_file :: "bytes \<Rightarrow> exn + (u64 \<times> u64 \<times> u64 \<times> u64) \<times> bytes" where
  "read_state_file file =
     bindE (log_field ''Corrupted state file: incomplete currentTerm'' file 0) (\<lambda>(trm, pos).
     bindE (log_field ''Corrupted state file: incomplete votedFor'' file pos) (\<lambda>(voted, pos).
     bindE (log_field ''Corrupted state file: incomplete snapshotIndex'' file pos) (\<lambda>(snapIndex, pos).
     bindE (log_field ''Corrupted state file: incomplete snapshotTerm'' file pos) (\<lambda>(snapTerm, pos).
     bindE (log_field ''Corrupted state file: incomplete log size'' file pos) (\<lambda>(logSize, pos).
       if unat logSize > max_vector_size
       then Inl (Length_error ''cannot create std::vector larger than max_size()'')
       else if length file - pos < unat logSize
       then Inl (Runtime_error ''Corrupted state file: incomplete log data'')
       else Inr ((trm, voted, snapIndex, snapTerm), take (unat logSize) (drop pos file)))))))"

text \<open>
  \<open>loadState\<close> returns false (here \<open>None\<close>) when there is nothing to load. The snapshot reference
  it fills is the caller's, left as it was when there is no readable snapshot file.
\<close>

definition loadState ::
  "raft_persistence \<Rightarrow> bytes \<Rightarrow> raft_log \<Rightarrow> (exn + loaded_state option) \<times> raft_log"
where
  "loadState p snapshot l =
     (if stateDir p = [] \<or> \<not> persistence_exists p \<or> \<not> readable (fs p) (getStatePath p)
      then (Inr None, l)
      else case read_state_file (the (files (fs p) (getStatePath p))) of
        Inl e \<Rightarrow> (Inl e, l)
      | Inr ((trm, voted, snapIndex, snapTerm), logData) \<Rightarrow>
          andThen (deserializeLog logData l) (\<lambda>_ l.
            (Inr (Some \<lparr>loaded_term = trm, loaded_votedFor = voted,
               loaded_snapshot =
                 (case files (fs p) (getSnapshotPath p) of
                    Some content \<Rightarrow> if readable (fs p) (getSnapshotPath p) then content else snapshot
                  | None \<Rightarrow> snapshot),
               loaded_snapshotIndex = snapIndex, loaded_snapshotTerm = snapTerm\<rparr>), l)))"

lemmas [run_simps] =
  new_persistence_def getStatePath_def getSnapshotPath_def open_trunc_def write_flush_def entry_bytes_def
  serialize_entries.simps serializeLog_def log_field_def max_vector_size_def log_command_def
  read_log_entry_def deserializeLog_def state_image_def save_ops_def saveState_def
  saveState_crash_def persistence_exists_def persistence_clear_def read_state_file_def loadState_def

section \<open>The log format\<close>

definition entry_fits :: "log_entry \<Rightarrow> bool" where
  "entry_fits e \<longleftrightarrow> length (command_data e) \<le> max_vector_size"

interpretation field_codec: byte_codec "le_bytes 8 :: u64 \<Rightarrow> bytes" "log_field err" "\<lambda>_. True"
  unfolding log_field_def [abs_def] by (rule byte_codec_le) simp

lemma log_field_at: "log_field err (pre @ le_bytes 8 a @ post) (length pre) = Inr (a, length pre + 8)"
  using field_codec.dec_enc by simp

interpretation entry_codec: byte_codec entry_bytes read_log_entry entry_fits
proof (unfold_locales, goal_cases)
  case (1 e pre post)
  let ?n = "of_nat (length (command_data e)) :: u64"
  let ?i = "le_bytes 8 (e_index e)" and ?t = "le_bytes 8 (e_term e)" and ?s = "le_bytes 8 ?n"
  from 1 have n: "unat ?n = length (command_data e)"
    by (simp add: entry_fits_def max_vector_size_def unat_of_nat)
  have "log_field err (pre @ ?i @ ?t @ ?s @ command_data e @ post) (length pre) = Inr (e_index e, length pre + 8)"
    "log_field err ((pre @ ?i) @ ?t @ ?s @ command_data e @ post) (length (pre @ ?i)) = Inr (e_term e, length (pre @ ?i) + 8)"
    "log_field err ((pre @ ?i @ ?t) @ ?s @ command_data e @ post) (length (pre @ ?i @ ?t)) = Inr (?n, length (pre @ ?i @ ?t) + 8)"
    for err
    by (rule log_field_at)+
  moreover have "log_command ((pre @ ?i @ ?t @ ?s) @ command_data e @ post) ?n (length (pre @ ?i @ ?t @ ?s)) =
    Inr (command_data e, length (pre @ ?i @ ?t @ ?s) + length (command_data e))"
    using 1 le_trans [OF mod_less_eq_dividend]
    by (simp add: log_command_def n entry_fits_def not_less)
  ultimately show ?case
    by (simp add: read_log_entry_def entry_bytes_def add.assoc)
next
  case (2 bs off e off')
  then obtain i o1 t o2 n o3 c where
    i: "log_field ''Corrupted log data: incomplete index'' bs off = Inr (i, o1)" and
    t: "log_field ''Corrupted log data: incomplete term'' bs o1 = Inr (t, o2)" and
    s: "log_field ''Corrupted log data: incomplete command size'' bs o2 = Inr (n, o3)" and
    c: "log_command bs n o3 = Inr (c, off')" and e: "e = \<lparr>e_index = i, e_term = t, command_data = c\<rparr>"
    by (auto simp: read_log_entry_def bindE_Inr_iff)
  note i = field_codec.dec_sound [OF i] and t = field_codec.dec_sound [OF t] and s = field_codec.dec_sound [OF s]
  then have o: "o1 = off + 8" "o2 = off + 16" "o3 = off + 24" by simp_all
  from c have len: "length c = unat n" and cmd: "c = take (unat n) (drop o3 bs)"
    and off': "off' = o3 + unat n" "off' \<le> length bs" and fits: "unat n \<le> max_vector_size"
    by (auto simp: log_command_def split: if_splits)
  have "take (24 + unat n) (drop off bs) =
    take 8 (drop off bs) @ take 8 (drop o1 bs) @ take 8 (drop o2 bs) @ take (unat n) (drop o3 bs)"
    using take_add [of 8 "16 + unat n" "drop off bs"] take_add [of 8 "8 + unat n" "drop o1 bs"]
      take_add [of 8 "unat n" "drop o2 bs"] by (simp add: o add.commute)
  then show ?case
    using i t s off' fits cmd by (simp add: entry_fits_def entry_bytes_def e len o)
qed

lemma serialize_entries_drop:
  assumes "log_wf l" and "0 < k" and "k \<le> length (Entries l)"
  shows "serialize_entries l (log_snapshotIndex l + of_nat k) (getLastIndex l) = concat (map entry_bytes (drop k (Entries l)))"
  using assms(2,3)
proof (induction "length (Entries l) - k" arbitrary: k)
  case 0
  then have k: "k = length (Entries l)" by simp
  let ?i = "log_snapshotIndex l + of_nat k"
  have "?i \<le> getLastIndex l \<Longrightarrow> \<exists>x. getEntry l ?i = Inl x"
  proof (cases "unat (log_snapshotIndex l) + k < 18446744073709551616")
    case True
    then have "unat ?i = unat (log_snapshotIndex l) + k" by (simp add: word_conv)
    with k 0 show "?i \<le> getLastIndex l \<Longrightarrow> \<exists>x. getEntry l ?i = Inl x"
      using getLastIndex_nat [OF assms(1)] log_wf_nonempty [OF assms(1)]
      by (cases "Entries l") (simp_all add: word_le_nat_alt last_nat_def)
  next
    case False
    with assms(1) k have "unat (log_snapshotIndex l) + k = 18446744073709551616"
      by (simp add: log_wf_def)
    then have "?i = 0" by (simp add: word_unat_eq_iff unat_word_ariths unat_of_nat mod_add_right_eq)
    then show ?thesis by (simp add: getEntry_def)
  qed
  then show ?case
    by (subst serialize_entries.simps) (auto simp: k split: sum.split)
next
  case (Suc d)
  let ?i = "log_snapshotIndex l + of_nat k"
  from Suc have k: "k < length (Entries l)" by simp
  with assms(1) have i: "unat ?i = unat (log_snapshotIndex l) + k"
    by (simp add: log_wf_def word_conv)
  with Suc.prems k have "?i \<le> getLastIndex l" and "getEntry l ?i = Inr (Entries l ! k)"
    using getLastIndex_nat [OF assms(1)]
    by (simp_all add: word_le_nat_alt last_nat_def getEntry_log_map [OF assms(1)] log_map_def)
  moreover have "serialize_entries l (log_snapshotIndex l + of_nat (Suc k)) (getLastIndex l) =
      concat (map entry_bytes (drop (Suc k) (Entries l)))"
    using Suc k by (intro Suc.hyps(1)) simp_all
  ultimately show ?case
    using k by (subst serialize_entries.simps) (simp add: Cons_nth_drop_Suc [symmetric] ac_simps)
qed

lemma serializeLog_image:
  assumes "log_wf l"
  shows "serializeLog l =
    le_bytes 8 (of_nat (length (tl (Entries l))) :: u64) @ concat (map entry_bytes (tl (Entries l)))"
proof -
  obtain e es where l: "Entries l = e # es" using log_wf_nonempty [OF assms] by (cases "Entries l") auto
  have bound: "unat (log_snapshotIndex l) + length es < 18446744073709551616"
    using assms by (simp add: log_wf_def l)
  then have last: "getLastIndex l = log_snapshotIndex l + of_nat (length es)"
    using getLastIndex_nat [OF assms] by (simp add: word_unat_eq_iff word_conv last_nat_def l)
  have "(if log_snapshotIndex l + 1 \<le> getLastIndex l then getLastIndex l - (log_snapshotIndex l + 1) + 1 else 0) =
    (of_nat (length es) :: u64)"
  proof (cases "es = []")
    case True
    then show ?thesis using last
      by (cases "log_snapshotIndex l + 1 = 0") (auto simp: word_le_nat_alt unatSuc add.commute)
  next
    case False
    then have "0 < length es" by simp
    with bound have "unat (log_snapshotIndex l) < 18446744073709551615" by linarith
    from unat_u64_plus1 [OF this] unat_u64_plus_of_nat [OF bound]
    have "log_snapshotIndex l + 1 \<le> getLastIndex l"
      using \<open>0 < length es\<close> unfolding last word_le_nat_alt by linarith
    then show ?thesis by (simp add: last)
  qed
  then show ?thesis
    using serialize_entries_drop [OF assms, of 1]
    by (simp add: serializeLog_def getSnapshotIndex_def Let_def l drop_Suc)
qed

section \<open>Reading a log back\<close>

lemma deserialize_entries_image:
  assumes "\<forall>e \<in> set es. entry_fits e"
  shows "deserialize_entries (length es) (pre @ concat (map entry_bytes es) @ post) (length pre) l =
    append_all log_append es l"
  using assms
proof (induction es arbitrary: pre l)
  case Nil
  then show ?case by simp
next
  case (Cons e es)
  then have "read_log_entry (pre @ entry_bytes e @ concat (map entry_bytes es) @ post) (length pre) =
      Inr (e, length (pre @ entry_bytes e))"
    using entry_codec.dec_enc [of e pre] by simp
  moreover have "deserialize_entries (length es) ((pre @ entry_bytes e) @ concat (map entry_bytes es) @ post)
      (length (pre @ entry_bytes e)) l' = append_all log_append es l'" for l'
    using Cons by (intro Cons.IH) simp
  ultimately show ?case by (simp split: sum.split)
qed

lemma deserializeLog_serializeLog:
  assumes "log_wf l" and "\<forall>e \<in> set (tl (Entries l)). entry_fits e"
  shows "deserializeLog (serializeLog l) l0 = append_all log_append (tl (Entries l)) l0"
proof -
  let ?es = "tl (Entries l)" and ?n = "of_nat (length (tl (Entries l))) :: u64"
  have img: "serializeLog l = le_bytes 8 ?n @ concat (map entry_bytes ?es)"
    by (rule serializeLog_image [OF assms(1)])
  then have "serializeLog l \<noteq> []" by simp
  moreover have "unat ?n = length ?es"
    using assms(1) log_wf_nonempty [OF assms(1)] by (cases "Entries l") (simp_all add: log_wf_def unat_of_nat)
  ultimately show ?thesis
    using log_field_at [of _ "[]" ?n] deserialize_entries_image [OF assms(2), of "le_bytes 8 ?n" "[]" l0]
    by (simp add: deserializeLog_def img)
qed

lemma log_wf_tl_consecutive:
  assumes "log_wf l"
  shows "consecutive (Suc (unat (log_snapshotIndex l))) (tl (Entries l))"
  using assms by (cases "Entries l") (simp_all add: log_wf_consecutive)

lemma new_log_simps [simp]:
  "last_nat new_log = 0" "tl (Entries new_log) = []" "log_snapshotIndex new_log = 0"
  by (simp_all add: last_nat_def new_log_def)

lemma log_map_tl:
  assumes "Entries l \<noteq> []"
  shows "log_map l k = (if unat (log_snapshotIndex l) < k \<and> k \<le> unat (log_snapshotIndex l) + length (tl (Entries l))
     then Some (tl (Entries l) ! (k - unat (log_snapshotIndex l) - 1)) else None)"
  using assms by (cases "Entries l") (auto simp: log_map_def last_nat_def nth_Cons')

lemma log_map_eqI:
  assumes "tl (Entries l) = tl (Entries l')" and "log_snapshotIndex l = log_snapshotIndex l'"
    and "Entries l \<noteq> []" and "Entries l' \<noteq> []"
  shows "log_map l = log_map l'"
  using assms by (simp add: fun_eq_iff log_map_tl)

lemma append_all_snapshotIndex:
  "log_snapshotIndex (snd (append_all log_append es l)) = log_snapshotIndex l"
  by (induction es arbitrary: l) (auto simp: log_append_def Let_def split: sum.split)

lemma restore_uncompacted:
  assumes "log_wf l" and "uncompacted l"
  shows "\<exists>l'. append_all log_append (tl (Entries l)) new_log = (Inr (), l') \<and> log_wf l' \<and> uncompacted l' \<and>
    log_map l' = log_map l \<and> last_nat l' = last_nat l"
proof -
  have c: "consecutive (Suc (last_nat new_log)) (tl (Entries l))"
    using log_wf_tl_consecutive [OF assms(1)] assms(2) by (simp add: uncompacted_def)
  have len: "Suc (last_nat new_log) + length (tl (Entries l)) \<le> 18446744073709551616"
    using assms log_wf_nonempty [OF assms(1)] by (cases "Entries l") (simp_all add: log_wf_def)
  from log_end.append_all_consecutive [OF log_wf_new c len]
  obtain l' where l': "append_all log_append (tl (Entries l)) new_log = (Inr (), l')" "log_wf l'"
    "tl (Entries l') = tl (Entries l)" "last_nat l' = length (tl (Entries l))"
    by auto
  moreover have "log_snapshotIndex l' = 0"
    using append_all_snapshotIndex [of "tl (Entries l)" new_log] l'(1) by simp
  moreover from calculation have "log_map l' = log_map l"
    using assms by (intro log_map_eqI) (simp_all add: uncompacted_def log_wf_nonempty)
  ultimately show ?thesis
    using assms by (simp add: uncompacted_def last_nat_def)
qed

lemma restore_compacted_fails:
  assumes "log_wf l" and "\<not> uncompacted l" and "tl (Entries l) \<noteq> []"
  shows "\<exists>msg. append_all log_append (tl (Entries l)) new_log = (Inl (Logic_error msg), new_log)"
proof -
  obtain e es where es: "tl (Entries l) = e # es" using assms(3) by (cases "tl (Entries l)") auto
  with log_wf_tl_consecutive [OF assms(1)] have "unat (e_index e) = Suc (unat (log_snapshotIndex l))"
    by simp
  moreover have "0 < unat (log_snapshotIndex l)"
    using assms(2) by (simp add: uncompacted_def unat_gt_0)
  ultimately have "\<exists>msg. append_all log_append (e # es) new_log = (Inl (Logic_error msg), new_log)"
    by (intro log_end.append_all_gap) simp_all
  then show ?thesis by (simp add: es)
qed

lemma read_state_file_image:
  assumes "length (serializeLog l) \<le> max_vector_size"
  shows "read_state_file (state_image trm voted l si st) = Inr ((trm, voted, si, st), serializeLog l)"
proof -
  let ?n = "of_nat (length (serializeLog l)) :: u64"
  have "unat ?n = length (serializeLog l)"
    using assms by (simp add: max_vector_size_def unat_of_nat)
  moreover have
    "log_field err (le_bytes 8 trm @ le_bytes 8 voted @ le_bytes 8 si @ le_bytes 8 st @ le_bytes 8 ?n @ serializeLog l) 0
      = Inr (trm, 8)"
    "log_field err (le_bytes 8 trm @ le_bytes 8 voted @ le_bytes 8 si @ le_bytes 8 st @ le_bytes 8 ?n @ serializeLog l) 8
      = Inr (voted, 16)"
    "log_field err (le_bytes 8 trm @ le_bytes 8 voted @ le_bytes 8 si @ le_bytes 8 st @ le_bytes 8 ?n @ serializeLog l) 16
      = Inr (si, 24)"
    "log_field err (le_bytes 8 trm @ le_bytes 8 voted @ le_bytes 8 si @ le_bytes 8 st @ le_bytes 8 ?n @ serializeLog l) 24
      = Inr (st, 32)"
    "log_field err (le_bytes 8 trm @ le_bytes 8 voted @ le_bytes 8 si @ le_bytes 8 st @ le_bytes 8 ?n @ serializeLog l) 32
      = Inr (?n, 40)" for err
    by (simp_all add: log_field_def)
  ultimately show ?thesis
    using assms by (simp add: read_state_file_def state_image_def Let_def)
qed

section \<open>Laws of persistence\<close>

text \<open>What the laws below assume of the environment: the two paths can be opened.\<close>

definition can_open :: "raft_persistence \<Rightarrow> bool" where
  "can_open p \<longleftrightarrow> (\<forall>path \<in> {getStatePath p, getSnapshotPath p}. writable (fs p) path \<and> readable (fs p) path)"

definition log_fits :: "raft_log \<Rightarrow> bool" where
  "log_fits l \<longleftrightarrow> length (serializeLog l) \<le> max_vector_size \<and> (\<forall>e \<in> set (tl (Entries l)). entry_fits e)"

lemma path_neq [simp]:
  "getStatePath p \<noteq> getSnapshotPath p" "getSnapshotPath p \<noteq> getStatePath p"
  by (simp_all add: getStatePath_def getSnapshotPath_def)

lemma path_fs_update [simp]:
  "getStatePath (p\<lparr>fs := f\<rparr>) = getStatePath p" "getSnapshotPath (p\<lparr>fs := f\<rparr>) = getSnapshotPath p"
  by (simp_all add: getStatePath_def getSnapshotPath_def)

lemma saveState_files:
  assumes "can_open p" and "stateDir p \<noteq> []"
  shows "saveState trm voted l snapshot si st p =
    (Inr (), p\<lparr>fs := (fs p)\<lparr>files := (files (fs p))(getStatePath p \<mapsto> state_image trm voted l si st,
       getSnapshotPath p := (if snapshot = [] then files (fs p) (getSnapshotPath p) else Some snapshot))\<rparr>\<rparr>)"
  using assms
  by (auto simp: saveState_def save_ops_def can_open_def open_trunc_def write_flush_def fun_eq_iff
      intro!: raft_persistence.equality file_system.equality)

lemma loadState_saved:
  assumes "can_open p" and "stateDir p \<noteq> []" and "log_wf l" and "log_fits l"
    and "files (fs p) (getStatePath p) = Some (state_image trm voted l si st)"
  shows "loadState p snapshot0 l0 =
    andThen (append_all log_append (tl (Entries l)) l0) (\<lambda>_ l'.
      (Inr (Some \<lparr>loaded_term = trm, loaded_votedFor = voted,
        loaded_snapshot = (case files (fs p) (getSnapshotPath p) of Some c \<Rightarrow> c | None \<Rightarrow> snapshot0),
        loaded_snapshotIndex = si, loaded_snapshotTerm = st\<rparr>), l'))"
  using assms
  by (simp add: loadState_def persistence_exists_def can_open_def log_fits_def read_state_file_image
      deserializeLog_serializeLog option.case_eq_if)

text \<open>
  C27. What \<open>saveState\<close> writes for a node that never compacted its log, \<open>loadState\<close> of a fresh
  process reads back: the term, the vote, the snapshot metadata, every log entry, and the snapshot
  if there is one.
\<close>

theorem loadState_saveState:
  assumes "can_open p" and "stateDir p \<noteq> []" and "log_wf l" and "uncompacted l" and "log_fits l"
    and "files (fs p) (getSnapshotPath p) = None"
  shows "\<exists>p' l'. saveState trm voted l snapshot si st p = (Inr (), p') \<and>
    loadState p' [] new_log =
      (Inr (Some \<lparr>loaded_term = trm, loaded_votedFor = voted, loaded_snapshot = snapshot,
         loaded_snapshotIndex = si, loaded_snapshotTerm = st\<rparr>), l') \<and>
    log_wf l' \<and> log_map l' = log_map l \<and> last_nat l' = last_nat l"
proof -
  obtain p' where p': "saveState trm voted l snapshot si st p = (Inr (), p')"
    "can_open p'" "stateDir p' \<noteq> []" "files (fs p') (getStatePath p') = Some (state_image trm voted l si st)"
    "files (fs p') (getSnapshotPath p') = (if snapshot = [] then None else Some snapshot)"
    using assms by (auto simp: saveState_files can_open_def)
  obtain l' where l': "append_all log_append (tl (Entries l)) new_log = (Inr (), l')" "log_wf l'"
    "log_map l' = log_map l" "last_nat l' = last_nat l"
    using restore_uncompacted [OF assms(3,4)] by blast
  have "loadState p' [] new_log =
      (Inr (Some \<lparr>loaded_term = trm, loaded_votedFor = voted, loaded_snapshot = snapshot,
         loaded_snapshotIndex = si, loaded_snapshotTerm = st\<rparr>), l')"
    using loadState_saved [OF p'(2,3) assms(3,5) p'(4), of "[]" new_log] p'(5) l'(1) by simp
  with p'(1) l'(2-) show ?thesis by blast
qed

definition sample_disk :: raft_persistence where
  "sample_disk = \<lparr>stateDir = ''data'', fs = \<lparr>files = (\<lambda>_. None), writable = (\<lambda>_. True), readable = (\<lambda>_. True)\<rparr>\<rparr>"

lemma sample_disk_simps [simp]:
  "can_open sample_disk" "stateDir sample_disk \<noteq> []" "files (fs sample_disk) path = None"
  by (simp_all add: sample_disk_def can_open_def)

lemma sample_log_fits [simp]: "log_fits sample_log"
  by (simp add: log_fits_def serializeLog_image [OF sample_log_wf] max_vector_size_def entry_fits_def
      entry_bytes_def sample_log_entries)

lemma sample_log_uncompacted [simp]: "uncompacted sample_log"
  by (simp add: uncompacted_def)

theorem loadState_saveState_witness:
  "\<exists>p' l'. saveState 7 2 sample_log [1, 2] 0 0 sample_disk = (Inr (), p') \<and>
    loadState p' [] new_log =
      (Inr (Some \<lparr>loaded_term = 7, loaded_votedFor = 2, loaded_snapshot = [1, 2],
         loaded_snapshotIndex = 0, loaded_snapshotTerm = 0\<rparr>), l') \<and>
    log_wf l' \<and> log_map l' = log_map sample_log \<and> last_nat l' = last_nat sample_log"
  by (rule loadState_saveState) simp_all

text \<open>
  A node that compacted its log and then appended to it cannot be restarted: \<open>loadState\<close>
  never restores the snapshot index of the log, so the first saved entry does not follow the
  sentinel of the fresh log and \<open>append\<close> throws.
\<close>

theorem loadState_compacted_throws:
  assumes "can_open p" and "stateDir p \<noteq> []" and "log_wf l" and "log_fits l"
    and "\<not> uncompacted l" and "tl (Entries l) \<noteq> []"
    and "saveState trm voted l snapshot si st p = (Inr (), p')"
  shows "\<exists>msg. loadState p' [] new_log = (Inl (Logic_error msg), new_log)"
proof -
  have p': "can_open p'" "stateDir p' \<noteq> []" "files (fs p') (getStatePath p') = Some (state_image trm voted l si st)"
    using assms(1,2,7) by (auto simp: saveState_files can_open_def)
  obtain msg where "append_all log_append (tl (Entries l)) new_log = (Inl (Logic_error msg), new_log)"
    using restore_compacted_fails [OF assms(3,5,6)] by blast
  then show ?thesis using loadState_saved [OF p'(1,2) assms(3,4) p'(3), of "[]" new_log] by simp
qed

lemma sample_compacted_entries:
  "Entries (discardEntriesUpTo 2 1 sample_log) =
    [\<lparr>e_index = 2, e_term = 1, command_data = []\<rparr>, \<lparr>e_index = 3, e_term = 2, command_data = []\<rparr>]"
  by (simp add: discardEntriesUpTo_def sample_log_def)

theorem loadState_compacted_throws_witness:
  "\<exists>msg. loadState (snd (saveState 7 2 (discardEntriesUpTo 2 1 sample_log) [1, 2] 2 1 sample_disk)) [] new_log =
     (Inl (Logic_error msg), new_log)"
proof (rule loadState_compacted_throws [where p = sample_disk and trm = 7 and voted = 2 and snapshot = "[1, 2]" and si = 2 and st = 1])
  show "log_fits (discardEntriesUpTo 2 1 sample_log)"
    by (simp add: log_fits_def serializeLog_image [OF sample_compacted(1)] sample_compacted_entries
        max_vector_size_def entry_fits_def entry_bytes_def)
  show "\<not> uncompacted (discardEntriesUpTo 2 1 sample_log)"
    by (simp add: uncompacted_def sample_compacted)
qed (simp_all add: sample_compacted sample_compacted_entries saveState_files)

lemma loadState_twice:
  assumes "can_open p" and "stateDir p \<noteq> []" and "log_wf l" and "uncompacted l" and "log_fits l"
    and "tl (Entries l) \<noteq> []" and "last_nat l < 18446744073709551615"
    and "files (fs p) (getStatePath p) = Some (state_image trm voted l si st)"
    and "loadState p snapshot0 new_log = (Inr r, l1)"
  shows "\<exists>msg. loadState p snapshot0 l1 = (Inl (Logic_error msg), l1)"
proof -
  obtain l' where l': "append_all log_append (tl (Entries l)) new_log = (Inr (), l')" "log_wf l'"
    "last_nat l' = last_nat l"
    using restore_uncompacted [OF assms(3,4)] by blast
  with loadState_saved [OF assms(1,2,3,5,8), of snapshot0 new_log] assms(9) have "l1 = l'" by simp
  obtain e es where es: "tl (Entries l) = e # es" using assms(6) by (cases "tl (Entries l)") auto
  then have "unat (e_index e) = 1" and "0 < last_nat l"
    using log_wf_tl_consecutive [OF assms(3)] assms(4) log_wf_nonempty [OF assms(3)]
    by (cases "Entries l"; simp add: uncompacted_def last_nat_def)+
  then have "\<exists>msg. append_all log_append (e # es) l' = (Inl (Logic_error msg), l')"
    using l'(2,3) assms(7) by (intro log_end.append_all_gap) simp_all
  then show ?thesis
    using loadState_saved [OF assms(1,2,3,5,8), of snapshot0 l1] by (auto simp: es \<open>l1 = l'\<close>)
qed

text \<open>
  Restoring is not idempotent: loading the same saved log a second time into the log it
  filled throws as soon as one entry was saved.
\<close>

theorem loadState_twice_throws:
  assumes "can_open p" and "stateDir p \<noteq> []" and "log_wf l" and "uncompacted l" and "log_fits l"
    and "tl (Entries l) \<noteq> []" and "last_nat l < 18446744073709551615"
    and "files (fs p) (getStatePath p) = Some (state_image trm voted l si st)"
    and "loadState p snapshot0 new_log = (Inr r, l1)"
  shows "\<exists>msg. loadState p snapshot0 l1 = (Inl (Logic_error msg), l1)"
  by (rule loadState_twice [OF assms])

theorem loadState_twice_throws_witness:
  "\<exists>p l1 r msg. loadState p [] new_log = (Inr r, l1) \<and> loadState p [] l1 = (Inl (Logic_error msg), l1)"
proof -
  let ?p = "snd (saveState 7 2 sample_log [] 0 0 sample_disk)"
  have p: "can_open ?p" "stateDir ?p \<noteq> []" "files (fs ?p) (getStatePath ?p) = Some (state_image 7 2 sample_log 0 0)"
    by (simp_all add: saveState_files) (simp_all add: can_open_def sample_disk_def)
  obtain l1 where "append_all log_append (tl (Entries sample_log)) new_log = (Inr (), l1)"
    using restore_uncompacted [OF sample_log_wf] by auto
  with loadState_saved [OF p(1,2) sample_log_wf sample_log_fits p(3), of "[]" new_log]
  obtain r where l: "loadState ?p [] new_log = (Inr r, l1)" by simp
  have "tl (Entries sample_log) \<noteq> []" by (simp add: sample_log_def)
  then have "\<exists>msg. loadState ?p [] l1 = (Inl (Logic_error msg), l1)"
    by (intro loadState_twice_throws [OF p(1,2) sample_log_wf sample_log_uncompacted sample_log_fits _ _ p(3) l]) simp_all
  with l show ?thesis by blast
qed

text \<open>
  C39. Saving is not atomic: if the process dies right after \<open>saveState\<close> opened the state file,
  the previous state is gone and the next \<open>loadState\<close> throws.
\<close>

theorem saveState_crash_loses_state:
  assumes "can_open p" and "stateDir p \<noteq> []"
  shows "loadState (saveState_crash 1 trm voted l snapshot si st p) [] new_log =
    (Inl (Runtime_error ''Corrupted state file: incomplete currentTerm''), new_log)"
  using assms
  by (simp add: saveState_crash_def save_ops_def open_trunc_def can_open_def loadState_def
      persistence_exists_def read_state_file_def log_field_def)

theorem saveState_crash_loses_state_witness:
  "loadState (saveState_crash 1 8 0 sample_log [] 0 0 (snd (saveState 7 2 sample_log [] 0 0 sample_disk))) [] new_log =
    (Inl (Runtime_error ''Corrupted state file: incomplete currentTerm''), new_log)"
  by (rule saveState_crash_loses_state) (simp_all add: saveState_files can_open_def sample_disk_def)

end
