(* ===== verification/Raft_Messages.thy ===== *)
theory Raft_Messages
  imports KV_Command Raft_Log
begin

text \<open>
  The messages the nodes and the clients exchange (\<open>include/raft/RaftNode.hpp\<close>) and the abstract
  transport a node calls (\<open>include/raft/RaftRPC.hpp\<close>). \<open>AppendEntriesReply\<close> carries the two
  conflict fields that every source file assigns and reads; the header has them commented out.
\<close>

datatype role = FOLLOWER | CANDIDATE | LEADER

record request_vote_args =
  rv_term :: u64
  rv_candidateId :: u64
  rv_lastLogIndex :: u64
  rv_lastLogTerm :: u64

record request_vote_reply =
  rvr_term :: u64
  voteGranted :: bool

record append_entries_args =
  ae_term :: u64
  ae_leaderId :: u64
  ae_prevLogIndex :: u64
  ae_prevLogTerm :: u64
  ae_entries :: "log_entry list"
  ae_leaderCommit :: u64

record append_entries_reply =
  aer_term :: u64
  aer_success :: bool
  conflictIndex :: u64
  conflictTerm :: u64

record client_request =
  req_command :: command
  req_clientId :: u64
  req_sequenceNum :: u64

record client_reply =
  cr_success :: bool
  cr_value :: string
  cr_isLeader :: bool
  cr_leaderId :: u64
  cr_error :: string

record install_snapshot_args =
  is_term :: u64
  is_leaderId :: u64
  is_lastIncludedIndex :: u64
  is_lastIncludedTerm :: u64
  is_data :: bytes

record install_snapshot_reply =
  isr_term :: u64

text \<open>
  The abstract class \<open>RaftRPC\<close>: three calls that take a peer, the arguments and a timeout in
  milliseconds, act on the world outside the calling node, and return a reply or throw.
\<close>

record 'w raft_rpc =
  sendRequestVote :: "u64 \<Rightarrow> request_vote_args \<Rightarrow> int \<Rightarrow> 'w \<Rightarrow> (exn + request_vote_reply) \<times> 'w"
  sendAppendEntries :: "u64 \<Rightarrow> append_entries_args \<Rightarrow> int \<Rightarrow> 'w \<Rightarrow> (exn + append_entries_reply) \<times> 'w"
  sendInstallSnapshot :: "u64 \<Rightarrow> install_snapshot_args \<Rightarrow> int \<Rightarrow> 'w \<Rightarrow> (exn + install_snapshot_reply) \<times> 'w"

end
