(* ===== verification/Raft_Node.thy ===== *)
theory Raft_Node
  imports KV_Store Raft_Persistence Raft_Messages "HOL-Library.Stream"
begin

text \<open>
  One Raft node: its state, its construction, the helpers and the handlers of incoming requests
  (\<open>include/raft/RaftNode.hpp\<close>, \<open>src/raft/RaftNode.cpp\<close>). Every public method holds
  \<open>stateMutex\<close> for its whole body, so a handler is one atomic operation on the state. Times are
  nanoseconds of the steady clock (\<open>now\<close>), and the random generator is the stream of its raw
  outputs. Console output is left out.
\<close>

section \<open>State\<close>

record raft_node =
  randomGenerator :: "nat stream"
  kvStore :: kvstore
  persistence :: "raft_persistence option"
  peerIdToIndexMap :: "u64 \<rightharpoonup> nat"
  snapshotData :: bytes
  snapshotIndex :: u64
  snapshotTerm :: u64
  snapshotThreshold :: u64
  lastAppliedSeq :: "u64 \<rightharpoonup> u64"
  lastHeartbeat :: int
  electionTimeout :: int
  heartbeatInterval :: int
  running :: bool
  currentTerm :: u64
  votedFor :: u64
  log :: raft_log
  commitIndex :: u64
  lastApplied :: u64
  role :: role
  nextIndex :: "u64 list"
  matchIndex :: "u64 list"
  nodeId :: u64
  peerIds :: "u64 list"
  currentLeaderId :: u64

section \<open>State queries\<close>

definition getCurrentTerm :: "raft_node \<Rightarrow> u64" where "getCurrentTerm n = currentTerm n"

definition getCurrentRole :: "raft_node \<Rightarrow> role" where "getCurrentRole n = role n"

definition getCommitIndex :: "raft_node \<Rightarrow> u64" where "getCommitIndex n = commitIndex n"

definition getLastApplied :: "raft_node \<Rightarrow> u64" where "getLastApplied n = lastApplied n"

section \<open>Helpers\<close>

definition persistState :: "raft_node \<Rightarrow> (exn + unit) \<times> raft_node" where
  "persistState n =
     (case persistence n of
        None \<Rightarrow> (Inr (), n)
      | Some p \<Rightarrow>
          (case saveState (currentTerm n) (votedFor n) (log n) (snapshotData n)
                  (getSnapshotIndex (log n)) (getSnapshotTerm (log n)) p of
             (r, p') \<Rightarrow> (r, n\<lparr>persistence := Some p'\<rparr>)))"

text \<open>\<open>uniform_int_distribution(a, b)\<close> applied to the next raw output.\<close>

definition uniform_int :: "int \<Rightarrow> int \<Rightarrow> nat \<Rightarrow> int" where
  "uniform_int a b raw = a + int raw mod (b - a + 1)"

definition resetElectionTimer :: "int \<Rightarrow> raft_node \<Rightarrow> raft_node" where
  "resetElectionTimer now n =
     n\<lparr>electionTimeout := uniform_int 150 300 (shd (randomGenerator n)),
       randomGenerator := stl (randomGenerator n),
       lastHeartbeat := now\<rparr>"

definition becomeFollower :: "u64 \<Rightarrow> raft_node \<Rightarrow> (exn + unit) \<times> raft_node" where
  "becomeFollower newTerm n =
     persistState (n\<lparr>currentTerm := newTerm, role := FOLLOWER, votedFor := 0, currentLeaderId := 0\<rparr>)"

definition becomeCandidate :: "raft_node \<Rightarrow> (exn + unit) \<times> raft_node" where
  "becomeCandidate n =
     persistState (n\<lparr>role := CANDIDATE, currentTerm := currentTerm n + 1, votedFor := nodeId n,
       currentLeaderId := 0\<rparr>)"

definition becomeLeader :: "raft_node \<Rightarrow> raft_node" where
  "becomeLeader n =
     (let lastLogIndex = getLastIndex (log n); k = length (peerIds n)
      in n\<lparr>role := LEADER, currentLeaderId := nodeId n,
           nextIndex := replicate k (lastLogIndex + 1) @ drop k (nextIndex n),
           matchIndex := replicate k 0 @ drop k (matchIndex n)\<rparr>)"

definition isLogUpToDate :: "u64 \<Rightarrow> u64 \<Rightarrow> raft_node \<Rightarrow> bool" where
  "isLogUpToDate candidateLastLogIndex candidateLastLogTerm n =
     (let myLastLogIndex = getLastIndex (log n); myLastLogTerm = getLastTerm (log n)
      in if candidateLastLogTerm \<noteq> myLastLogTerm then candidateLastLogTerm > myLastLogTerm
         else candidateLastLogIndex \<ge> myLastLogIndex)"

section \<open>Applying committed entries\<close>

text \<open>The visitor: skip a command already applied for its client, otherwise apply and record it.\<close>

definition apply_command :: "command \<Rightarrow> raft_node \<Rightarrow> raft_node" where
  "apply_command cmd n =
     (let meta = command_meta cmd
      in if (case lastAppliedSeq n (clientId meta) of Some s \<Rightarrow> s \<ge> sequenceNum meta | None \<Rightarrow> False)
         then n
         else n\<lparr>kvStore := exec_command cmd (kvStore n),
                lastAppliedSeq := (lastAppliedSeq n)(clientId meta \<mapsto> sequenceNum meta)\<rparr>)"

text \<open>Exceptions of \<open>deserialize\<close> are swallowed; the entry then counts as applied.\<close>

definition apply_entry :: "log_entry \<Rightarrow> raft_node \<Rightarrow> raft_node" where
  "apply_entry entry n =
     (case deserialize (command_data entry) of
        Inl e \<Rightarrow> n
      | Inr cmd \<Rightarrow> apply_command cmd n)"

text \<open>\<open>lastApplied\<close> is incremented before \<open>getEntry\<close>, whose exception escapes the loop.\<close>

function applyCommittedEntries :: "raft_node \<Rightarrow> (exn + unit) \<times> raft_node" where
  "applyCommittedEntries n =
     (if lastApplied n < commitIndex n then
        let n = n\<lparr>lastApplied := lastApplied n + 1\<rparr>
        in (case getEntry (log n) (lastApplied n) of
              Inl e \<Rightarrow> (Inl e, n)
            | Inr entry \<Rightarrow> applyCommittedEntries (apply_entry entry n))
      else (Inr (), n))"
  by pat_completeness auto

lemma apply_entry_frame [simp]:
  "lastApplied (apply_entry e n) = lastApplied n" "commitIndex (apply_entry e n) = commitIndex n"
  "log (apply_entry e n) = log n" "currentTerm (apply_entry e n) = currentTerm n"
  "votedFor (apply_entry e n) = votedFor n" "role (apply_entry e n) = role n"
  "nodeId (apply_entry e n) = nodeId n" "peerIds (apply_entry e n) = peerIds n"
  "persistence (apply_entry e n) = persistence n" "nextIndex (apply_entry e n) = nextIndex n"
  "matchIndex (apply_entry e n) = matchIndex n" "peerIdToIndexMap (apply_entry e n) = peerIdToIndexMap n"
  "currentLeaderId (apply_entry e n) = currentLeaderId n" "snapshotData (apply_entry e n) = snapshotData n"
  "snapshotIndex (apply_entry e n) = snapshotIndex n" "snapshotTerm (apply_entry e n) = snapshotTerm n"
  "running (apply_entry e n) = running n"
  by (simp_all add: apply_entry_def apply_command_def Let_def split: sum.split option.split)

termination applyCommittedEntries
proof (relation "measure (\<lambda>n. unat (commitIndex n) - unat (lastApplied n))", goal_cases)
  case 1
  show ?case by simp
next
  case (2 n n' e)
  then have lt: "unat (lastApplied n) < unat (commitIndex n)" by (simp add: word_less_nat_alt)
  then have "unat (lastApplied n) < 18446744073709551615"
    using unat_less_u64 [of "commitIndex n"] by linarith
  with lt 2 show ?case by (simp add: word_conv)
qed

declare applyCommittedEntries.simps [simp del]

section \<open>Restoring and constructing\<close>

definition restoreState :: "raft_node \<Rightarrow> (exn + unit) \<times> raft_node" where
  "restoreState n =
     (case persistence n of
        None \<Rightarrow> (Inr (), n)
      | Some p \<Rightarrow>
          (case loadState p [] (log n) of
             (Inl e, l) \<Rightarrow> (Inl e, n\<lparr>log := l\<rparr>)
           | (Inr None, l) \<Rightarrow> (Inr (), n\<lparr>log := l\<rparr>)
           | (Inr (Some s), l) \<Rightarrow>
               (let n = n\<lparr>log := l, currentTerm := loaded_term s, votedFor := loaded_votedFor s,
                          snapshotData := loaded_snapshot s\<rparr>
                in if loaded_snapshot s \<noteq> [] then
                     (case installSnapshot (loaded_snapshot s) (kvStore n) of
                        Inl e \<Rightarrow> (Inl e, n)
                      | Inr kv \<Rightarrow> (Inr (), n\<lparr>kvStore := kv, lastApplied := loaded_snapshotIndex s,
                                          commitIndex := loaded_snapshotIndex s\<rparr>))
                   else (Inr (), n))))"

text \<open>
  The constructor. \<open>snapshotIndex\<close> and \<open>snapshotTerm\<close> are not in the initialiser list, so they
  start with whatever the memory held (\<open>junkIndex\<close>, \<open>junkTerm\<close>). The state is restored twice: before
  the leader arrays are sized, and again after the worker threads were started. The file system
  found at the state directory is a parameter.
\<close>

definition initial_node ::
  "u64 \<Rightarrow> u64 list \<Rightarrow> kvstore \<Rightarrow> u64 \<Rightarrow> nat stream \<Rightarrow> u64 \<Rightarrow> u64 \<Rightarrow> int \<Rightarrow> raft_node"
where
  "initial_node nid peers kv threshold rng junkIndex junkTerm now =
     \<lparr>randomGenerator = rng, kvStore = kv, persistence = None, peerIdToIndexMap = Map.empty,
      snapshotData = [], snapshotIndex = junkIndex, snapshotTerm = junkTerm,
      snapshotThreshold = threshold, lastAppliedSeq = Map.empty, lastHeartbeat = now,
      electionTimeout = 200, heartbeatInterval = 50, running = False, currentTerm = 0, votedFor = 0,
      log = new_log, commitIndex = 0, lastApplied = 0, role = FOLLOWER, nextIndex = [],
      matchIndex = [], nodeId = nid, peerIds = peers, currentLeaderId = 0\<rparr>"

fun index_peers :: "nat \<Rightarrow> u64 list \<Rightarrow> (u64 \<rightharpoonup> nat) \<Rightarrow> (u64 \<rightharpoonup> nat)" where
  "index_peers i [] m = m"
| "index_peers i (p # ps) m = index_peers (Suc i) ps (m(p \<mapsto> i))"

definition RaftNode ::
  "u64 \<Rightarrow> u64 list \<Rightarrow> kvstore \<Rightarrow> u64 \<Rightarrow> string \<Rightarrow> file_system \<Rightarrow> nat stream \<Rightarrow> u64 \<Rightarrow> u64 \<Rightarrow> int
     \<Rightarrow> (exn + unit) \<times> raft_node"
where
  "RaftNode nid peers kv threshold dir disk rng junkIndex junkTerm now =
     (let n = initial_node nid peers kv threshold rng junkIndex junkTerm now
      in andThen
           (if dir \<noteq> [] then restoreState (n\<lparr>persistence := Some (new_persistence dir disk)\<rparr>)
            else (Inr (), n))
           (\<lambda>_ n.
             let n = n\<lparr>nextIndex := replicate (length (peerIds n)) 1,
                       matchIndex := replicate (length (peerIds n)) 0,
                       peerIdToIndexMap := index_peers 0 (peerIds n) (peerIdToIndexMap n)\<rparr>;
                 n = resetElectionTimer now n
             in restoreState (n\<lparr>running := True\<rparr>)))"

text \<open>The destructor persists one last time once the threads are joined.\<close>

definition destroy_node :: "raft_node \<Rightarrow> (exn + unit) \<times> raft_node" where
  "destroy_node n = persistState (n\<lparr>running := False\<rparr>)"

section \<open>Handlers of incoming requests\<close>

definition consider_vote ::
  "int \<Rightarrow> request_vote_args \<Rightarrow> raft_node \<Rightarrow> (exn + request_vote_reply) \<times> raft_node"
where
  "consider_vote now args n =
     (let reply = \<lparr>rvr_term = currentTerm n, voteGranted = False\<rparr>;
          canVote = (votedFor n = 0 \<or> votedFor n = rv_candidateId args);
          logIsUpToDate = isLogUpToDate (rv_lastLogIndex args) (rv_lastLogTerm args) n
      in if canVote \<and> logIsUpToDate then
           andThen (persistState (n\<lparr>votedFor := rv_candidateId args\<rparr>)) (\<lambda>_ n.
             (Inr (reply\<lparr>voteGranted := True\<rparr>), resetElectionTimer now n))
         else (Inr reply, n))"

definition handleRequestVote ::
  "int \<Rightarrow> request_vote_args \<Rightarrow> raft_node \<Rightarrow> (exn + request_vote_reply) \<times> raft_node"
where
  "handleRequestVote now args n =
     (if rv_term args < currentTerm n then (Inr \<lparr>rvr_term = currentTerm n, voteGranted = False\<rparr>, n)
      else andThen
        (if rv_term args > currentTerm n then becomeFollower (rv_term args) n else (Inr (), n))
        (\<lambda>_ n. consider_vote now args n))"

text \<open>
  The backward scan for the first index of the conflicting term: \<open>i\<close> runs from
  \<open>prevLogIndex\<close> down to 1, \<open>ci\<close> is \<open>reply.conflictIndex\<close>.
\<close>

fun conflict_scan :: "raft_log \<Rightarrow> u64 \<Rightarrow> nat \<Rightarrow> u64 \<Rightarrow> u64" where
  "conflict_scan l prevTerm 0 ci = ci"
| "conflict_scan l prevTerm (Suc k) ci =
     (let i = of_nat (Suc k)
      in if getTerm l i \<noteq> prevTerm then i + 1
         else conflict_scan l prevTerm k (if i = 1 then 1 else ci))"

text \<open>
  The loop over the new entries: \<open>entryIndex\<close> counts up from \<open>prevLogIndex + 1\<close>, and
  \<open>lastLogIndex\<close> follows the log.
\<close>

fun append_entries_loop ::
  "u64 \<Rightarrow> log_entry list \<Rightarrow> u64 \<Rightarrow> raft_log \<Rightarrow> (exn + unit) \<times> raft_log"
where
  "append_entries_loop entryIndex [] lastLogIndex l = (Inr (), l)"
| "append_entries_loop entryIndex (e # es) lastLogIndex l =
     andThen
       (if entryIndex \<le> lastLogIndex \<and> getTerm l entryIndex \<noteq> e_term e then
          (case log_truncate entryIndex l of
             Inl x \<Rightarrow> (Inl x, l)
           | Inr l' \<Rightarrow> (Inr (getLastIndex l'), l'))
        else (Inr lastLogIndex, l))
       (\<lambda>lastLogIndex l.
         if entryIndex > lastLogIndex then
           (case log_append e l of
              Inl x \<Rightarrow> (Inl x, l)
            | Inr l' \<Rightarrow> append_entries_loop (entryIndex + 1) es (getLastIndex l') l')
         else append_entries_loop (entryIndex + 1) es lastLogIndex l)"

text \<open>What \<open>handleAppendEntries\<close> does once the previous entry matched.\<close>

definition advance_commit :: "append_entries_args \<Rightarrow> raft_node \<Rightarrow> (exn + unit) \<times> raft_node" where
  "advance_commit args n =
     (if ae_leaderCommit args > commitIndex n
      then applyCommittedEntries (n\<lparr>commitIndex := min (ae_leaderCommit args) (getLastIndex (log n))\<rparr>)
      else (Inr (), n))"

definition store_entries :: "append_entries_args \<Rightarrow> raft_node \<Rightarrow> (exn + unit) \<times> raft_node" where
  "store_entries args n =
     (if ae_entries args \<noteq> [] then
        (case append_entries_loop (ae_prevLogIndex args + 1) (ae_entries args) (getLastIndex (log n)) (log n) of
           (r, l) \<Rightarrow> andThen (r, n\<lparr>log := l\<rparr>) (\<lambda>_ n. persistState n))
      else (Inr (), n))"

text \<open>The checks on the previous entry: \<open>Some reply\<close> is an early return.\<close>

definition check_previous :: "append_entries_args \<Rightarrow> raft_node \<Rightarrow> append_entries_reply option" where
  "check_previous args n =
     (let reply = \<lparr>aer_term = currentTerm n, aer_success = False, conflictIndex = 0, conflictTerm = 0\<rparr>;
          lastLogIndex = getLastIndex (log n)
      in if ae_prevLogIndex args > lastLogIndex then
           Some (reply\<lparr>conflictIndex := lastLogIndex + 1, conflictTerm := 0\<rparr>)
         else if ae_prevLogIndex args > 0 then
           (let prevTerm = getTerm (log n) (ae_prevLogIndex args)
            in if prevTerm \<noteq> ae_prevLogTerm args then
                 Some (reply\<lparr>conflictTerm := prevTerm,
                   conflictIndex := conflict_scan (log n) prevTerm (unat (ae_prevLogIndex args)) (ae_prevLogIndex args)\<rparr>)
               else None)
         else None)"

text \<open>From \<open>currentLeaderId = args.leaderId\<close> to the end of the handler.\<close>

definition process_entries ::
  "int \<Rightarrow> append_entries_args \<Rightarrow> raft_node \<Rightarrow> (exn + append_entries_reply) \<times> raft_node"
where
  "process_entries now args n =
     (let n = resetElectionTimer now (n\<lparr>currentLeaderId := ae_leaderId args\<rparr>)
      in case check_previous args n of
           Some reply \<Rightarrow> (Inr reply, n)
         | None \<Rightarrow>
             andThen (store_entries args n) (\<lambda>_ n.
             andThen (advance_commit args n) (\<lambda>_ n.
               (Inr \<lparr>aer_term = currentTerm n, aer_success = True, conflictIndex = 0, conflictTerm = 0\<rparr>, n))))"

definition handleAppendEntries ::
  "int \<Rightarrow> append_entries_args \<Rightarrow> raft_node \<Rightarrow> (exn + append_entries_reply) \<times> raft_node"
where
  "handleAppendEntries now args n =
     (if ae_term args < currentTerm n then
        (Inr \<lparr>aer_term = currentTerm n, aer_success = False, conflictIndex = 0, conflictTerm = 0\<rparr>, n)
      else andThen
        (if ae_term args > currentTerm n then becomeFollower (ae_term args) n
         else if role n \<noteq> FOLLOWER then becomeFollower (ae_term args) n
         else (Inr (), n))
        (\<lambda>_ n. process_entries now args n))"

definition already_applied :: "client_request \<Rightarrow> raft_node \<Rightarrow> bool" where
  "already_applied request n =
     (case lastAppliedSeq n (req_clientId request) of
        Some s \<Rightarrow> s \<ge> req_sequenceNum request
      | None \<Rightarrow> False)"

definition handleClientRequest ::
  "client_request \<Rightarrow> raft_node \<Rightarrow> (exn + client_reply) \<times> raft_node"
where
  "handleClientRequest request n =
     (let reply = \<lparr>cr_success = False, cr_value = [], cr_isLeader = (role n = LEADER),
                   cr_leaderId = currentLeaderId n, cr_error = []\<rparr>
      in if role n \<noteq> LEADER then (Inr (reply\<lparr>cr_error := ''Not leader''\<rparr>), n)
         else if already_applied request n then
           (Inr (reply\<lparr>cr_success := True, cr_isLeader := True,
              cr_value := (case req_command request of
                 GetCommand meta key \<Rightarrow> (case Get key (kvStore n) of Some v \<Rightarrow> v | None \<Rightarrow> [])
               | _ \<Rightarrow> [])\<rparr>), n)
         else
           (case (case serialize (req_command request) of
                    Inl e \<Rightarrow> (Inl e, n)
                  | Inr commandData \<Rightarrow>
                      (case log_append \<lparr>e_index = getLastIndex (log n) + 1, e_term = currentTerm n,
                                        command_data = commandData\<rparr> (log n) of
                         Inl e \<Rightarrow> (Inl e, n)
                       | Inr l \<Rightarrow> persistState (n\<lparr>log := l\<rparr>))) of
              (Inr (), n) \<Rightarrow> (Inr (reply\<lparr>cr_success := True, cr_isLeader := True\<rparr>), n)
            | (Inl e, n) \<Rightarrow>
                if is_exception e
                then (Inr (reply\<lparr>cr_error := ''Failed to append entry: '' @ what e\<rparr>), n)
                else (Inl e, n)))"

text \<open>
  What follows the term checks of \<open>handleInstallSnapshot\<close> is \<open>receive_snapshot\<close>. There is no check for a snapshot older than the state it replaces, and it
  keeps a leader or candidate of the same term in its role.
\<close>

definition receive_snapshot ::
  "int \<Rightarrow> install_snapshot_args \<Rightarrow> raft_node \<Rightarrow> (exn + install_snapshot_reply) \<times> raft_node"
where
  "receive_snapshot now args n =
     (let reply = \<lparr>isr_term = currentTerm n\<rparr>;
          n = resetElectionTimer now n;
          n = n\<lparr>snapshotData := is_data args, snapshotIndex := is_lastIncludedIndex args,
                snapshotTerm := is_lastIncludedTerm args,
                log := discardEntriesUpTo (is_lastIncludedIndex args) (is_lastIncludedTerm args) (log n)\<rparr>
      in case installSnapshot (is_data args) (kvStore n) of
           Inl e \<Rightarrow> (Inl e, n)
         | Inr kv \<Rightarrow>
             (let n = n\<lparr>kvStore := kv,
                        lastApplied := max (is_lastIncludedIndex args) (lastApplied n),
                        commitIndex := max (is_lastIncludedIndex args) (commitIndex n)\<rparr>
              in andThen (persistState n) (\<lambda>_ n. (Inr reply, n))))"

definition handleInstallSnapshot ::
  "int \<Rightarrow> install_snapshot_args \<Rightarrow> raft_node \<Rightarrow> (exn + install_snapshot_reply) \<times> raft_node"
where
  "handleInstallSnapshot now args n =
     (if is_term args < currentTerm n then (Inr \<lparr>isr_term = currentTerm n\<rparr>, n)
      else andThen
        (if is_term args > currentTerm n then becomeFollower (is_term args) n else (Inr (), n))
        (\<lambda>_ n. receive_snapshot now args n))"

section \<open>Taking snapshots\<close>

definition takeNodeSnapshot :: "u64 \<Rightarrow> raft_node \<Rightarrow> (exn + unit) \<times> raft_node" where
  "takeNodeSnapshot upToIndex n =
     (if upToIndex \<le> getSnapshotIndex (log n) then (Inr (), n)
      else if upToIndex > lastApplied n then
        (Inl (Runtime_error (''Cannot snapshot unapplied entries. upToIndex='' @ to_string upToIndex @
                             '', lastApplied='' @ to_string (lastApplied n))), n)
      else
        (let trm = getTerm (log n) upToIndex
         in persistState (n\<lparr>snapshotData := takeSnapshot (kvStore n), snapshotIndex := upToIndex,
              snapshotTerm := trm, log := discardEntriesUpTo upToIndex trm (log n)\<rparr>)))"

definition getLogSize :: "raft_node \<Rightarrow> u64" where
  "getLogSize n = getLastIndex (log n) - getSnapshotIndex (log n)"

definition getSnapshotSize :: "raft_node \<Rightarrow> nat" where
  "getSnapshotSize n = length (snapshotData n)"

definition shouldTakeSnapshot :: "raft_node \<Rightarrow> bool" where
  "shouldTakeSnapshot n =
     (let logSize = getLastIndex (log n) - getSnapshotIndex (log n) in logSize \<ge> snapshotThreshold n)"

definition triggerSnapshot :: "raft_node \<Rightarrow> (exn + unit) \<times> raft_node" where
  "triggerSnapshot n =
     (if lastApplied n > getSnapshotIndex (log n) then takeNodeSnapshot (lastApplied n) n else (Inr (), n))"

text \<open>One round of \<open>snapshotTimerLoop\<close> after its sleep; exceptions are logged and dropped.\<close>

definition snapshotTimer_tick :: "raft_node \<Rightarrow> (exn + unit) \<times> raft_node" where
  "snapshotTimer_tick n =
     (if \<not> running n then (Inr (), n)
      else if shouldTakeSnapshot n then
        (if lastApplied n > getSnapshotIndex (log n) then
           (case takeNodeSnapshot (lastApplied n) n of
              (Inl e, n) \<Rightarrow> if is_exception e then (Inr (), n) else (Inl e, n)
            | r \<Rightarrow> r)
         else (Inr (), n))
      else (Inr (), n))"

lemmas [run_simps] =
  persistState_def uniform_int_def resetElectionTimer_def becomeFollower_def becomeCandidate_def
  becomeLeader_def isLogUpToDate_def apply_command_def apply_entry_def applyCommittedEntries.simps
  restoreState_def initial_node_def RaftNode_def destroy_node_def consider_vote_def handleRequestVote_def
  advance_commit_def store_entries_def check_previous_def process_entries_def handleAppendEntries_def
  already_applied_def handleClientRequest_def receive_snapshot_def handleInstallSnapshot_def takeNodeSnapshot_def
  getLogSize_def getSnapshotSize_def shouldTakeSnapshot_def triggerSnapshot_def
  snapshotTimer_tick_def exec_command_def

end
