(* ===== verification/Raft_Node_Laws.thy ===== *)
theory Raft_Node_Laws
  imports Raft_Node
begin

text \<open>
  Laws of the handlers of a Raft node. First what each helper leaves alone, then the relation
  every handler respects on term, vote and role, the durability of votes, the effect of
  \<open>AppendEntries\<close> on the log, the replay of committed entries, client requests, snapshots and
  restarts.
\<close>

section \<open>Frames\<close>

lemma persistState_frame [simp]:
  "currentTerm (snd (persistState n)) = currentTerm n" "votedFor (snd (persistState n)) = votedFor n"
  "log (snd (persistState n)) = log n" "role (snd (persistState n)) = role n"
  "kvStore (snd (persistState n)) = kvStore n" "lastApplied (snd (persistState n)) = lastApplied n"
  "commitIndex (snd (persistState n)) = commitIndex n" "nodeId (snd (persistState n)) = nodeId n"
  "peerIds (snd (persistState n)) = peerIds n" "nextIndex (snd (persistState n)) = nextIndex n"
  "matchIndex (snd (persistState n)) = matchIndex n" "lastAppliedSeq (snd (persistState n)) = lastAppliedSeq n"
  "peerIdToIndexMap (snd (persistState n)) = peerIdToIndexMap n" "snapshotData (snd (persistState n)) = snapshotData n"
  "snapshotIndex (snd (persistState n)) = snapshotIndex n" "snapshotTerm (snd (persistState n)) = snapshotTerm n"
  "currentLeaderId (snd (persistState n)) = currentLeaderId n" "snapshotThreshold (snd (persistState n)) = snapshotThreshold n"
  by (simp_all add: persistState_def split: option.split prod.split)

lemma resetElectionTimer_frame [simp]:
  "currentTerm (resetElectionTimer now n) = currentTerm n" "votedFor (resetElectionTimer now n) = votedFor n"
  "log (resetElectionTimer now n) = log n" "role (resetElectionTimer now n) = role n"
  "kvStore (resetElectionTimer now n) = kvStore n" "lastApplied (resetElectionTimer now n) = lastApplied n"
  "commitIndex (resetElectionTimer now n) = commitIndex n" "nodeId (resetElectionTimer now n) = nodeId n"
  "peerIds (resetElectionTimer now n) = peerIds n" "nextIndex (resetElectionTimer now n) = nextIndex n"
  "matchIndex (resetElectionTimer now n) = matchIndex n" "persistence (resetElectionTimer now n) = persistence n"
  "lastAppliedSeq (resetElectionTimer now n) = lastAppliedSeq n" "peerIdToIndexMap (resetElectionTimer now n) = peerIdToIndexMap n"
  "snapshotData (resetElectionTimer now n) = snapshotData n" "snapshotIndex (resetElectionTimer now n) = snapshotIndex n"
  "snapshotTerm (resetElectionTimer now n) = snapshotTerm n" "currentLeaderId (resetElectionTimer now n) = currentLeaderId n"
  by (simp_all add: resetElectionTimer_def)

lemma applyCommittedEntries_frame [simp]:
  "log (snd (applyCommittedEntries n)) = log n"
  "commitIndex (snd (applyCommittedEntries n)) = commitIndex n"
  "currentTerm (snd (applyCommittedEntries n)) = currentTerm n"
  "votedFor (snd (applyCommittedEntries n)) = votedFor n"
  "role (snd (applyCommittedEntries n)) = role n"
  "nodeId (snd (applyCommittedEntries n)) = nodeId n"
  "peerIds (snd (applyCommittedEntries n)) = peerIds n"
  "persistence (snd (applyCommittedEntries n)) = persistence n"
  "nextIndex (snd (applyCommittedEntries n)) = nextIndex n"
  "matchIndex (snd (applyCommittedEntries n)) = matchIndex n"
  "peerIdToIndexMap (snd (applyCommittedEntries n)) = peerIdToIndexMap n"
  "snapshotData (snd (applyCommittedEntries n)) = snapshotData n"
  "snapshotIndex (snd (applyCommittedEntries n)) = snapshotIndex n"
  "snapshotTerm (snd (applyCommittedEntries n)) = snapshotTerm n"
  "running (snd (applyCommittedEntries n)) = running n"
  by (induction n rule: applyCommittedEntries.induct;
      subst applyCommittedEntries.simps; simp add: Let_def split: sum.split)+

lemma becomeFollower_frame [simp]:
  "currentTerm (snd (becomeFollower t n)) = t" "votedFor (snd (becomeFollower t n)) = 0"
  "role (snd (becomeFollower t n)) = FOLLOWER" "log (snd (becomeFollower t n)) = log n"
  "nodeId (snd (becomeFollower t n)) = nodeId n" "peerIds (snd (becomeFollower t n)) = peerIds n"
  "commitIndex (snd (becomeFollower t n)) = commitIndex n" "lastApplied (snd (becomeFollower t n)) = lastApplied n"
  "kvStore (snd (becomeFollower t n)) = kvStore n" "lastAppliedSeq (snd (becomeFollower t n)) = lastAppliedSeq n"
  "nextIndex (snd (becomeFollower t n)) = nextIndex n" "matchIndex (snd (becomeFollower t n)) = matchIndex n"
  "peerIdToIndexMap (snd (becomeFollower t n)) = peerIdToIndexMap n"
  "snapshotIndex (snd (becomeFollower t n)) = snapshotIndex n" "snapshotTerm (snd (becomeFollower t n)) = snapshotTerm n"
  by (simp_all add: becomeFollower_def)

lemma becomeCandidate_frame [simp]:
  "currentTerm (snd (becomeCandidate n)) = currentTerm n + 1" "votedFor (snd (becomeCandidate n)) = nodeId n"
  "role (snd (becomeCandidate n)) = CANDIDATE" "log (snd (becomeCandidate n)) = log n"
  "nodeId (snd (becomeCandidate n)) = nodeId n" "peerIds (snd (becomeCandidate n)) = peerIds n"
  "commitIndex (snd (becomeCandidate n)) = commitIndex n" "lastApplied (snd (becomeCandidate n)) = lastApplied n"
  by (simp_all add: becomeCandidate_def)

section \<open>The disk\<close>

text \<open>A node whose files can be opened, or that has none, persists without an exception.\<close>

definition disk_ok :: "raft_node \<Rightarrow> bool" where
  "disk_ok n \<longleftrightarrow> (case persistence n of None \<Rightarrow> True | Some p \<Rightarrow> can_open p)"

lemma disk_ok_update [simp]:
  "disk_ok (n\<lparr>currentTerm := a\<rparr>) = disk_ok n" "disk_ok (n\<lparr>votedFor := b\<rparr>) = disk_ok n"
  "disk_ok (n\<lparr>role := c\<rparr>) = disk_ok n" "disk_ok (n\<lparr>currentLeaderId := d\<rparr>) = disk_ok n"
  "disk_ok (n\<lparr>log := l\<rparr>) = disk_ok n" "disk_ok (n\<lparr>commitIndex := e\<rparr>) = disk_ok n"
  "disk_ok (n\<lparr>kvStore := f\<rparr>) = disk_ok n" "disk_ok (n\<lparr>lastApplied := g\<rparr>) = disk_ok n"
  "disk_ok (n\<lparr>snapshotData := h\<rparr>) = disk_ok n" "disk_ok (n\<lparr>snapshotIndex := i\<rparr>) = disk_ok n"
  "disk_ok (n\<lparr>snapshotTerm := j\<rparr>) = disk_ok n" "disk_ok (n\<lparr>nextIndex := k\<rparr>) = disk_ok n"
  "disk_ok (n\<lparr>nodeId := q\<rparr>) = disk_ok n" "disk_ok (n\<lparr>peerIds := p\<rparr>) = disk_ok n"
  "disk_ok (n\<lparr>matchIndex := m\<rparr>) = disk_ok n" "disk_ok (resetElectionTimer now n) = disk_ok n"
  "disk_ok (snd (applyCommittedEntries n)) = disk_ok n"
  by (simp_all add: disk_ok_def)

lemma can_open_saveState: "can_open p \<Longrightarrow> can_open (snd (saveState t v l s si st p))"
  by (cases "stateDir p = []") (simp add: saveState_def, simp add: saveState_files, simp add: can_open_def)

lemma saveState_Inr: "can_open p \<Longrightarrow> fst (saveState t v l s si st p) = Inr ()"
  by (cases "stateDir p = []") (simp add: saveState_def, simp add: saveState_files)

lemma persistState_ok [simp]:
  assumes "disk_ok n"
  shows "fst (persistState n) = Inr ()" and "disk_ok (snd (persistState n))"
proof -
  show "fst (persistState n) = Inr ()"
    using assms by (simp add: disk_ok_def persistState_def saveState_Inr split: option.splits prod.split)
      (metis fst_conv saveState_Inr)
  show "disk_ok (snd (persistState n))"
    using assms by (simp add: disk_ok_def persistState_def split: option.splits prod.split)
      (metis can_open_saveState snd_conv)
qed

lemma becomeFollower_ok [simp]:
  "disk_ok n \<Longrightarrow> fst (becomeFollower t n) = Inr ()"
  "disk_ok n \<Longrightarrow> disk_ok (snd (becomeFollower t n))"
  by (simp_all add: becomeFollower_def)

lemma becomeCandidate_ok [simp]:
  "disk_ok n \<Longrightarrow> fst (becomeCandidate n) = Inr ()"
  "disk_ok n \<Longrightarrow> disk_ok (snd (becomeCandidate n))"
  by (simp_all add: becomeCandidate_def)

section \<open>Term, vote and role\<close>

text \<open>
  What every handler respects: the identity of the node is fixed, its term never goes back, and
  within a term a follower stays a follower and keeps the vote it cast.
\<close>

definition vote_step :: "raft_node \<Rightarrow> raft_node \<Rightarrow> bool" where
  "vote_step n n' \<longleftrightarrow>
     nodeId n' = nodeId n \<and> peerIds n' = peerIds n \<and> currentTerm n \<le> currentTerm n' \<and>
     (currentTerm n' = currentTerm n \<and> role n = FOLLOWER \<longrightarrow>
        role n' = FOLLOWER \<and> (votedFor n \<noteq> 0 \<longrightarrow> votedFor n' = votedFor n))"

lemma vote_step_refl [simp]: "vote_step n n"
  by (simp add: vote_step_def)

lemma vote_step_trans: "vote_step a b \<Longrightarrow> vote_step b c \<Longrightarrow> vote_step a c"
  by (auto simp: vote_step_def)

text \<open>Outside a leader's or candidate's own steps the role only ever becomes follower.\<close>

lemma vote_step_unchanged:
  assumes "nodeId n' = nodeId n" "peerIds n' = peerIds n" "currentTerm n' = currentTerm n"
    "votedFor n' = votedFor n" "role n' = role n"
  shows "vote_step n n'"
  using assms by (simp add: vote_step_def)

lemma consider_vote_frame [simp]:
  "currentTerm (snd (consider_vote now args n)) = currentTerm n" "role (snd (consider_vote now args n)) = role n"
  "nodeId (snd (consider_vote now args n)) = nodeId n" "peerIds (snd (consider_vote now args n)) = peerIds n"
  "log (snd (consider_vote now args n)) = log n"
  by (simp_all add: consider_vote_def Let_def snd_andThen split: sum.split)

lemma consider_vote_keeps: "votedFor n \<noteq> 0 \<Longrightarrow> votedFor (snd (consider_vote now args n)) = votedFor n"
  by (simp add: consider_vote_def Let_def snd_andThen split: sum.split)

lemma handleRequestVote_vote_step: "vote_step n (snd (handleRequestVote now args n))"
  by (auto simp: handleRequestVote_def consider_vote_keeps snd_andThen vote_step_def split: sum.split)

lemma advance_commit_frame [simp]:
  "currentTerm (snd (advance_commit args n)) = currentTerm n" "votedFor (snd (advance_commit args n)) = votedFor n"
  "log (snd (advance_commit args n)) = log n" "role (snd (advance_commit args n)) = role n"
  "nodeId (snd (advance_commit args n)) = nodeId n" "peerIds (snd (advance_commit args n)) = peerIds n"
  "nextIndex (snd (advance_commit args n)) = nextIndex n" "matchIndex (snd (advance_commit args n)) = matchIndex n"
  "persistence (snd (advance_commit args n)) = persistence n"
  "disk_ok (snd (advance_commit args n)) = disk_ok n"
  by (simp_all add: advance_commit_def)

lemma store_entries_frame [simp]:
  "currentTerm (snd (store_entries args n)) = currentTerm n" "votedFor (snd (store_entries args n)) = votedFor n"
  "role (snd (store_entries args n)) = role n" "nodeId (snd (store_entries args n)) = nodeId n"
  "peerIds (snd (store_entries args n)) = peerIds n" "commitIndex (snd (store_entries args n)) = commitIndex n"
  "lastApplied (snd (store_entries args n)) = lastApplied n" "kvStore (snd (store_entries args n)) = kvStore n"
  "nextIndex (snd (store_entries args n)) = nextIndex n" "matchIndex (snd (store_entries args n)) = matchIndex n"
  by (simp_all add: store_entries_def snd_andThen split: prod.split sum.split)

lemma store_entries_log:
  "log (snd (store_entries args n)) =
     (if ae_entries args = [] then log n
      else snd (append_entries_loop (ae_prevLogIndex args + 1) (ae_entries args) (getLastIndex (log n)) (log n)))"
  by (simp add: store_entries_def snd_andThen split: prod.split sum.split)

lemma process_entries_frame [simp]:
  "currentTerm (snd (process_entries now args n)) = currentTerm n"
  "votedFor (snd (process_entries now args n)) = votedFor n"
  "role (snd (process_entries now args n)) = role n"
  "nodeId (snd (process_entries now args n)) = nodeId n"
  "peerIds (snd (process_entries now args n)) = peerIds n"
  "nextIndex (snd (process_entries now args n)) = nextIndex n"
  "matchIndex (snd (process_entries now args n)) = matchIndex n"
  by (simp_all add: process_entries_def Let_def snd_andThen split: option.split sum.split)

lemma handleAppendEntries_vote_step: "vote_step n (snd (handleAppendEntries now args n))"
  by (auto simp: handleAppendEntries_def snd_andThen vote_step_def split: sum.split)

lemma receive_snapshot_frame [simp]:
  "currentTerm (snd (receive_snapshot now args n)) = currentTerm n"
  "votedFor (snd (receive_snapshot now args n)) = votedFor n"
  "role (snd (receive_snapshot now args n)) = role n"
  "nodeId (snd (receive_snapshot now args n)) = nodeId n"
  "peerIds (snd (receive_snapshot now args n)) = peerIds n"
  by (simp_all add: receive_snapshot_def Let_def snd_andThen split: sum.split)

lemma handleInstallSnapshot_vote_step: "vote_step n (snd (handleInstallSnapshot now args n))"
  by (auto simp: handleInstallSnapshot_def snd_andThen vote_step_def split: sum.split)

lemma handleClientRequest_frame [simp]:
  "currentTerm (snd (handleClientRequest request n)) = currentTerm n"
  "votedFor (snd (handleClientRequest request n)) = votedFor n"
  "role (snd (handleClientRequest request n)) = role n"
  "nodeId (snd (handleClientRequest request n)) = nodeId n"
  "peerIds (snd (handleClientRequest request n)) = peerIds n"
  "commitIndex (snd (handleClientRequest request n)) = commitIndex n"
  "lastApplied (snd (handleClientRequest request n)) = lastApplied n"
  "kvStore (snd (handleClientRequest request n)) = kvStore n"
  "nextIndex (snd (handleClientRequest request n)) = nextIndex n"
  "matchIndex (snd (handleClientRequest request n)) = matchIndex n"
  "snapshotIndex (snd (handleClientRequest request n)) = snapshotIndex n"
  "lastAppliedSeq (snd (handleClientRequest request n)) = lastAppliedSeq n"
proof -
  have p: "snd (persistState m) = m'" if "persistState m = (r, m')" for m m' and r :: "exn + unit"
    using that by simp
  show "currentTerm (snd (handleClientRequest request n)) = currentTerm n"
  "votedFor (snd (handleClientRequest request n)) = votedFor n"
  "role (snd (handleClientRequest request n)) = role n"
  "nodeId (snd (handleClientRequest request n)) = nodeId n"
  "peerIds (snd (handleClientRequest request n)) = peerIds n"
  "commitIndex (snd (handleClientRequest request n)) = commitIndex n"
  "lastApplied (snd (handleClientRequest request n)) = lastApplied n"
  "kvStore (snd (handleClientRequest request n)) = kvStore n"
  "nextIndex (snd (handleClientRequest request n)) = nextIndex n"
  "matchIndex (snd (handleClientRequest request n)) = matchIndex n"
  "snapshotIndex (snd (handleClientRequest request n)) = snapshotIndex n"
  "lastAppliedSeq (snd (handleClientRequest request n)) = lastAppliedSeq n"
    by (auto simp: handleClientRequest_def Let_def split: sum.split prod.split unit.split dest!: p [symmetric])
qed

lemma handleClientRequest_vote_step: "vote_step n (snd (handleClientRequest request n))"
  by (rule vote_step_unchanged) simp_all

lemma takeNodeSnapshot_frame [simp]:
  "currentTerm (snd (takeNodeSnapshot i n)) = currentTerm n" "votedFor (snd (takeNodeSnapshot i n)) = votedFor n"
  "role (snd (takeNodeSnapshot i n)) = role n" "nodeId (snd (takeNodeSnapshot i n)) = nodeId n"
  "peerIds (snd (takeNodeSnapshot i n)) = peerIds n" "commitIndex (snd (takeNodeSnapshot i n)) = commitIndex n"
  "lastApplied (snd (takeNodeSnapshot i n)) = lastApplied n" "kvStore (snd (takeNodeSnapshot i n)) = kvStore n"
  "nextIndex (snd (takeNodeSnapshot i n)) = nextIndex n" "matchIndex (snd (takeNodeSnapshot i n)) = matchIndex n"
  by (simp_all add: takeNodeSnapshot_def Let_def)

lemma triggerSnapshot_vote_step: "vote_step n (snd (triggerSnapshot n))"
  by (rule vote_step_unchanged) (simp_all add: triggerSnapshot_def)

lemma snapshotTimer_tick_vote_step: "vote_step n (snd (snapshotTimer_tick n))"
proof -
  have "snd (snapshotTimer_tick n) = n \<or> snd (snapshotTimer_tick n) = snd (takeNodeSnapshot (lastApplied n) n)"
    by (auto simp: snapshotTimer_tick_def split: sum.split prod.split)
  then show ?thesis by (auto intro!: vote_step_unchanged)
qed

text \<open>The same with what exactly becomes of term, vote and role.\<close>

definition same_vote :: "raft_node \<Rightarrow> raft_node \<Rightarrow> bool" where
  "same_vote n n' \<longleftrightarrow> currentTerm n' = currentTerm n \<and> votedFor n' = votedFor n \<and> role n' = role n"

lemma consider_vote_votes:
  "votedFor (snd (consider_vote now args n)) \<in> (if votedFor n = 0 then {0, rv_candidateId args} else {votedFor n})"
  by (simp add: consider_vote_def Let_def snd_andThen split: sum.split)

lemma handleRequestVote_votes:
  "currentTerm (snd (handleRequestVote now args n)) = max (currentTerm n) (rv_term args) \<and>
   votedFor (snd (handleRequestVote now args n)) \<in>
     (if rv_term args < currentTerm n then {votedFor n}
      else if rv_term args = currentTerm n then (if votedFor n = 0 then {0, rv_candidateId args} else {votedFor n})
      else {0, rv_candidateId args}) \<and>
   role (snd (handleRequestVote now args n)) = (if rv_term args \<le> currentTerm n then role n else FOLLOWER)"
  using consider_vote_votes [of now args n] consider_vote_votes [of now args "snd (becomeFollower (rv_term args) n)"]
  by (auto simp: handleRequestVote_def snd_andThen max_def split: sum.split)

lemma handleAppendEntries_votes:
  "currentTerm (snd (handleAppendEntries now args n)) = max (currentTerm n) (ae_term args) \<and>
   votedFor (snd (handleAppendEntries now args n)) =
     (if ae_term args < currentTerm n then votedFor n
      else if ae_term args = currentTerm n then (if role n = FOLLOWER then votedFor n else 0)
      else 0) \<and>
   role (snd (handleAppendEntries now args n)) = (if ae_term args < currentTerm n then role n else FOLLOWER)"
  by (auto simp: handleAppendEntries_def snd_andThen max_def split: sum.split)

lemma handleInstallSnapshot_votes:
  "currentTerm (snd (handleInstallSnapshot now args n)) = max (currentTerm n) (is_term args) \<and>
   votedFor (snd (handleInstallSnapshot now args n)) = (if is_term args \<le> currentTerm n then votedFor n else 0) \<and>
   role (snd (handleInstallSnapshot now args n)) = (if is_term args \<le> currentTerm n then role n else FOLLOWER)"
  by (auto simp: handleInstallSnapshot_def snd_andThen max_def split: sum.split)

lemma same_vote_handleClientRequest: "same_vote n (snd (handleClientRequest request n))"
  by (simp add: same_vote_def)

lemma same_vote_triggerSnapshot: "same_vote n (snd (triggerSnapshot n))"
  by (simp add: same_vote_def triggerSnapshot_def)

lemma same_vote_snapshotTimer_tick: "same_vote n (snd (snapshotTimer_tick n))"
proof -
  have "snd (snapshotTimer_tick n) = n \<or> snd (snapshotTimer_tick n) = snd (takeNodeSnapshot (lastApplied n) n)"
    by (auto simp: snapshotTimer_tick_def split: sum.split prod.split)
  then show ?thesis by (auto simp: same_vote_def)
qed

lemmas handler_vote_steps =
  handleRequestVote_vote_step handleAppendEntries_vote_step handleInstallSnapshot_vote_step
  handleClientRequest_vote_step triggerSnapshot_vote_step snapshotTimer_tick_vote_step

section \<open>Storing the leader's entries\<close>

text \<open>
  The reference: keep the existing entries as long as their terms agree with the new ones; at the
  first disagreement drop the rest and take the new entries.
\<close>

fun merge_entries :: "log_entry list \<Rightarrow> log_entry list \<Rightarrow> log_entry list" where
  "merge_entries xs [] = xs"
| "merge_entries [] (e # es) = e # es"
| "merge_entries (x # xs) (e # es) =
     (if e_term x = e_term e then x # merge_entries xs es else e # es)"

lemma merge_entries_Nil [simp]: "merge_entries [] es = es"
  by (cases es) simp_all

lemma merge_entries_terms:
  "j < length es \<Longrightarrow> j < length (merge_entries xs es) \<and> e_term (merge_entries xs es ! j) = e_term (es ! j)"
proof (induction xs es arbitrary: j rule: merge_entries.induct)
  case (3 x xs e es)
  then show ?case by (cases j) auto
qed auto

lemma length_merge_entries: "length es \<le> length (merge_entries xs es)"
  by (induction xs es rule: merge_entries.induct) auto

lemma consecutive_append:
  "consecutive k (xs @ ys) \<longleftrightarrow> consecutive k xs \<and> consecutive (k + length xs) ys"
  by (induction xs arbitrary: k) auto

lemma consecutive_merge:
  "consecutive k xs \<Longrightarrow> consecutive k es \<Longrightarrow> consecutive k (merge_entries xs es)"
  by (induction xs es arbitrary: k rule: merge_entries.induct) auto

lemma length_merge_le: "length (merge_entries xs es) \<le> max (length xs) (length es)"
  by (induction xs es rule: merge_entries.induct) auto

lemma append_entries_loop_merge:
  assumes "log_wf l" and "log_snapshotIndex l = 0" and "Entries l = pre @ xs" and "length pre = unat i"
    and "pre \<noteq> []" and "consecutive (unat i) es" and "unat i + length es < 18446744073709551616"
  shows "append_entries_loop i es (getLastIndex l) l = (Inr (), l\<lparr>Entries := pre @ merge_entries xs es\<rparr>)"
  using assms
proof (induction es arbitrary: i l pre xs)
  case Nil
  then show ?case by simp
next
  case (Cons e es)
  have last: "unat (getLastIndex l) = unat i + length xs - 1"
    using getLastIndex_nat [OF Cons.prems(1)] Cons.prems(2,3,4) by (simp add: last_nat_def)
  have i1: "unat (i + 1) = Suc (unat i)" and i0: "0 < unat i" and "i \<noteq> 0"
    using Cons.prems(4,5,7) by (auto simp: word_conv unat_gt_0)
  have idx: "unat (e_index e) = unat i" and es: "consecutive (Suc (unat i)) es" "unat i + length es < 18446744073709551615"
    using Cons.prems(6,7) by simp_all
  text \<open>appending to the prefix, after which the remaining entries only extend the log\<close>
  have extend: "log_append e m = Inr (m\<lparr>Entries := pre @ [e]\<rparr>) \<and>
      append_entries_loop (i + 1) es (getLastIndex (m\<lparr>Entries := pre @ [e]\<rparr>)) (m\<lparr>Entries := pre @ [e]\<rparr>) =
        (Inr (), m\<lparr>Entries := pre @ e # es\<rparr>)"
    if m: "log_wf m" "log_snapshotIndex m = 0" "Entries m = pre" for m
  proof -
    have ln: "last_nat m = unat i - 1" using m Cons.prems(4) by (simp add: last_nat_def)
    then have app: "log_append e m = Inr (m\<lparr>Entries := pre @ [e]\<rparr>)"
      using log_append_Inr [OF m(1)] idx i0 es(2) m(3) by simp
    with log_append_wf [OF m(1) _ app] ln es(2) have "log_wf (m\<lparr>Entries := pre @ [e]\<rparr>)" by simp
    from Cons.IH [OF this, of "pre @ [e]" "[]" "i + 1"] m Cons.prems(4) i1 es
    show ?thesis using app by simp
  qed
  show ?case
  proof (cases xs)
    case Nil
    with last i0 have "i > getLastIndex l" by (simp add: word_less_nat_alt)
    moreover from this have "\<not> i \<le> getLastIndex l" by simp
    ultimately show ?thesis
      using extend [of l] Cons.prems(1,2,3) Nil by simp
  next
    case (Cons x xs')
    have le: "i \<le> getLastIndex l" using last Cons by (simp add: word_le_nat_alt)
    have gt: "getTerm l i = e_term x"
      using Cons.prems(3,4) Cons by (simp add: getTerm_def nth_append)
    show ?thesis
    proof (cases "e_term x = e_term e")
      case True
      have "append_entries_loop (i + 1) es (getLastIndex l) l =
          (Inr (), l\<lparr>Entries := (pre @ [x]) @ merge_entries xs' es\<rparr>)"
        using Cons.prems Cons i1 es by (intro Cons.IH) simp_all
      moreover have "\<not> getLastIndex l < i" using le by simp
      ultimately show ?thesis using True gt Cons by simp
    next
      case False
      have t: "log_truncate i l = Inr (l\<lparr>Entries := pre\<rparr>)"
        using Cons.prems(3,4) Cons \<open>i \<noteq> 0\<close> by (simp add: log_truncate_def Let_def)
      have wf: "log_wf (l\<lparr>Entries := pre\<rparr>)" using log_truncate_wf [OF Cons.prems(1) t] by simp
      then have "unat (getLastIndex (l\<lparr>Entries := pre\<rparr>)) = unat i - 1"
        using Cons.prems(2,4) by (simp add: getLastIndex_nat last_nat_def)
      then have "i > getLastIndex (l\<lparr>Entries := pre\<rparr>)" using i0 by (simp add: word_less_nat_alt)
      then show ?thesis
        using extend [OF wf] Cons.prems(2) False le gt t Cons by simp
    qed
  qed
qed

section \<open>Replaying committed entries\<close>

definition entries_between :: "raft_log \<Rightarrow> nat \<Rightarrow> nat \<Rightarrow> log_entry list" where
  "entries_between l a c = map (\<lambda>k. the (log_map l k)) [Suc a..<Suc c]"

lemma apply_entry_lastApplied: "apply_entry e (n\<lparr>lastApplied := a\<rparr>) = (apply_entry e n)\<lparr>lastApplied := a\<rparr>"
  by (simp add: apply_entry_def apply_command_def Let_def split: sum.split)

lemma fold_apply_entry_lastApplied:
  "fold apply_entry es (n\<lparr>lastApplied := a\<rparr>) = (fold apply_entry es n)\<lparr>lastApplied := a\<rparr>"
  by (induction es arbitrary: n) (simp_all add: apply_entry_lastApplied)

lemma applyCommittedEntries_fold:
  assumes "log_wf (log n)" and "{unat (lastApplied n)<..unat (commitIndex n)} \<subseteq> dom (log_map (log n))"
  shows "applyCommittedEntries n =
    (Inr (), (fold apply_entry (entries_between (log n) (unat (lastApplied n)) (unat (commitIndex n))) n)
       \<lparr>lastApplied := max (lastApplied n) (commitIndex n)\<rparr>)"
  using assms
proof (induction n rule: applyCommittedEntries.induct)
  case (1 n)
  show ?case
  proof (cases "lastApplied n < commitIndex n")
    case True
    let ?a = "unat (lastApplied n)" and ?c = "unat (commitIndex n)"
    let ?m = "n\<lparr>lastApplied := lastApplied n + 1\<rparr>"
    from True have lt: "?a < ?c" by (simp add: word_less_nat_alt)
    then have a1: "unat (lastApplied n + 1) = Suc ?a"
      using unat_less_u64 [of "commitIndex n"] by (intro unat_u64_plus1) linarith
    from lt "1.prems"(2) obtain e where e: "log_map (log n) (Suc ?a) = Some e" by force
    with a1 have get: "getEntry (log ?m) (lastApplied ?m) = Inr e"
      using getEntry_log_map [OF "1.prems"(1), of "lastApplied n + 1"] by simp
    have IH: "applyCommittedEntries (apply_entry e ?m) =
      (Inr (), (fold apply_entry (entries_between (log n) (Suc ?a) ?c) (apply_entry e ?m))
        \<lparr>lastApplied := max (lastApplied n + 1) (commitIndex n)\<rparr>)"
      using "1.IH" [OF True refl get] "1.prems" a1 by (auto simp: subset_iff)
    have "lastApplied n + 1 \<le> commitIndex n" using lt a1 by (simp add: word_le_nat_alt)
    moreover have "entries_between (log n) ?a ?c = e # entries_between (log n) (Suc ?a) ?c"
      using lt e by (simp add: entries_between_def upt_rec [of "Suc ?a"] del: upt_Suc)
    ultimately show ?thesis
      using True get IH
      by (subst applyCommittedEntries.simps)
        (simp add: Let_def apply_entry_lastApplied fold_apply_entry_lastApplied max_absorb2 less_imp_le)
  next
    case False
    then have "entries_between (log n) (unat (lastApplied n)) (unat (commitIndex n)) = []"
      by (simp add: entries_between_def word_less_nat_alt)
    with False show ?thesis
      by (subst applyCommittedEntries.simps) (simp add: max_absorb1)
  qed
qed

section \<open>What is on disk\<close>

text \<open>The state file holds the image of the node's current term, vote and log.\<close>

definition persisted :: "raft_node \<Rightarrow> bool" where
  "persisted n \<longleftrightarrow>
     (\<forall>p. persistence n = Some p \<and> stateDir p \<noteq> [] \<longrightarrow>
        files (fs p) (getStatePath p) = Some (state_image (currentTerm n) (votedFor n) (log n)
          (getSnapshotIndex (log n)) (getSnapshotTerm (log n))))"

lemma saveState_image:
  assumes "can_open p" and "saveState t v l s si st p = (r, p')" and "stateDir p' \<noteq> []"
  shows "files (fs p') (getStatePath p') = Some (state_image t v l si st)"
proof (cases "stateDir p = []")
  case True
  with assms(2,3) show ?thesis by (auto simp: saveState_def)
next
  case False
  with assms(1,2) show ?thesis by (auto simp: saveState_files)
qed

lemma persistState_persisted: "disk_ok n \<Longrightarrow> persisted (snd (persistState n))"
  by (auto simp: disk_ok_def persistState_def persisted_def saveState_image split: option.splits prod.splits)

lemma persisted_resetElectionTimer [simp]: "persisted (resetElectionTimer now n) = persisted n"
  by (simp add: persisted_def)

lemma isLogUpToDate_log: "log m = log n \<Longrightarrow> isLogUpToDate i t m = isLogUpToDate i t n"
  by (simp add: isLogUpToDate_def)

section \<open>Laws of the handlers\<close>

text \<open>
  C13. What the handlers of incoming requests and the snapshot operations do to term, vote and role,
  exceptions included. The term is the larger of the own one and the message's. A vote cast in the
  term is kept by every handler with one exception: an \<open>AppendEntries\<close> of the own term makes a
  candidate or leader a follower that has forgotten its vote. A follower stays follower.
\<close>

theorem handlers_respect_votes:
  "currentTerm (snd (handleRequestVote now rv n)) = max (currentTerm n) (rv_term rv) \<and>
   currentTerm (snd (handleAppendEntries now ae n)) = max (currentTerm n) (ae_term ae) \<and>
   currentTerm (snd (handleInstallSnapshot now isn n)) = max (currentTerm n) (is_term isn) \<and>
   votedFor (snd (handleRequestVote now rv n)) \<in>
     (if rv_term rv < currentTerm n then {votedFor n}
      else if rv_term rv = currentTerm n then (if votedFor n = 0 then {0, rv_candidateId rv} else {votedFor n})
      else {0, rv_candidateId rv}) \<and>
   votedFor (snd (handleAppendEntries now ae n)) =
     (if ae_term ae < currentTerm n then votedFor n
      else if ae_term ae = currentTerm n then (if role n = FOLLOWER then votedFor n else 0)
      else 0) \<and>
   votedFor (snd (handleInstallSnapshot now isn n)) = (if is_term isn \<le> currentTerm n then votedFor n else 0) \<and>
   role (snd (handleRequestVote now rv n)) = (if rv_term rv \<le> currentTerm n then role n else FOLLOWER) \<and>
   role (snd (handleAppendEntries now ae n)) = (if ae_term ae < currentTerm n then role n else FOLLOWER) \<and>
   role (snd (handleInstallSnapshot now isn n)) = (if is_term isn \<le> currentTerm n then role n else FOLLOWER) \<and>
   same_vote n (snd (handleClientRequest request n)) \<and> same_vote n (snd (triggerSnapshot n)) \<and>
   same_vote n (snd (snapshotTimer_tick n))"
  using handleRequestVote_votes [of now rv n] handleAppendEntries_votes [of now ae n]
    handleInstallSnapshot_votes [of now isn n]
  by (simp add: same_vote_handleClientRequest same_vote_triggerSnapshot same_vote_snapshotTimer_tick)

lemma handleRequestVote_result:
  assumes "disk_ok n"
  shows "\<exists>reply n'. handleRequestVote now args n = (Inr reply, n') \<and>
    (voteGranted reply \<longleftrightarrow>
       currentTerm n \<le> rv_term args \<and>
       (currentTerm n < rv_term args \<or> votedFor n = 0 \<or> votedFor n = rv_candidateId args) \<and>
       isLogUpToDate (rv_lastLogIndex args) (rv_lastLogTerm args) n) \<and>
    rvr_term reply = max (currentTerm n) (rv_term args) \<and>
    currentTerm n' = rvr_term reply \<and> log n' = log n \<and>
    (voteGranted reply \<longrightarrow> votedFor n' = rv_candidateId args \<and> persisted n')"
proof -
  consider "rv_term args < currentTerm n" | "rv_term args = currentTerm n" | "currentTerm n < rv_term args"
    by force
  then show ?thesis
  proof cases
    case 1
    then show ?thesis by (auto simp: handleRequestVote_def max_def)
  next
    case 2
    then show ?thesis
      using assms by (auto simp: handleRequestVote_def consider_vote_def Let_def persistState_persisted)
  next
    case 3
    then have "\<not> rv_term args < currentTerm n" by simp
    with 3 assms show ?thesis
      by (auto simp: handleRequestVote_def consider_vote_def Let_def persistState_persisted max_def
          isLogUpToDate_log [of "snd (becomeFollower (rv_term args) n)" n])
  qed
qed

text \<open>Raft's comparison of logs, written out on the last entries.\<close>

lemma log_up_to_date:
  "isLogUpToDate i t n \<longleftrightarrow> e_term (last (Entries (log n))) < t \<or>
     e_term (last (Entries (log n))) = t \<and> e_index (last (Entries (log n))) \<le> i"
  by (auto simp: isLogUpToDate_def getLastIndex_def getLastTerm_def Let_def)

lemma handleRequestVote_refused:
  assumes "disk_ok n" and "handleRequestVote now args n = (Inr reply, n')" and "\<not> voteGranted reply"
  shows "votedFor n' = (if currentTerm n < rv_term args then 0 else votedFor n)"
  using assms by (auto simp: handleRequestVote_def consider_vote_def Let_def split: if_splits)

text \<open>
  C14. \<open>handleRequestVote\<close> grants a vote exactly under Raft's conditions: the term is not stale, the
  node has not voted for another candidate in that term, and the candidate's last entry has a later
  term than the node's last entry, or the same term and an index that is not smaller. The reply
  carries the larger of the two terms, the log stays as it is, a granted vote is in the state file
  before the reply leaves the handler, and a refusal leaves no vote that was not there.
\<close>

theorem handleRequestVote_exact:
  assumes "disk_ok n"
  shows "\<exists>reply n'. handleRequestVote now args n = (Inr reply, n') \<and>
    (voteGranted reply \<longleftrightarrow>
       currentTerm n \<le> rv_term args \<and>
       (currentTerm n < rv_term args \<or> votedFor n = 0 \<or> votedFor n = rv_candidateId args) \<and>
       (e_term (last (Entries (log n))) < rv_lastLogTerm args \<or>
        e_term (last (Entries (log n))) = rv_lastLogTerm args \<and>
        e_index (last (Entries (log n))) \<le> rv_lastLogIndex args)) \<and>
    rvr_term reply = max (currentTerm n) (rv_term args) \<and>
    currentTerm n' = rvr_term reply \<and> log n' = log n \<and>
    (voteGranted reply \<longrightarrow> votedFor n' = rv_candidateId args \<and> persisted n') \<and>
    (\<not> voteGranted reply \<longrightarrow> votedFor n' = (if currentTerm n < rv_term args then 0 else votedFor n))"
proof -
  obtain reply n' where r: "handleRequestVote now args n = (Inr reply, n')"
    using handleRequestVote_result [OF assms] by blast
  show ?thesis
    using handleRequestVote_result [OF assms, of now args] handleRequestVote_refused [OF assms, of now args reply n'] r
    by (simp add: log_up_to_date)
qed

definition sample_node :: raft_node where
  "sample_node = (initial_node 1 [2, 3] empty_kvstore 10000 (sconst 0) 0 0 0)
     \<lparr>persistence := Some sample_disk, log := sample_log, currentTerm := 2,
      nextIndex := [1, 1], matchIndex := [0, 0]\<rparr>"

lemma sample_node_simps [simp]:
  "persistence sample_node = Some sample_disk" "log sample_node = sample_log" "currentTerm sample_node = 2"
  "votedFor sample_node = 0" "role sample_node = FOLLOWER" "commitIndex sample_node = 0"
  "lastApplied sample_node = 0" "kvStore sample_node = empty_kvstore" "nodeId sample_node = 1"
  "peerIds sample_node = [2, 3]" "lastAppliedSeq sample_node = Map.empty" "disk_ok sample_node"
  "snapshotData sample_node = []"
  by (simp_all add: sample_node_def initial_node_def disk_ok_def)

lemma sample_log_ends [simp]: "getLastIndex sample_log = 3" "getLastTerm sample_log = 2"
  by (simp_all add: getLastIndex_def getLastTerm_def sample_log_entries)

theorem handleRequestVote_exact_witness:
  "\<exists>reply n'. handleRequestVote 5 \<lparr>rv_term = 2, rv_candidateId = 3, rv_lastLogIndex = 3, rv_lastLogTerm = 2\<rparr>
      sample_node = (Inr reply, n') \<and> voteGranted reply \<and> votedFor n' = 3 \<and> persisted n'"
proof -
  have "disk_ok sample_node" by simp
  from handleRequestVote_exact [OF this, of 5
      "\<lparr>rv_term = 2, rv_candidateId = 3, rv_lastLogIndex = 3, rv_lastLogTerm = 2\<rparr>"]
  show ?thesis by (auto simp: sample_log_entries)
qed

text \<open>
  The scan from \<open>k\<close> down: it ends just above the highest index below with another term, or at 1.
\<close>

lemma conflict_scan_from:
  assumes "k < 18446744073709551616" and "0 < k"
  shows "\<exists>c. conflict_scan l t k ci = of_nat c \<and> 1 \<le> c \<and> c \<le> Suc k \<and>
    (\<forall>i. c \<le> i \<and> i \<le> k \<longrightarrow> getTerm l (of_nat i) = t) \<and>
    (c = 1 \<or> getTerm l (of_nat (c - 1)) \<noteq> t)"
  using assms
proof (induction k arbitrary: ci)
  case 0
  then show ?case by simp
next
  case (Suc k)
  show ?case
  proof (cases "getTerm l (of_nat (Suc k)) = t")
    case False
    then show ?thesis
      by (intro exI [of _ "Suc (Suc k)"]) (auto simp: Let_def)
  next
    case True
    show ?thesis
    proof (cases "k = 0")
      case True
      with \<open>getTerm l (of_nat (Suc k)) = t\<close> show ?thesis
        by (intro exI [of _ 1]) (auto simp: le_Suc_eq)
    next
      case False
      with Suc.IH [of "if (of_nat (Suc k) :: u64) = 1 then 1 else ci"] Suc.prems(1)
      obtain c where "conflict_scan l t k (if (of_nat (Suc k) :: u64) = 1 then 1 else ci) = of_nat c"
        "1 \<le> c" "c \<le> Suc k" "\<forall>i. c \<le> i \<and> i \<le> k \<longrightarrow> getTerm l (of_nat i) = t"
        "c = 1 \<or> getTerm l (of_nat (c - 1)) \<noteq> t" by auto
      with True show ?thesis
        by (intro exI [of _ c]) (auto simp: Let_def le_Suc_eq)
    qed
  qed
qed

lemma conflict_scan_run:
  assumes "0 < p" and "c = conflict_scan l (getTerm l p) (unat p) p"
  shows "1 \<le> c \<and> c \<le> p \<and> (\<forall>i. c \<le> i \<and> i \<le> p \<longrightarrow> getTerm l i = getTerm l p) \<and>
    (c = 1 \<or> getTerm l (c - 1) \<noteq> getTerm l p)"
proof -
  have "0 < unat p" using assms(1) by (simp add: word_less_nat_alt)
  from conflict_scan_from [OF _ this, of l "getTerm l p" p]
  obtain k where k: "c = of_nat k" "1 \<le> k" "k \<le> Suc (unat p)"
    "\<forall>i. k \<le> i \<and> i \<le> unat p \<longrightarrow> getTerm l (of_nat i) = getTerm l p"
    "k = 1 \<or> getTerm l (of_nat (k - 1)) \<noteq> getTerm l p"
    using assms(2) by auto
  have "k \<le> unat p"
  proof (rule ccontr)
    assume "\<not> k \<le> unat p"
    with k(3) have "k = Suc (unat p)" by simp
    with k(5) \<open>0 < unat p\<close> show False by simp
  qed
  then have u: "unat c = k"
    using k(1) le_less_trans [OF \<open>k \<le> unat p\<close> unat_less_u64] by (simp add: unat_of_nat)
  have low: "1 \<le> c" and high: "c \<le> p"
    using k(2) u \<open>k \<le> unat p\<close> by (simp_all add: word_le_nat_alt)
  have run: "getTerm l i = getTerm l p" if "c \<le> i" "i \<le> p" for i
    using k(4) [rule_format, of "unat i"] that u by (simp add: word_le_nat_alt)
  have "c - 1 = of_nat (k - 1)" using k(1,2) by (simp add: of_nat_diff)
  then have "c = 1 \<or> getTerm l (c - 1) \<noteq> getTerm l p"
    using k(1,5) by (cases "k = 1") simp_all
  with low high run show ?thesis by blast
qed

text \<open>
  The conflict hint of a failed \<open>AppendEntries\<close> is the first index of the run of entries that
  share the conflicting term, so a leader that resumes there skips the whole run.
\<close>

theorem conflict_scan_first_of_term:
  assumes "0 < p" and "c = conflict_scan l (getTerm l p) (unat p) p"
  shows "1 \<le> c \<and> c \<le> p \<and> (\<forall>i. c \<le> i \<and> i \<le> p \<longrightarrow> getTerm l i = getTerm l p) \<and>
    (c = 1 \<or> getTerm l (c - 1) \<noteq> getTerm l p)"
  by (rule conflict_scan_run [OF assms])

theorem conflict_scan_first_of_term_witness:
  "conflict_scan sample_log (getTerm sample_log 2) (unat (2 :: u64)) 2 = 1"
proof -
  define c where "c = conflict_scan sample_log (getTerm sample_log 2) (unat (2 :: u64)) 2"
  have "0 < (2 :: u64)" by simp
  from conflict_scan_first_of_term [OF this c_def]
  have c: "1 \<le> c" "c \<le> 2" "c = 1 \<or> getTerm sample_log (c - 1) \<noteq> getTerm sample_log 2" by blast+
  from c(1,2) have "unat c = 1 \<or> unat c = 2" by (auto simp: word_le_nat_alt)
  then have "c = 1 \<or> c = 2" by (simp add: word_unat_eq_iff)
  moreover have "getTerm sample_log (2 - 1) = getTerm sample_log 2" by (simp add: getTerm_def sample_log_entries)
  ultimately have "c = 1" using c(3) by blast
  then show ?thesis by (simp only: c_def)
qed

section \<open>Laws of AppendEntries\<close>

lemma persistState_eq: "disk_ok n \<Longrightarrow> persistState n = (Inr (), snd (persistState n))"
  using persistState_ok(1) by (metis prod.collapse)

lemma store_entries_merge:
  assumes "disk_ok n" and "log_wf (log n)" and "uncompacted (log n)"
    and "unat (ae_prevLogIndex args) \<le> last_nat (log n)"
    and "consecutive (Suc (unat (ae_prevLogIndex args))) (ae_entries args)"
    and "unat (ae_prevLogIndex args) + length (ae_entries args) < 18446744073709551615"
  shows "\<exists>n'. store_entries args n = (Inr (), n') \<and> disk_ok n' \<and> log_wf (log n') \<and> uncompacted (log n') \<and>
    tl (Entries (log n')) = take (unat (ae_prevLogIndex args)) (tl (Entries (log n))) @
      merge_entries (drop (unat (ae_prevLogIndex args)) (tl (Entries (log n)))) (ae_entries args) \<and>
    n' = n\<lparr>log := log n', persistence := persistence n'\<rparr>"
proof (cases "ae_entries args = []")
  case True
  then show ?thesis using assms by (simp add: store_entries_def)
next
  case False
  let ?p = "ae_prevLogIndex args" and ?es = "ae_entries args" and ?l = "log n"
  let ?pre = "take (Suc (unat ?p)) (Entries ?l)" and ?xs = "drop (Suc (unat ?p)) (Entries ?l)"
  let ?l' = "?l\<lparr>Entries := ?pre @ merge_entries ?xs ?es\<rparr>"
  obtain h t where ht: "Entries ?l = h # t"
    using log_wf_nonempty [OF assms(2)] by (cases "Entries ?l") auto
  have i: "unat (?p + 1) = Suc (unat ?p)" using assms(6) by (simp add: word_conv)
  have len: "length ?pre = unat (?p + 1)"
    using assms(3,4) i ht by (simp add: last_nat_def uncompacted_def)
  have "append_entries_loop (?p + 1) ?es (getLastIndex ?l) ?l = (Inr (), ?l')"
    using assms(3,5,6) i len ht
    by (intro append_entries_loop_merge [OF assms(2)]) (auto simp: uncompacted_def)
  then have st: "store_entries args n = persistState (n\<lparr>log := ?l'\<rparr>)"
    using False by (simp add: store_entries_def)
  have cons: "consecutive 0 (Entries ?l)" and bound: "length (Entries ?l) \<le> 18446744073709551616"
    using assms(2,3) by (simp_all add: log_wf_consecutive uncompacted_def)
  have "consecutive (Suc (unat ?p)) ?xs" and "consecutive 0 ?pre"
    using cons consecutive_append [of 0 ?pre ?xs] len i by simp_all
  then have "consecutive 0 (?pre @ merge_entries ?xs ?es)"
    using assms(5) len i by (simp add: consecutive_append consecutive_merge)
  moreover have "length (?pre @ merge_entries ?xs ?es) \<le> 18446744073709551616"
    using length_merge_le [of ?xs ?es] bound len i assms(6) by (simp add: ht)
  ultimately have wf: "log_wf ?l'"
    using assms(3) by (simp add: log_wf_consecutive uncompacted_def ht)
  show ?thesis
    unfolding st
    using assms(1,3) wf persistState_eq [of "n\<lparr>log := ?l'\<rparr>"]
    by (intro exI [of _ "snd (persistState (n\<lparr>log := ?l'\<rparr>))"])
      (simp add: uncompacted_def ht, simp add: persistState_def split: option.split prod.split)
qed

lemma uncompacted_dom:
  assumes "log_wf l" and "uncompacted l" and "c \<le> getLastIndex l"
  shows "{a<..unat c} \<subseteq> dom (log_map l)"
  using assms getLastIndex_nat [OF assms(1)]
  by (auto simp: dom_log_map uncompacted_def word_le_nat_alt)

lemma advance_commit_ok:
  assumes "log_wf (log n)" and "uncompacted (log n)"
  shows "fst (advance_commit args n) = Inr () \<and>
    commitIndex (snd (advance_commit args n)) =
      (if ae_leaderCommit args > commitIndex n then min (ae_leaderCommit args) (getLastIndex (log n)) else commitIndex n)"
proof (cases "ae_leaderCommit args > commitIndex n")
  case False
  then show ?thesis by (simp add: advance_commit_def)
next
  case True
  let ?m = "n\<lparr>commitIndex := min (ae_leaderCommit args) (getLastIndex (log n))\<rparr>"
  have "fst (applyCommittedEntries ?m) = Inr ()"
    using applyCommittedEntries_fold [of ?m] uncompacted_dom [OF assms, of "commitIndex ?m"] assms(1) by simp
  with True show ?thesis by (simp add: advance_commit_def)
qed

definition matches_previous :: "append_entries_args \<Rightarrow> raft_node \<Rightarrow> bool" where
  "matches_previous args n \<longleftrightarrow>
     ae_prevLogIndex args \<le> getLastIndex (log n) \<and>
     (ae_prevLogIndex args = 0 \<or> getTerm (log n) (ae_prevLogIndex args) = ae_prevLogTerm args)"

lemma check_previous_None: "check_previous args n = None \<longleftrightarrow> matches_previous args n"
  by (auto simp: check_previous_def matches_previous_def Let_def word_gt_0)

lemma check_previous_Some:
  "check_previous args n = Some reply \<Longrightarrow> \<not> aer_success reply \<and> aer_term reply = currentTerm n"
  by (auto simp: check_previous_def Let_def split: if_splits)

lemma process_entries_merge:
  assumes "disk_ok n" and "log_wf (log n)" and "uncompacted (log n)"
    and "consecutive (Suc (unat (ae_prevLogIndex args))) (ae_entries args)"
    and "unat (ae_prevLogIndex args) + length (ae_entries args) < 18446744073709551615"
  shows "\<exists>reply n'. process_entries now args n = (Inr reply, n') \<and>
    aer_term reply = currentTerm n \<and> (aer_success reply \<longleftrightarrow> matches_previous args n) \<and>
    log_wf (log n') \<and> uncompacted (log n') \<and>
    tl (Entries (log n')) = (if matches_previous args n
      then take (unat (ae_prevLogIndex args)) (tl (Entries (log n))) @
        merge_entries (drop (unat (ae_prevLogIndex args)) (tl (Entries (log n)))) (ae_entries args)
      else tl (Entries (log n))) \<and>
    commitIndex n' = (if matches_previous args n \<and> ae_leaderCommit args > commitIndex n
      then min (ae_leaderCommit args) (getLastIndex (log n')) else commitIndex n)"
proof -
  let ?m = "resetElectionTimer now (n\<lparr>currentLeaderId := ae_leaderId args\<rparr>)"
  have mp: "matches_previous args ?m = matches_previous args n" by (simp add: matches_previous_def)
  show ?thesis
  proof (cases "matches_previous args n")
    case False
    then obtain reply where "check_previous args ?m = Some reply"
      using mp check_previous_None [of args ?m] by auto
    with check_previous_Some [OF this] False assms(2,3) show ?thesis
      by (simp add: process_entries_def Let_def)
  next
    case True
    with mp have none: "check_previous args ?m = None" by (simp add: check_previous_None)
    from True have "unat (ae_prevLogIndex args) \<le> last_nat (log ?m)"
      using getLastIndex_nat [OF assms(2)] by (simp add: matches_previous_def word_le_nat_alt)
    from store_entries_merge [of ?m args, OF _ _ _ this] assms
    obtain n1 where n1: "store_entries args ?m = (Inr (), n1)" "log_wf (log n1)" "uncompacted (log n1)"
      "tl (Entries (log n1)) = take (unat (ae_prevLogIndex args)) (tl (Entries (log n))) @
        merge_entries (drop (unat (ae_prevLogIndex args)) (tl (Entries (log n)))) (ae_entries args)"
      by auto
    have fr: "currentTerm n1 = currentTerm n" "commitIndex n1 = commitIndex n"
      using store_entries_frame [of args ?m] n1(1) by simp_all
    from advance_commit_ok [OF n1(2,3), of args] True none n1 fr show ?thesis
      by (auto simp: process_entries_def Let_def split: if_splits)
  qed
qed

text \<open>Whatever the role and the older term, the entries are processed by a follower of the sender's term.\<close>

lemma handleAppendEntries_current:
  assumes "disk_ok n" and "currentTerm n \<le> ae_term args"
  obtains m where "\<And>now. handleAppendEntries now args n = process_entries now args m"
    "disk_ok m" "log m = log n" "commitIndex m = commitIndex n" "currentTerm m = ae_term args"
    "role m = FOLLOWER" "matches_previous args m = matches_previous args n"
proof
  let ?m = "if currentTerm n < ae_term args \<or> role n \<noteq> FOLLOWER then snd (becomeFollower (ae_term args) n) else n"
  show "handleAppendEntries now args n = process_entries now args ?m" for now
    using assms by (auto simp: handleAppendEntries_def not_less [symmetric])
  show "disk_ok ?m" "log ?m = log n" "commitIndex ?m = commitIndex n" "currentTerm ?m = ae_term args"
    "role ?m = FOLLOWER" "matches_previous args ?m = matches_previous args n"
    using assms by (auto simp: matches_previous_def)
qed

lemma handleAppendEntries_merge:
  assumes "disk_ok n" and "log_wf (log n)" and "uncompacted (log n)" and "currentTerm n \<le> ae_term args"
    and "consecutive (Suc (unat (ae_prevLogIndex args))) (ae_entries args)"
    and "unat (ae_prevLogIndex args) + length (ae_entries args) < 18446744073709551615"
  shows "\<exists>reply n'. handleAppendEntries now args n = (Inr reply, n') \<and>
    aer_term reply = ae_term args \<and> currentTerm n' = ae_term args \<and> role n' = FOLLOWER \<and>
    (aer_success reply \<longleftrightarrow> matches_previous args n) \<and>
    log_wf (log n') \<and> uncompacted (log n') \<and>
    tl (Entries (log n')) = (if matches_previous args n
      then take (unat (ae_prevLogIndex args)) (tl (Entries (log n))) @
        merge_entries (drop (unat (ae_prevLogIndex args)) (tl (Entries (log n)))) (ae_entries args)
      else tl (Entries (log n))) \<and>
    commitIndex n' = (if matches_previous args n \<and> ae_leaderCommit args > commitIndex n
      then min (ae_leaderCommit args) (getLastIndex (log n')) else commitIndex n)"
proof -
  from assms(1,4) obtain m where m: "handleAppendEntries now args n = process_entries now args m"
    "disk_ok m" "log m = log n" "commitIndex m = commitIndex n" "currentTerm m = ae_term args"
    "role m = FOLLOWER" "matches_previous args m = matches_previous args n"
    by (rule handleAppendEntries_current) blast
  obtain reply n' where r: "process_entries now args m = (Inr reply, n')"
    "aer_term reply = currentTerm m" "aer_success reply \<longleftrightarrow> matches_previous args m"
    "log_wf (log n')" "uncompacted (log n')"
    "tl (Entries (log n')) = (if matches_previous args m
      then take (unat (ae_prevLogIndex args)) (tl (Entries (log m))) @
        merge_entries (drop (unat (ae_prevLogIndex args)) (tl (Entries (log m)))) (ae_entries args)
      else tl (Entries (log m)))"
    "commitIndex n' = (if matches_previous args m \<and> ae_leaderCommit args > commitIndex m
      then min (ae_leaderCommit args) (getLastIndex (log n')) else commitIndex m)"
    using process_entries_merge [of m args now] assms(2,3,5,6) m(2,3) by (simp only: m) blast
  from r(1) have "currentTerm n' = ae_term args" "role n' = FOLLOWER"
    using process_entries_frame [of now args m] m(5,6) by simp_all
  with r m show ?thesis by (simp only: m) blast
qed

text \<open>
  C11. On a log that was never compacted, a current \<open>AppendEntries\<close> does what the protocol asks:
  the node ends as follower of the sender's term; it answers success exactly when it has the
  previous entry; then its log is the old prefix followed by the merge of the old suffix with the
  new entries (existing entries survive as long as the terms agree), and its commit index moves up
  to the leader's, bounded by the log; otherwise the log and the commit index stay as they were.
\<close>

theorem handleAppendEntries_merges:
  assumes "disk_ok n" and "log_wf (log n)" and "uncompacted (log n)" and "currentTerm n \<le> ae_term args"
    and "consecutive (Suc (unat (ae_prevLogIndex args))) (ae_entries args)"
    and "unat (ae_prevLogIndex args) + length (ae_entries args) < 18446744073709551615"
  shows "\<exists>reply n'. handleAppendEntries now args n = (Inr reply, n') \<and>
    aer_term reply = ae_term args \<and> currentTerm n' = ae_term args \<and> role n' = FOLLOWER \<and>
    (aer_success reply \<longleftrightarrow> matches_previous args n) \<and>
    log_wf (log n') \<and> uncompacted (log n') \<and>
    tl (Entries (log n')) = (if matches_previous args n
      then take (unat (ae_prevLogIndex args)) (tl (Entries (log n))) @
        merge_entries (drop (unat (ae_prevLogIndex args)) (tl (Entries (log n)))) (ae_entries args)
      else tl (Entries (log n))) \<and>
    commitIndex n' = (if matches_previous args n \<and> ae_leaderCommit args > commitIndex n
      then min (ae_leaderCommit args) (getLastIndex (log n')) else commitIndex n)"
  by (rule handleAppendEntries_merge [OF assms])

definition sample_entry :: "u64 \<Rightarrow> u64 \<Rightarrow> log_entry" where
  "sample_entry i t = \<lparr>e_index = i, e_term = t, command_data = []\<rparr>"

lemma sample_entry_simps [simp]: "e_index (sample_entry i t) = i" "e_term (sample_entry i t) = t"
  by (simp_all add: sample_entry_def)

lemma sample_log_tail: "tl (Entries sample_log) = [sample_entry 1 1, sample_entry 2 1, sample_entry 3 2]"
  by (simp add: sample_log_entries sample_entry_def)

theorem handleAppendEntries_merges_witness:
  "\<exists>reply n'. handleAppendEntries 5 \<lparr>ae_term = 3, ae_leaderId = 2, ae_prevLogIndex = 1, ae_prevLogTerm = 1,
      ae_entries = [sample_entry 2 3], ae_leaderCommit = 1\<rparr> sample_node = (Inr reply, n') \<and>
    aer_success reply \<and> tl (Entries (log n')) = [sample_entry 1 1, sample_entry 2 3]"
proof -
  let ?a = "\<lparr>ae_term = 3, ae_leaderId = 2, ae_prevLogIndex = 1, ae_prevLogTerm = 1,
      ae_entries = [sample_entry 2 3], ae_leaderCommit = 1\<rparr>"
  have mp: "matches_previous ?a sample_node"
    by (simp add: matches_previous_def getTerm_def sample_log_entries)
  have "uncompacted (log sample_node)" by (simp add: uncompacted_def)
  with handleAppendEntries_merges [of sample_node ?a 5] mp
  obtain reply n' where "handleAppendEntries 5 ?a sample_node = (Inr reply, n')" "aer_success reply"
    "tl (Entries (log n')) = take 1 (tl (Entries sample_log)) @
       merge_entries (drop 1 (tl (Entries sample_log))) [sample_entry 2 3]"
    by auto
  then show ?thesis by (simp add: sample_log_tail)
qed

lemma unat_plus1_less: "(p :: u64) < p + 1 \<Longrightarrow> unat (p + 1) = Suc (unat p)"
  by (cases "1 + p = 0") (simp_all add: unatSuc add.commute)

lemma u64_minus1_less: "0 < (p :: u64) \<Longrightarrow> p - 1 < p"
  using unat_minus_one [of p] by (simp add: word_less_nat_alt unat_gt_0)

lemma append_entries_loop_beyond:
  assumes "log_wf l" and "length (Entries l) \<le> unat i" and "unat i + length es \<le> Suc (last_nat l)"
  shows "append_entries_loop i es (getLastIndex l) l = (Inr (), l)"
  using assms(2,3)
proof (induction es arbitrary: i)
  case Nil
  then show ?case by simp
next
  case (Cons e es)
  have le: "i \<le> getLastIndex l" and "\<not> getLastIndex l < i"
    using Cons.prems getLastIndex_nat [OF assms(1)] by (simp_all add: word_le_nat_alt word_less_nat_alt)
  have "0 < unat i" using Cons.prems(1) log_wf_nonempty [OF assms(1)] by (cases "Entries l") auto
  then have t: "log_truncate i l = Inr l"
    using Cons.prems(1) by (simp add: log_truncate_def Let_def unat_gt_0)
  show ?case
  proof (cases es)
    case Nil
    with le \<open>\<not> getLastIndex l < i\<close> t show ?thesis by simp
  next
    case (Cons e' es')
    with Cons.prems(2) log_wf_bound [OF assms(1)] have "unat (i + 1) = Suc (unat i)"
      by (intro unat_u64_plus1) simp
    with Cons.prems Cons.IH [of "i + 1"] le \<open>\<not> getLastIndex l < i\<close> t show ?thesis by simp
  qed
qed

text \<open>
  C40. After a compaction a follower can keep entries that conflict with the leader's and still
  answer success: when the new entries fall on existing indices but on vector positions past the
  end, \<open>getTerm\<close> and \<open>truncate\<close> do nothing useful and the log stays exactly as it was.
\<close>

theorem handleAppendEntries_keeps_conflict:
  assumes "disk_ok n" and "log_wf (log n)" and "currentTerm n \<le> ae_term args"
    and "matches_previous args n" and "ae_prevLogIndex args < ae_prevLogIndex args + 1"
    and "length (Entries (log n)) \<le> unat (ae_prevLogIndex args + 1)"
    and "unat (ae_prevLogIndex args) + length (ae_entries args) \<le> last_nat (log n)"
    and "ae_leaderCommit args \<le> commitIndex n"
  shows "\<exists>reply n'. handleAppendEntries now args n = (Inr reply, n') \<and> aer_success reply \<and> log n' = log n"
proof -
  from assms(1,3) obtain m where m: "handleAppendEntries now args n = process_entries now args m"
    "disk_ok m" "log m = log n" "commitIndex m = commitIndex n" "matches_previous args m = matches_previous args n"
    by (rule handleAppendEntries_current) blast
  let ?k = "resetElectionTimer now (m\<lparr>currentLeaderId := ae_leaderId args\<rparr>)"
  let ?s = "store_entries args ?k"
  have "unat (ae_prevLogIndex args + 1) = Suc (unat (ae_prevLogIndex args))"
    using assms(5) by (rule unat_plus1_less)
  with append_entries_loop_beyond [OF assms(2,6)] assms(7)
  have "append_entries_loop (ae_prevLogIndex args + 1) (ae_entries args) (getLastIndex (log n)) (log n) = (Inr (), log n)"
    by simp
  then have s: "fst ?s = Inr ()" "log (snd ?s) = log n" "commitIndex (snd ?s) = commitIndex n"
    using m by (simp_all add: store_entries_def)
  from s(3) assms(8) have "\<not> commitIndex (snd ?s) < ae_leaderCommit args" by (simp only: not_less)
  then have "advance_commit args (snd ?s) = (Inr (), snd ?s)" by (simp only: advance_commit_def if_False)
  moreover have "check_previous args ?k = None"
    using assms(4) m(5) by (simp add: check_previous_None matches_previous_def)
  ultimately show ?thesis using m(1) s by (simp add: process_entries_def Let_def)
qed

text \<open>
  The follower holds 2 and 3 in term 1 above a snapshot at 2; the leader's entry 3 is of term 3.
\<close>

theorem handleAppendEntries_keeps_conflict_witness:
  "\<exists>n reply n'. log_map (log n) 3 = Some (sample_entry 3 1) \<and>
    handleAppendEntries 5 \<lparr>ae_term = 3, ae_leaderId = 2, ae_prevLogIndex = 1, ae_prevLogTerm = 1,
      ae_entries = [sample_entry 2 1, sample_entry 3 3], ae_leaderCommit = 0\<rparr> n = (Inr reply, n') \<and>
    aer_success reply \<and> log_map (log n') 3 = Some (sample_entry 3 1)"
proof -
  let ?l = "\<lparr>Entries = [sample_entry 2 1, sample_entry 3 1], log_snapshotIndex = 2, log_snapshotTerm = 1\<rparr>"
  let ?n = "sample_node\<lparr>log := ?l\<rparr>"
  let ?a = "\<lparr>ae_term = 3, ae_leaderId = 2, ae_prevLogIndex = 1, ae_prevLogTerm = 1,
      ae_entries = [sample_entry 2 1, sample_entry 3 3], ae_leaderCommit = 0\<rparr>"
  have "log_wf ?l" by (simp add: log_wf_consecutive sample_entry_def)
  moreover have "matches_previous ?a ?n"
    by (simp add: matches_previous_def getTerm_def getLastIndex_def sample_entry_def)
  ultimately obtain reply n' where "handleAppendEntries 5 ?a ?n = (Inr reply, n')" "aer_success reply" "log n' = ?l"
    using handleAppendEntries_keeps_conflict [of ?n ?a 5] by (auto simp: last_nat_def)
  moreover have "log_map ?l 3 = Some (sample_entry 3 1)"
    by (simp add: log_map_def last_nat_def)
  ultimately show ?thesis by (intro exI [of _ ?n] exI [of _ reply] exI [of _ n']) simp
qed

text \<open>
  After a compaction a follower also refuses entries it could accept: once the previous index
  lies past the end of the shortened vector, the check on its term reads 0 and a request that
  names the right term is rejected.
\<close>

theorem handleAppendEntries_rejects_after_compaction:
  assumes "disk_ok n" and "currentTerm n \<le> ae_term args"
    and "length (Entries (log n)) \<le> unat (ae_prevLogIndex args)"
    and "ae_prevLogIndex args \<noteq> 0" and "ae_prevLogTerm args \<noteq> 0"
  shows "\<exists>reply n'. handleAppendEntries now args n = (Inr reply, n') \<and> \<not> aer_success reply \<and> log n' = log n"
proof -
  from assms(1,2) obtain m where m: "handleAppendEntries now args n = process_entries now args m" "log m = log n"
    by (rule handleAppendEntries_current) blast
  let ?k = "resetElectionTimer now (m\<lparr>currentLeaderId := ae_leaderId args\<rparr>)"
  have "\<not> matches_previous args ?k"
    using assms(3-5) m(2) by (auto simp: matches_previous_def getTerm_def)
  then obtain reply where r: "check_previous args ?k = Some reply" using check_previous_None [of args ?k] by auto
  moreover from check_previous_Some [OF r] have "\<not> aer_success reply" by simp
  ultimately show ?thesis using m by (simp add: process_entries_def Let_def)
qed

theorem handleAppendEntries_rejects_after_compaction_witness:
  "log_map (discardEntriesUpTo 2 1 sample_log) 3 = Some (sample_entry 3 2) \<and>
   (\<exists>reply n'. handleAppendEntries 5 \<lparr>ae_term = 2, ae_leaderId = 2, ae_prevLogIndex = 3, ae_prevLogTerm = 2,
      ae_entries = [], ae_leaderCommit = 0\<rparr> (sample_node\<lparr>log := discardEntriesUpTo 2 1 sample_log\<rparr>) = (Inr reply, n') \<and>
      \<not> aer_success reply \<and> log n' = discardEntriesUpTo 2 1 sample_log)"
proof
  show "log_map (discardEntriesUpTo 2 1 sample_log) 3 = Some (sample_entry 3 2)"
    by (simp add: sample_compacted sample_entry_def)
  have "length (Entries (discardEntriesUpTo 2 1 sample_log)) = 2" by (simp add: sample_compacted_entries)
  then show "\<exists>reply n'. handleAppendEntries 5 \<lparr>ae_term = 2, ae_leaderId = 2, ae_prevLogIndex = 3, ae_prevLogTerm = 2,
      ae_entries = [], ae_leaderCommit = 0\<rparr> (sample_node\<lparr>log := discardEntriesUpTo 2 1 sample_log\<rparr>) = (Inr reply, n') \<and>
      \<not> aer_success reply \<and> log n' = discardEntriesUpTo 2 1 sample_log"
    using handleAppendEntries_rejects_after_compaction
      [of "sample_node\<lparr>log := discardEntriesUpTo 2 1 sample_log\<rparr>"
        "\<lparr>ae_term = 2, ae_leaderId = 2, ae_prevLogIndex = 3, ae_prevLogTerm = 2, ae_entries = [], ae_leaderCommit = 0\<rparr>" 5]
    by simp
qed

end
