(* ===== verification/Raft_Service.thy ===== *)
theory Raft_Service
  imports Raft_Node_Laws
begin

text \<open>
  What a node does for its clients: replay of the committed commands with exactly-once
  filtering, client requests, snapshots in both directions, and a restart from disk. The abstract
  state of the service is a pair of maps: the last sequence number applied for each client, and
  the value of each key.
\<close>

section \<open>The abstract service\<close>

type_synonym service = "(u64 \<rightharpoonup> u64) \<times> (string \<rightharpoonup> string)"

definition exec_once :: "command \<Rightarrow> service \<Rightarrow> service" where
  "exec_once cmd = (\<lambda>(seen, m).
     let meta = command_meta cmd
     in if (case seen (clientId meta) of Some s \<Rightarrow> sequenceNum meta \<le> s | None \<Rightarrow> False) then (seen, m)
        else (seen(clientId meta \<mapsto> sequenceNum meta), exec_map cmd m))"

text \<open>The service a node provides, and the commands of a list of entries.\<close>

definition service_of :: "raft_node \<Rightarrow> service" where
  "service_of n = (lastAppliedSeq n, \<lambda>k. Get k (kvStore n))"

definition decode_commands :: "log_entry list \<Rightarrow> command list" where
  "decode_commands es = concat (map (\<lambda>e. case deserialize (command_data e) of Inl x \<Rightarrow> [] | Inr c \<Rightarrow> [c]) es)"

lemma exec_command_refines:
  "kv_wf kv \<Longrightarrow> kv_wf (exec_command c kv) \<and> (\<lambda>k. Get k (exec_command c kv)) = exec_map c (\<lambda>k. Get k kv)"
  unfolding exec_command_def by (rule kv.exec_refines)

lemma apply_command_refines:
  "kv_wf (kvStore n) \<Longrightarrow>
     kv_wf (kvStore (apply_command c n)) \<and> service_of (apply_command c n) = exec_once c (service_of n)"
  using exec_command_refines [of "kvStore n" c]
  by (simp add: apply_command_def service_of_def exec_once_def Let_def split: option.split)

lemma apply_entry_commands: "apply_entry e n = fold apply_command (decode_commands [e]) n"
  by (simp add: apply_entry_def decode_commands_def split: sum.split)

lemma fold_apply_entry_commands: "fold apply_entry es n = fold apply_command (decode_commands es) n"
proof (induction es arbitrary: n)
  case (Cons e es)
  have "decode_commands (e # es) = decode_commands [e] @ decode_commands es" by (simp add: decode_commands_def)
  with Cons show ?case by (simp add: apply_entry_commands)
qed (simp add: decode_commands_def)

lemma fold_apply_command_refines:
  "kv_wf (kvStore n) \<Longrightarrow>
     kv_wf (kvStore (fold apply_command cs n)) \<and>
     service_of (fold apply_command cs n) = fold exec_once cs (service_of n)"
  by (induction cs arbitrary: n) (simp_all add: apply_command_refines)

lemma service_of_lastApplied [simp]:
  "service_of (n\<lparr>lastApplied := a\<rparr>) = service_of n" "service_of (n\<lparr>commitIndex := c\<rparr>) = service_of n"
  by (simp_all add: service_of_def)

text \<open>
  C16. Applying the committed entries is replay: when every entry between \<open>lastApplied\<close> and
  \<open>commitIndex\<close> is in the log, the loop ends without an exception at \<open>lastApplied = commitIndex\<close>,
  and the service (keys and client table) is the one that the commands of these entries build, each
  executed at most once per client sequence number.
\<close>

theorem applyCommittedEntries_replays:
  assumes "log_wf (log n)" and "{unat (lastApplied n)<..unat (commitIndex n)} \<subseteq> dom (log_map (log n))"
    and "kv_wf (kvStore n)"
  shows "\<exists>n'. applyCommittedEntries n = (Inr (), n') \<and>
    lastApplied n' = max (lastApplied n) (commitIndex n) \<and> kv_wf (kvStore n') \<and>
    service_of n' = fold exec_once
      (decode_commands (entries_between (log n) (unat (lastApplied n)) (unat (commitIndex n)))) (service_of n)"
  using applyCommittedEntries_fold [OF assms(1,2)] fold_apply_command_refines [OF assms(3)]
  by (simp add: fold_apply_entry_commands)

definition put_entry :: "u64 \<Rightarrow> u64 \<Rightarrow> u64 \<Rightarrow> string \<Rightarrow> string \<Rightarrow> log_entry" where
  "put_entry i client seq key value =
     \<lparr>e_index = i, e_term = 1,
      command_data = command_image (AppendCommand \<lparr>clientId = client, sequenceNum = seq\<rparr> key value)\<rparr>"

text \<open>A client that retried its request has it in the log twice; the value is appended once.\<close>

definition retry_node :: raft_node where
  "retry_node = (initial_node 1 [2, 3] empty_kvstore 10000 (sconst 0) 0 0 0)
     \<lparr>log := \<lparr>Entries = [dummy_entry, put_entry 1 7 1 ''k'' ''v'', put_entry 2 7 1 ''k'' ''v''],
        log_snapshotIndex = 0, log_snapshotTerm = 0\<rparr>, commitIndex := 2\<rparr>"

lemma decode_put_entries:
  assumes "string_ok key" and "string_ok value"
  shows "decode_commands [put_entry 1 c s key value, put_entry 2 c s key value] =
    [AppendCommand \<lparr>clientId = c, sequenceNum = s\<rparr> key value, AppendCommand \<lparr>clientId = c, sequenceNum = s\<rparr> key value]"
proof -
  have "deserialize (command_image (AppendCommand \<lparr>clientId = c, sequenceNum = s\<rparr> key value) @ []) =
      Inr (AppendCommand \<lparr>clientId = c, sequenceNum = s\<rparr> key value)"
    using assms by (intro deserialize_image) simp
  then show ?thesis by (simp add: decode_commands_def put_entry_def)
qed

theorem applyCommittedEntries_replays_witness:
  "\<exists>n'. applyCommittedEntries retry_node = (Inr (), n') \<and> lastApplied n' = 2 \<and>
    service_of n' = ([7 \<mapsto> 1], [''k'' \<mapsto> ''v''])"
proof -
  have wf: "log_wf (log retry_node)"
    by (simp add: retry_node_def log_wf_consecutive dummy_entry_def put_entry_def)
  have init: "lastApplied retry_node = 0" "commitIndex retry_node = 2" "kvStore retry_node = empty_kvstore"
    "service_of retry_node = (Map.empty, Map.empty)"
    by (simp_all add: retry_node_def initial_node_def service_of_def Get_def empty_kvstore_def)
  have "last_nat (log retry_node) = 2" "log_snapshotIndex (log retry_node) = 0"
    by (simp_all add: retry_node_def last_nat_def)
  then have "{unat (lastApplied retry_node)<..unat (commitIndex retry_node)} \<subseteq> dom (log_map (log retry_node))"
    by (simp add: dom_log_map init)
  moreover have "entries_between (log retry_node) 0 2 = [put_entry 1 7 1 ''k'' ''v'', put_entry 2 7 1 ''k'' ''v'']"
    by (simp add: entries_between_def retry_node_def log_map_def last_nat_def upt_rec)
  ultimately show ?thesis
    using applyCommittedEntries_replays [of retry_node] wf
    by (auto simp: init decode_put_entries string_ok_def exec_once_def upd_append_def)
qed

section \<open>Retries\<close>

lemma apply_command_seen:
  "\<exists>s. lastAppliedSeq (apply_command c n) (clientId (command_meta c)) = Some s \<and> sequenceNum (command_meta c) \<le> s"
  by (auto simp: apply_command_def Let_def split: option.split)

lemma apply_command_seen_mono:
  assumes "lastAppliedSeq n i = Some s"
  shows "\<exists>s'. lastAppliedSeq (apply_command c n) i = Some s' \<and> s \<le> s'"
  using assms by (auto simp: apply_command_def Let_def split: option.split)

lemma fold_apply_command_seen_mono:
  "lastAppliedSeq n i = Some s \<Longrightarrow> \<exists>s'. lastAppliedSeq (fold apply_command cs n) i = Some s' \<and> s \<le> s'"
proof (induction cs arbitrary: n s)
  case (Cons c cs)
  from apply_command_seen_mono [OF Cons.prems, of c] obtain s1 where
    "lastAppliedSeq (apply_command c n) i = Some s1" "s \<le> s1" by blast
  with Cons.IH [of "apply_command c n" s1] show ?case by force
qed simp

lemma fold_apply_command_seen:
  assumes "c \<in> set cs"
  shows "\<exists>s. lastAppliedSeq (fold apply_command cs n) (clientId (command_meta c)) = Some s \<and>
    sequenceNum (command_meta c) \<le> s"
  using assms
proof (induction cs arbitrary: n)
  case (Cons d cs)
  show ?case
  proof (cases "c \<in> set cs")
    case False
    with Cons.prems have "d = c" by simp
    from apply_command_seen [of c n] obtain s where
      "lastAppliedSeq (apply_command c n) (clientId (command_meta c)) = Some s" "sequenceNum (command_meta c) \<le> s"
      by blast
    with fold_apply_command_seen_mono [of "apply_command c n" _ s cs] show ?thesis
      by (force simp: \<open>d = c\<close>)
  qed (use Cons.IH in simp)
qed simp

text \<open>
  C23. Exactly once: after any replay that contains a command, a later copy of it, or any older
  command of the same client, changes nothing, neither the store nor the client table.
\<close>

theorem retry_is_ignored:
  assumes "c \<in> set cs" and "clientId (command_meta d) = clientId (command_meta c)"
    and "sequenceNum (command_meta d) \<le> sequenceNum (command_meta c)"
  shows "apply_command d (fold apply_command cs n) = fold apply_command cs n"
proof -
  from fold_apply_command_seen [OF assms(1), of n] obtain s where
    "lastAppliedSeq (fold apply_command cs n) (clientId (command_meta c)) = Some s" "sequenceNum (command_meta c) \<le> s"
    by blast
  with assms(2,3) show ?thesis by (simp add: apply_command_def Let_def)
qed

theorem retry_is_ignored_witness:
  "apply_command (AppendCommand \<lparr>clientId = 7, sequenceNum = 1\<rparr> ''k'' ''v'')
     (fold apply_command [AppendCommand \<lparr>clientId = 7, sequenceNum = 1\<rparr> ''k'' ''v'',
        PutCommand \<lparr>clientId = 8, sequenceNum = 1\<rparr> ''k'' ''w''] sample_node) =
   fold apply_command [AppendCommand \<lparr>clientId = 7, sequenceNum = 1\<rparr> ''k'' ''v'',
        PutCommand \<lparr>clientId = 8, sequenceNum = 1\<rparr> ''k'' ''w''] sample_node"
  by (rule retry_is_ignored [of "AppendCommand \<lparr>clientId = 7, sequenceNum = 1\<rparr> ''k'' ''v''"]) simp_all


section \<open>Client requests\<close>

lemma serialize_error_exception: "serialize c = Inl e \<Longrightarrow> is_exception e \<and> \<not> command_ok c"
  by (auto simp: serialize_image split: if_splits)

lemma handleClientRequest_append:
  assumes "disk_ok n" and "log_wf (log n)" and "last_nat (log n) < 18446744073709551615"
    and "role n = LEADER" and "\<not> already_applied request n" and "command_ok (req_command request)"
  shows "\<exists>reply n' e. handleClientRequest request n = (Inr reply, n') \<and> cr_success reply \<and>
    log_wf (log n') \<and> last_nat (log n') = Suc (last_nat (log n)) \<and>
    log_map (log n') = (log_map (log n))(Suc (last_nat (log n)) \<mapsto> e) \<and>
    e_term e = currentTerm n \<and> deserialize (command_data e) = Inr (req_command request) \<and>
    persisted n' \<and> commitIndex n' = commitIndex n \<and> service_of n' = service_of n \<and>
    log_append e (log n) = Inr (log n')"
proof -
  let ?e = "\<lparr>e_index = getLastIndex (log n) + 1, e_term = currentTerm n,
    command_data = command_image (req_command request)\<rparr>"
  have "unat (e_index ?e) = Suc (last_nat (log n))"
    using assms(2,3) by (simp add: word_conv getLastIndex_nat)
  then obtain l where l: "log_append ?e (log n) = Inr l"
    using log_append_Inr [OF assms(2,3)] by blast
  have "serialize (req_command request) = Inr (command_image (req_command request))"
    using assms(6) by (simp add: serialize_image)
  moreover obtain n1 where n1: "persistState (n\<lparr>log := l\<rparr>) = (Inr (), n1)"
    using persistState_ok(1) [of "n\<lparr>log := l\<rparr>"] assms(1) by (cases "persistState (n\<lparr>log := l\<rparr>)") simp
  ultimately have run: "handleClientRequest request n =
    (Inr \<lparr>cr_success = True, cr_value = [], cr_isLeader = True, cr_leaderId = currentLeaderId n, cr_error = []\<rparr>, n1)"
    using assms(4,5) l by (simp add: handleClientRequest_def Let_def split: unit.split)
  have "log n1 = l" "commitIndex n1 = commitIndex n" "persisted n1" "service_of n1 = service_of n"
    using persistState_frame [of "n\<lparr>log := l\<rparr>"] persistState_persisted [of "n\<lparr>log := l\<rparr>"] assms(1)
    by (simp_all add: n1 service_of_def)
  moreover have "deserialize (command_data ?e) = Inr (req_command request)"
    using deserialize_image [OF assms(6), of "[]"] by simp
  ultimately show ?thesis
    using log_append_wf [OF assms(2,3) l] run l by (intro exI [of _ ?e] exI conjI) (assumption | simp)+
qed

text \<open>
  C21. A request that the leader has not seen is appended to its log and saved before the reply:
  the log gains exactly one entry, at the next index and of the current term, whose bytes decode to
  the command. Success is reported at that moment: neither the commit index nor the service moved.
\<close>

theorem handleClientRequest_appends:
  assumes "disk_ok n" and "log_wf (log n)" and "last_nat (log n) < 18446744073709551615"
    and "role n = LEADER" and "\<not> already_applied request n" and "command_ok (req_command request)"
  shows "\<exists>reply n' e. handleClientRequest request n = (Inr reply, n') \<and> cr_success reply \<and>
    log_wf (log n') \<and> last_nat (log n') = Suc (last_nat (log n)) \<and>
    log_map (log n') = (log_map (log n))(Suc (last_nat (log n)) \<mapsto> e) \<and>
    e_term e = currentTerm n \<and> deserialize (command_data e) = Inr (req_command request) \<and>
    persisted n' \<and> commitIndex n' = commitIndex n \<and> service_of n' = service_of n"
  using handleClientRequest_append [OF assms] by blast

definition sample_request :: client_request where
  "sample_request = \<lparr>req_command = PutCommand \<lparr>clientId = 7, sequenceNum = 1\<rparr> ''k'' ''v'',
     req_clientId = 7, req_sequenceNum = 1\<rparr>"

theorem handleClientRequest_appends_witness:
  "\<exists>reply n' e. handleClientRequest sample_request (sample_node\<lparr>role := LEADER\<rparr>) = (Inr reply, n') \<and>
    log_map (log n') 4 = Some e \<and> e_term e = 2 \<and>
    deserialize (command_data e) = Inr (PutCommand \<lparr>clientId = 7, sequenceNum = 1\<rparr> ''k'' ''v'') \<and> commitIndex n' = 0"
  using handleClientRequest_appends [of "sample_node\<lparr>role := LEADER\<rparr>" sample_request]
  by (force simp: sample_request_def already_applied_def string_ok_def)

text \<open>
  C22. A request that is not for this node, was already applied, or cannot be encoded leaves the
  node untouched. It succeeds only as an acknowledged duplicate, and then a \<open>GET\<close> reads the store.
\<close>

theorem handleClientRequest_no_effect:
  assumes "role n \<noteq> LEADER \<or> already_applied request n \<or> \<not> command_ok (req_command request)"
  shows "\<exists>reply. handleClientRequest request n = (Inr reply, n) \<and>
    (cr_success reply \<longleftrightarrow> role n = LEADER \<and> already_applied request n) \<and>
    (cr_success reply \<or> cr_error reply \<noteq> []) \<and>
    (\<forall>m key. cr_success reply \<and> req_command request = GetCommand m key \<longrightarrow>
       cr_value reply = (case Get key (kvStore n) of Some v \<Rightarrow> v | None \<Rightarrow> []))"
  using assms by (auto simp: handleClientRequest_def Let_def serialize_image)

theorem handleClientRequest_no_effect_witness:
  "\<exists>reply. handleClientRequest sample_request sample_node = (Inr reply, sample_node) \<and> \<not> cr_success reply"
  using handleClientRequest_no_effect [of sample_node sample_request] by auto


section \<open>Snapshots\<close>

lemma persistState_persistence [simp]:
  "disk_ok n \<Longrightarrow> persistState n = (Inr (), n') \<Longrightarrow>
     currentTerm n' = currentTerm n \<and> log n' = log n \<and> lastApplied n' = lastApplied n \<and>
     commitIndex n' = commitIndex n \<and> kvStore n' = kvStore n \<and> lastAppliedSeq n' = lastAppliedSeq n \<and>
     snapshotData n' = snapshotData n \<and> snapshotIndex n' = snapshotIndex n \<and>
     snapshotTerm n' = snapshotTerm n \<and> persisted n'"
  using persistState_frame [of n] persistState_persisted [of n] by simp

lemma persistState_obtain:
  assumes "disk_ok n"
  obtains n' where "persistState n = (Inr (), n')" and "currentTerm n' = currentTerm n" and "log n' = log n"
    and "lastApplied n' = lastApplied n" and "commitIndex n' = commitIndex n" and "kvStore n' = kvStore n"
    and "lastAppliedSeq n' = lastAppliedSeq n" and "snapshotData n' = snapshotData n"
    and "snapshotIndex n' = snapshotIndex n" and "snapshotTerm n' = snapshotTerm n" and "persisted n'"
  using persistState_eq [OF assms] persistState_frame [of n] persistState_persisted [OF assms] by blast

lemma receive_snapshot_installs:
  assumes "disk_ok n" and "log_wf (log n)" and "kv_wf kv" and "kv_fits kv" and "is_data args = takeSnapshot kv"
  shows "\<exists>n'. receive_snapshot now args n = (Inr \<lparr>isr_term = currentTerm n\<rparr>, n') \<and>
    currentTerm n' = currentTerm n \<and> service_of n' = (lastAppliedSeq n, \<lambda>key. Get key kv) \<and>
    lastApplied n' = max (is_lastIncludedIndex args) (lastApplied n) \<and>
    commitIndex n' = max (is_lastIncludedIndex args) (commitIndex n) \<and>
    log n' = discardEntriesUpTo (is_lastIncludedIndex args) (is_lastIncludedTerm args) (log n) \<and> persisted n'"
proof -
  let ?i = "is_lastIncludedIndex args"
  let ?k = "(resetElectionTimer now n)\<lparr>snapshotData := is_data args, snapshotIndex := ?i,
    snapshotTerm := is_lastIncludedTerm args, log := discardEntriesUpTo ?i (is_lastIncludedTerm args) (log n)\<rparr>"
  obtain kv' where kv': "installSnapshot (is_data args) (kvStore ?k) = Inr kv'" "\<forall>key. Get key kv' = Get key kv"
    using installSnapshot_takeSnapshot [OF assms(3,4)] assms(5) by metis
  let ?f = "?k\<lparr>kvStore := kv', lastApplied := max ?i (lastApplied n), commitIndex := max ?i (commitIndex n)\<rparr>"
  have "disk_ok ?f" using assms(1) by simp
  then obtain n' where n': "persistState ?f = (Inr (), n')" "currentTerm n' = currentTerm ?f" "log n' = log ?f"
    "lastApplied n' = lastApplied ?f" "commitIndex n' = commitIndex ?f" "kvStore n' = kvStore ?f"
    "lastAppliedSeq n' = lastAppliedSeq ?f" "persisted n'"
    by (rule persistState_obtain)
  then have "receive_snapshot now args n = (Inr \<lparr>isr_term = currentTerm n\<rparr>, n')"
    using kv'(1) by (simp add: receive_snapshot_def Let_def)
  with n'(2-) kv'(2) show ?thesis by (simp add: service_of_def)
qed

lemma handleInstallSnapshot_current:
  assumes "disk_ok n" and "currentTerm n \<le> is_term args"
  obtains m where "handleInstallSnapshot now args n = receive_snapshot now args m"
    "disk_ok m" "log m = log n" "currentTerm m = is_term args" "lastAppliedSeq m = lastAppliedSeq n"
    "lastApplied m = lastApplied n" "commitIndex m = commitIndex n"
proof
  let ?m = "if currentTerm n < is_term args then snd (becomeFollower (is_term args) n) else n"
  show "handleInstallSnapshot now args n = receive_snapshot now args ?m"
    using assms by (simp add: handleInstallSnapshot_def not_less [symmetric])
  show "disk_ok ?m" "log ?m = log n" "currentTerm ?m = is_term args" "lastAppliedSeq ?m = lastAppliedSeq n"
    "lastApplied ?m = lastApplied n" "commitIndex ?m = commitIndex n"
    using assms by auto
qed

text \<open>
  C24. A current \<open>InstallSnapshot\<close> with the snapshot of a store makes the service that store, key
  for key, whatever index it names: the log forgets exactly the entries it covers,
  \<open>lastApplied\<close> and \<open>commitIndex\<close> only move up, the client table stays the old one (it is not part
  of the snapshot), and the result is on disk before the reply.
\<close>

theorem handleInstallSnapshot_installs:
  assumes "disk_ok n" and "log_wf (log n)" and "currentTerm n \<le> is_term args"
    and "kv_wf kv" and "kv_fits kv" and "is_data args = takeSnapshot kv"
  shows "\<exists>n'. handleInstallSnapshot now args n = (Inr \<lparr>isr_term = is_term args\<rparr>, n') \<and>
    currentTerm n' = is_term args \<and> service_of n' = (lastAppliedSeq n, \<lambda>key. Get key kv) \<and>
    lastApplied n' = max (is_lastIncludedIndex args) (lastApplied n) \<and>
    commitIndex n' = max (is_lastIncludedIndex args) (commitIndex n) \<and>
    log_wf (log n') \<and> log_snapshotIndex (log n') = max (is_lastIncludedIndex args) (log_snapshotIndex (log n)) \<and>
    log_map (log n') = log_map (log n) |` {unat (is_lastIncludedIndex args)<..} \<and> persisted n'"
proof -
  from assms(1,3) obtain m where m: "handleInstallSnapshot now args n = receive_snapshot now args m"
    "disk_ok m" "log m = log n" "currentTerm m = is_term args" "lastAppliedSeq m = lastAppliedSeq n"
    "lastApplied m = lastApplied n" "commitIndex m = commitIndex n"
    by (rule handleInstallSnapshot_current)
  have "log_wf (log m)" using m(3) assms(2) by simp
  from receive_snapshot_installs [OF m(2) this assms(4-6), of now] m
    discardEntriesUpTo_wf [OF assms(2), of "is_lastIncludedIndex args" "is_lastIncludedTerm args"]
  show ?thesis by auto
qed

definition sample_store :: kvstore where
  "sample_store = \<lparr>kvMap = [(''k'', ''old'')]\<rparr>"

lemma sample_store_ok [simp]: "kv_wf sample_store" "kv_fits sample_store" "Get key sample_store = [''k'' \<mapsto> ''old''] key"
  by (simp_all add: sample_store_def kv_wf_def kv_fits_def Get_map_of)

definition snapshot_message :: "u64 \<Rightarrow> install_snapshot_args" where
  "snapshot_message i = \<lparr>is_term = 2, is_leaderId = 2, is_lastIncludedIndex = i, is_lastIncludedTerm = 1,
     is_data = takeSnapshot sample_store\<rparr>"

theorem handleInstallSnapshot_installs_witness:
  "\<exists>n'. handleInstallSnapshot 5 (snapshot_message 2) sample_node = (Inr \<lparr>isr_term = 2\<rparr>, n') \<and>
    Get ''k'' (kvStore n') = Some ''old'' \<and> lastApplied n' = 2 \<and> persisted n'"
  using handleInstallSnapshot_installs [of sample_node "snapshot_message 2" sample_store 5]
  by (auto simp: snapshot_message_def service_of_def fun_eq_iff)

text \<open>
  There is no guard against a snapshot older than the state it replaces: when a delayed
  \<open>InstallSnapshot\<close> names an index below \<open>lastApplied\<close>, the keys go back to the old store while
  \<open>lastApplied\<close> stays, so the commands applied in between are gone and are never applied again.
\<close>

theorem stale_snapshot_rolls_back:
  assumes "disk_ok n" and "log_wf (log n)" and "currentTerm n \<le> is_term args"
    and "kv_wf kv" and "kv_fits kv" and "is_data args = takeSnapshot kv"
    and "is_lastIncludedIndex args < lastApplied n" and "commitIndex n \<le> lastApplied n"
  shows "\<exists>reply n'. handleInstallSnapshot now args n = (Inr reply, n') \<and>
    lastApplied n' = lastApplied n \<and> (\<forall>key. Get key (kvStore n') = Get key kv) \<and>
    applyCommittedEntries n' = (Inr (), n')"
proof -
  from assms(1,3) obtain m where m: "handleInstallSnapshot now args n = receive_snapshot now args m"
    "disk_ok m" "log m = log n" "currentTerm m = is_term args" "lastAppliedSeq m = lastAppliedSeq n"
    "lastApplied m = lastApplied n" "commitIndex m = commitIndex n"
    by (rule handleInstallSnapshot_current)
  have "log_wf (log m)" using m(3) assms(2) by simp
  from receive_snapshot_installs [OF m(2) this assms(4-6), of now] m(1,6,7) obtain n' where n':
    "handleInstallSnapshot now args n = (Inr \<lparr>isr_term = currentTerm m\<rparr>, n')"
    "service_of n' = (lastAppliedSeq m, \<lambda>key. Get key kv)"
    "lastApplied n' = max (is_lastIncludedIndex args) (lastApplied n)"
    "commitIndex n' = max (is_lastIncludedIndex args) (commitIndex n)" by auto
  have "lastApplied n' = lastApplied n"
    using less_imp_le [OF assms(7)] by (simp only: n'(3) max_absorb2)
  moreover have "\<not> lastApplied n' < commitIndex n'"
    unfolding not_less \<open>lastApplied n' = lastApplied n\<close> n'(4)
    by (rule max.boundedI [OF less_imp_le [OF assms(7)] assms(8)])
  moreover have "applyCommittedEntries n' = (Inr (), n')"
    using calculation(2) by (subst applyCommittedEntries.simps) (simp only: if_False)
  moreover have "\<forall>key. Get key (kvStore n') = Get key kv"
    using n'(2) by (simp add: service_of_def fun_eq_iff)
  ultimately show ?thesis using n'(1) by blast
qed

theorem stale_snapshot_rolls_back_witness:
  "\<exists>n reply n'. Get ''k'' (kvStore n) = Some ''new'' \<and> lastApplied n = 3 \<and>
    handleInstallSnapshot 5 (snapshot_message 2) n = (Inr reply, n') \<and>
    lastApplied n' = 3 \<and> Get ''k'' (kvStore n') = Some ''old'' \<and> applyCommittedEntries n' = (Inr (), n')"
proof -
  let ?n = "sample_node\<lparr>lastApplied := 3, commitIndex := 3, kvStore := \<lparr>kvMap = [(''k'', ''new'')]\<rparr>\<rparr>"
  have "Get ''k'' (kvStore ?n) = Some ''new''" by (simp add: Get_map_of)
  moreover have "\<exists>reply n'. handleInstallSnapshot 5 (snapshot_message 2) ?n = (Inr reply, n') \<and>
    lastApplied n' = lastApplied ?n \<and> (\<forall>key. Get key (kvStore n') = Get key sample_store) \<and>
    applyCommittedEntries n' = (Inr (), n')"
    by (rule stale_snapshot_rolls_back) (simp_all add: snapshot_message_def)
  ultimately show ?thesis by (intro exI [of _ ?n]) auto
qed


text \<open>
  C25. Taking a snapshot at an applied index saves the store as it is, forgets exactly the entries
  up to the index and changes nothing a client can see. The term recorded for the snapshot is read
  through the unshifted \<open>getTerm\<close>: it is the term of entry \<open>snapshotIndex + i\<close>, or 0, and so right
  for the first snapshot of a log only.
\<close>

theorem takeNodeSnapshot_compacts:
  assumes "disk_ok n" and "log_wf (log n)" and "log_snapshotIndex (log n) < i" and "i \<le> lastApplied n"
  shows "\<exists>n'. takeNodeSnapshot i n = (Inr (), n') \<and> snapshotData n' = takeSnapshot (kvStore n) \<and>
    service_of n' = service_of n \<and> lastApplied n' = lastApplied n \<and> commitIndex n' = commitIndex n \<and>
    log_wf (log n') \<and> log_snapshotIndex (log n') = i \<and>
    log_map (log n') = log_map (log n) |` {unat i<..} \<and> persisted n' \<and>
    log_snapshotTerm (log n') =
      (case log_map (log n) (unat (log_snapshotIndex (log n)) + unat i) of Some e \<Rightarrow> e_term e | None \<Rightarrow> 0)"
proof -
  let ?m = "n\<lparr>snapshotData := takeSnapshot (kvStore n), snapshotIndex := i, snapshotTerm := getTerm (log n) i,
    log := discardEntriesUpTo i (getTerm (log n) i) (log n)\<rparr>"
  have "disk_ok ?m" using assms(1) by simp
  then obtain n' where n': "persistState ?m = (Inr (), n')" "log n' = log ?m" "kvStore n' = kvStore ?m"
    "lastApplied n' = lastApplied ?m" "commitIndex n' = commitIndex ?m" "snapshotData n' = snapshotData ?m"
    "lastAppliedSeq n' = lastAppliedSeq ?m" "persisted n'"
    by (rule persistState_obtain)
  from assms(3) have "0 < i" using le_less_trans word_zero_le by blast
  then have trm: "getTerm (log n) i =
      (case log_map (log n) (unat (log_snapshotIndex (log n)) + unat i) of Some e \<Rightarrow> e_term e | None \<Rightarrow> 0)"
    by (rule getTerm_log_map [OF assms(2)])
  have le: "log_snapshotIndex (log n) \<le> i" "\<not> i \<le> log_snapshotIndex (log n)" using assms(3) by auto
  then have "takeNodeSnapshot i n = (Inr (), n')"
    using assms(4) n'(1) by (simp add: takeNodeSnapshot_def getSnapshotIndex_def Let_def not_less [symmetric])
  moreover have "log_snapshotTerm (discardEntriesUpTo i (getTerm (log n) i) (log n)) = getTerm (log n) i"
    using le by (simp add: discardEntriesUpTo_def Let_def)
  ultimately show ?thesis
    using n'(2-) discardEntriesUpTo_wf [OF assms(2), of i "getTerm (log n) i"] trm le
    by (simp add: service_of_def max_absorb1)
qed

text \<open>Compacted at 2, a second snapshot at 3 records term 0 for an entry of term 2.\<close>

theorem takeNodeSnapshot_compacts_witness:
  "\<exists>n n'. log_map (log n) 3 = Some (sample_entry 3 2) \<and> takeNodeSnapshot 3 n = (Inr (), n') \<and>
    log_snapshotIndex (log n') = 3 \<and> log_snapshotTerm (log n') = 0"
proof -
  let ?n = "sample_node\<lparr>log := discardEntriesUpTo 2 1 sample_log, lastApplied := 3\<rparr>"
  have "log_map (log ?n) 3 = Some (sample_entry 3 2)" by (simp add: sample_compacted sample_entry_def)
  moreover have "log_map (log ?n) 5 = None" by (simp add: sample_compacted)
  moreover from takeNodeSnapshot_compacts [of ?n 3] obtain n' where "takeNodeSnapshot 3 ?n = (Inr (), n')"
    "log_snapshotIndex (log n') = 3"
    "log_snapshotTerm (log n') = (case log_map (log ?n) 5 of Some e \<Rightarrow> e_term e | None \<Rightarrow> 0)"
    by (auto simp: sample_compacted)
  ultimately show ?thesis by (intro exI [of _ ?n] exI [of _ n']) simp
qed

section \<open>Starting and restarting\<close>

lemma uniform_int_range: "a \<le> b \<Longrightarrow> a \<le> uniform_int a b raw \<and> uniform_int a b raw \<le> b"
  using pos_mod_bound [of "b - a + 1" "int raw"] pos_mod_sign [of "b - a + 1" "int raw"]
  by (simp add: uniform_int_def)

lemma index_peers_other: "p \<notin> set ps \<Longrightarrow> index_peers i ps m p = m p"
  by (induction i ps m rule: index_peers.induct) auto

lemma index_peers_nth:
  "distinct ps \<Longrightarrow> k < length ps \<Longrightarrow> index_peers i ps m (ps ! k) = Some (i + k)"
proof (induction i ps m arbitrary: k rule: index_peers.induct)
  case (2 i p ps m)
  show ?case
  proof (cases k)
    case 0
    with "2.prems" show ?thesis by (simp add: index_peers_other)
  next
    case (Suc j)
    with "2.prems" "2.IH" [of j] show ?thesis by (simp del: fun_upd_apply)
  qed
qed simp

lemma RaftNode_fresh:
  assumes "files disk (dir @ ''/raft_state.dat'') = None"
  shows "RaftNode nid peers kv threshold dir disk rng j1 j2 now =
    (Inr (), (resetElectionTimer now (initial_node nid peers kv threshold rng j1 j2 now))
      \<lparr>persistence := (if dir = [] then None else Some (new_persistence dir disk)),
       nextIndex := replicate (length peers) 1, matchIndex := replicate (length peers) 0,
       peerIdToIndexMap := index_peers 0 peers Map.empty, running := True\<rparr>)"
  using assms
  by (simp add: RaftNode_def Let_def restoreState_def initial_node_def loadState_def persistence_exists_def
      getStatePath_def new_persistence_def resetElectionTimer_def)

text \<open>
  A node that finds no state file starts as a follower of term 0 that voted for nobody, with an
  empty log, its arrays sized and indexed by its peers, and an election timeout between 150 ms and
  300 ms.
\<close>

theorem RaftNode_fresh_start:
  assumes "files disk (dir @ ''/raft_state.dat'') = None" and "distinct peers"
  shows "\<exists>n. RaftNode nid peers kv threshold dir disk rng j1 j2 now = (Inr (), n) \<and>
    role n = FOLLOWER \<and> currentTerm n = 0 \<and> votedFor n = 0 \<and> log n = new_log \<and> commitIndex n = 0 \<and>
    lastApplied n = 0 \<and> kvStore n = kv \<and> running n \<and> nextIndex n = replicate (length peers) 1 \<and>
    matchIndex n = replicate (length peers) 0 \<and>
    (\<forall>k < length peers. peerIdToIndexMap n (peers ! k) = Some k) \<and>
    150 \<le> electionTimeout n \<and> electionTimeout n \<le> 300"
  using assms(2) uniform_int_range [of 150 300 "shd rng"]
  by (simp add: RaftNode_fresh [OF assms(1)] resetElectionTimer_def initial_node_def index_peers_nth)

theorem RaftNode_fresh_start_witness:
  "\<exists>n. RaftNode 1 [2, 3] empty_kvstore 10000 ''data'' (fs sample_disk) (sconst 77) 9 9 0 = (Inr (), n) \<and>
    log n = new_log \<and> peerIdToIndexMap n 3 = Some 1"
  using RaftNode_fresh_start [of "fs sample_disk" "''data''" "[2, 3]" 1 empty_kvstore 10000 "sconst 77" 9 9 0]
  by (force simp: less_Suc_eq)


lemma restoreState_loaded:
  assumes "persistence n = Some p" and "loadState p [] (log n) = (Inr (Some s), l)" and "loaded_snapshot s = []"
  shows "restoreState n = (Inr (), n\<lparr>log := l, currentTerm := loaded_term s, votedFor := loaded_votedFor s,
    snapshotData := []\<rparr>)"
  using assms by (simp add: restoreState_def Let_def)

lemma restoreState_throws:
  assumes "persistence n = Some p" and "loadState p [] (log n) = (Inl e, l)"
  shows "restoreState n = (Inl e, n\<lparr>log := l\<rparr>)"
  using assms by (simp add: restoreState_def)

lemma constructor_restores_twice:
  assumes "stateDir p \<noteq> []" and "loadState p [] new_log = (Inr (Some s), l)" and "loaded_snapshot s = []"
    and "loadState p [] l = (Inl e, l)"
  shows "fst (RaftNode nid peers kv threshold (stateDir p) (fs p) rng j1 j2 now) = Inl e"
proof -
  let ?n = "(initial_node nid peers kv threshold rng j1 j2 now)\<lparr>persistence := Some p\<rparr>"
  have "log ?n = new_log" and p: "new_persistence (stateDir p) (fs p) = p"
    by (simp_all add: initial_node_def new_persistence_def)
  with restoreState_loaded [of ?n p s l] assms(2,3) have
    "restoreState ?n = (Inr (), ?n\<lparr>log := l, currentTerm := loaded_term s, votedFor := loaded_votedFor s, snapshotData := []\<rparr>)"
    by simp
  then show ?thesis
    using assms(1,4) by (simp add: RaftNode_def Let_def resetElectionTimer_def p restoreState_throws)
qed

text \<open>
  C37. A clean restart fails: when a node that never compacted its log but has at least one entry is
  destroyed (which saves it without an error) and constructed again on the same directory, the
  constructor throws, because it restores the state twice and the second \<open>loadState\<close> appends the
  saved entries after themselves.
\<close>

theorem restart_throws:
  assumes "disk_ok n" and "persistence n = Some p" and "stateDir p \<noteq> []"
    and "log_wf (log n)" and "uncompacted (log n)" and "log_fits (log n)" and "tl (Entries (log n)) \<noteq> []"
    and "last_nat (log n) < 18446744073709551615"
    and "snapshotData n = []" and "files (fs p) (getSnapshotPath p) = None"
  shows "\<exists>n' p' msg. destroy_node n = (Inr (), n') \<and> persistence n' = Some p' \<and>
    fst (RaftNode nid peers kv threshold (stateDir p') (fs p') rng j1 j2 now) = Inl (Logic_error msg)"
proof -
  let ?img = "state_image (currentTerm n) (votedFor n) (log n) (getSnapshotIndex (log n)) (getSnapshotTerm (log n))"
  have can: "can_open p" using assms(1,2) by (simp add: disk_ok_def)
  then obtain p' where p': "saveState (currentTerm n) (votedFor n) (log n) [] (getSnapshotIndex (log n))
      (getSnapshotTerm (log n)) p = (Inr (), p')"
    "can_open p'" "stateDir p' \<noteq> []" "files (fs p') (getStatePath p') = Some ?img"
    "files (fs p') (getSnapshotPath p') = None"
    using assms(3,10) by (auto simp: saveState_files can_open_def)
  have dest: "destroy_node n = (Inr (), n\<lparr>running := False, persistence := Some p'\<rparr>)"
    using assms(2,9) p'(1) by (simp add: destroy_node_def persistState_def)
  obtain l' where l': "append_all log_append (tl (Entries (log n))) new_log = (Inr (), l')"
    using restore_uncompacted [OF assms(4,5)] by blast
  have load: "loadState p' [] new_log = (Inr (Some \<lparr>loaded_term = currentTerm n, loaded_votedFor = votedFor n,
      loaded_snapshot = [], loaded_snapshotIndex = getSnapshotIndex (log n),
      loaded_snapshotTerm = getSnapshotTerm (log n)\<rparr>), l')"
    using loadState_saved [OF p'(2,3) assms(4,6) p'(4), of "[]" new_log] l' p'(5) by simp
  obtain msg where "loadState p' [] l' = (Inl (Logic_error msg), l')"
    using loadState_twice [OF p'(2,3) assms(4-8) p'(4) load] by blast
  with constructor_restores_twice [OF p'(3) load] have
    "fst (RaftNode nid peers kv threshold (stateDir p') (fs p') rng j1 j2 now) = Inl (Logic_error msg)"
    by simp
  with dest show ?thesis by (intro exI [of _ "n\<lparr>running := False, persistence := Some p'\<rparr>"]) auto
qed

theorem restart_throws_witness:
  "\<exists>n' p' msg. destroy_node sample_node = (Inr (), n') \<and> persistence n' = Some p' \<and>
    fst (RaftNode 1 [2, 3] empty_kvstore 10000 (stateDir p') (fs p') (sconst 0) 0 0 0) = Inl (Logic_error msg)"
  by (rule restart_throws [where p = sample_disk]) (simp_all add: sample_log_tail)

lemma restart_empty:
  assumes "can_open p" and "stateDir p \<noteq> []" and "files (fs p) (getSnapshotPath p) = None"
    and "files (fs p) (getStatePath p) = Some (state_image t v new_log si st)"
  shows "\<exists>n. RaftNode nid peers kv threshold (stateDir p) (fs p) rng j1 j2 now = (Inr (), n) \<and>
    currentTerm n = t \<and> votedFor n = v \<and> log n = new_log \<and> role n = FOLLOWER \<and> kvStore n = kv"
proof -
  have tail: "tl (Entries new_log) = []" and fits: "log_fits new_log"
    using serializeLog_image [OF log_wf_new] by (simp_all add: new_log_def log_fits_def max_vector_size_def)
  have load: "loadState p [] new_log = (Inr (Some \<lparr>loaded_term = t, loaded_votedFor = v, loaded_snapshot = [],
      loaded_snapshotIndex = si, loaded_snapshotTerm = st\<rparr>), new_log)"
    using loadState_saved [OF assms(1,2) log_wf_new fits assms(4), of "[]" new_log] assms(3) by (simp add: tail)
  let ?n = "(initial_node nid peers kv threshold rng j1 j2 now)\<lparr>persistence := Some p\<rparr>"
  have "log ?n = new_log" and p: "new_persistence (stateDir p) (fs p) = p"
    by (simp_all add: initial_node_def new_persistence_def)
  with restoreState_loaded [of ?n p _ new_log, OF _ _] load have
    "restoreState ?n = (Inr (), ?n\<lparr>log := new_log, currentTerm := t, votedFor := v, snapshotData := []\<rparr>)"
    by simp
  then show ?thesis
    using assms(2) load
    by (simp add: RaftNode_def Let_def resetElectionTimer_def p restoreState_loaded initial_node_def)
qed

end
