(* ===== verification/Raft_Leader.thy ===== *)
theory Raft_Leader
  imports Raft_Service
begin

text \<open>
  The active side of a node (\<open>src/raft/RaftNode.cpp\<close>): elections, replication to the followers, the
  commit rule and the two timer threads. A round of a timer thread holds \<open>stateMutex\<close> from its
  checks to its end, RPCs included, so it is one operation on the node and on the world \<open>'w\<close> that
  the transport acts on. The parts of the loops between two RPCs are definitions of their own
  (\<open>begin_election\<close>, \<open>on_vote_result\<close>, \<open>finish_election\<close>, \<open>prepare_replication\<close>,
  \<open>on_append_reply\<close>, \<open>on_snapshot_reply\<close>). An exception that leaves a timer thread ends the process.
\<close>

section \<open>The commit rule\<close>

definition replicationCount :: "u64 \<Rightarrow> raft_node \<Rightarrow> nat" where
  "replicationCount i n = 1 + length (filter (\<lambda>m. m \<ge> i) (take (length (peerIds n)) (matchIndex n)))"

definition majority :: "raft_node \<Rightarrow> nat" where
  "majority n = (length (peerIds n) + 1) div 2 + 1"

text \<open>The loop ends unless the last index is the largest 64-bit number, where \<open>n\<close> wraps to 0.\<close>

partial_function (option) commit_loop :: "u64 \<Rightarrow> u64 \<Rightarrow> raft_node \<Rightarrow> ((exn + unit) \<times> raft_node) option" where
  "commit_loop i lastLogIndex n =
     (if i \<le> lastLogIndex then
        (if getTerm (log n) i \<noteq> currentTerm n then commit_loop (i + 1) lastLogIndex n
         else if replicationCount i n \<ge> majority n then
           (case fst (applyCommittedEntries (n\<lparr>commitIndex := i\<rparr>)) of
              Inl e \<Rightarrow> Some (Inl e, snd (applyCommittedEntries (n\<lparr>commitIndex := i\<rparr>)))
            | Inr _ \<Rightarrow> commit_loop (i + 1) lastLogIndex (snd (applyCommittedEntries (n\<lparr>commitIndex := i\<rparr>))))
         else commit_loop (i + 1) lastLogIndex n)
      else Some (Inr (), n))"

definition updateCommitIndex :: "raft_node \<Rightarrow> (exn + unit) \<times> raft_node" where
  "updateCommitIndex n =
     (if role n \<noteq> LEADER then (Inr (), n)
      else case commit_loop (commitIndex n + 1) (getLastIndex (log n)) n of
             Some r \<Rightarrow> r
           | None \<Rightarrow> (Inl Never_returns, n))"

section \<open>Replication to one follower\<close>

text \<open>The entries from \<open>nextIndex\<close> to the end of the log; \<open>getEntry\<close> may throw.\<close>

function collect_entries :: "raft_log \<Rightarrow> u64 \<Rightarrow> exn + log_entry list" where
  "collect_entries l i =
     (if i \<le> getLastIndex l then
        bindE (getEntry l i) (\<lambda>e. bindE (collect_entries l (i + 1)) (\<lambda>es. Inr (e # es)))
      else Inr [])"
  by pat_completeness auto

termination collect_entries
  by (relation "measure (\<lambda>(l, i). entries_left l i)") (auto simp: entries_left_decreases)

declare collect_entries.simps [simp del]

datatype outgoing = Send_snapshot install_snapshot_args | Send_append append_entries_args

text \<open>What \<open>replicateToFollower\<close> sends to the peer at position \<open>i\<close> of the leader arrays.\<close>

definition prepare_replication :: "nat \<Rightarrow> raft_node \<Rightarrow> exn + outgoing" where
  "prepare_replication i n =
     (let next = nextIndex n ! i; prevIndex = next - 1; prevTerm = getTerm (log n) prevIndex
      in if next \<le> getSnapshotIndex (log n) then
           Inr (Send_snapshot \<lparr>is_term = currentTerm n, is_leaderId = nodeId n,
             is_lastIncludedIndex = snapshotIndex n, is_lastIncludedTerm = snapshotTerm n,
             is_data = snapshotData n\<rparr>)
         else bindE (collect_entries (log n) next) (\<lambda>es.
           Inr (Send_append \<lparr>ae_term = currentTerm n, ae_leaderId = nodeId n, ae_prevLogIndex = prevIndex,
             ae_prevLogTerm = prevTerm, ae_entries = es, ae_leaderCommit = commitIndex n\<rparr>)))"

definition on_snapshot_reply :: "nat \<Rightarrow> install_snapshot_reply \<Rightarrow> raft_node \<Rightarrow> (exn + unit) \<times> raft_node" where
  "on_snapshot_reply i reply n =
     (if isr_term reply > currentTerm n then becomeFollower (isr_term reply) n
      else (Inr (), n\<lparr>nextIndex := (nextIndex n)[i := snapshotIndex n + 1],
                     matchIndex := (matchIndex n)[i := snapshotIndex n]\<rparr>))"

definition on_append_reply ::
  "nat \<Rightarrow> append_entries_args \<Rightarrow> append_entries_reply \<Rightarrow> raft_node \<Rightarrow> (exn + unit) \<times> raft_node"
where
  "on_append_reply i args reply n =
     (if aer_term reply > currentTerm n then becomeFollower (aer_term reply) n
      else if aer_success reply then
        (let n = (if ae_entries args \<noteq> [] then
                    n\<lparr>matchIndex := (matchIndex n)[i := e_index (last (ae_entries args))],
                      nextIndex := (nextIndex n)[i := e_index (last (ae_entries args)) + 1]\<rparr>
                  else n)
         in updateCommitIndex n)
      else (Inr (), n\<lparr>nextIndex := (nextIndex n)[i := max 1 (conflictIndex reply)]\<rparr>))"

text \<open>State of an operation that calls the transport: the node and the world.\<close>

definition lift_node :: "(raft_node \<Rightarrow> (exn + 'a) \<times> raft_node) \<Rightarrow> raft_node \<times> 'w \<Rightarrow> (exn + 'a) \<times> (raft_node \<times> 'w)" where
  "lift_node f s = (case f (fst s) of (r, n) \<Rightarrow> (r, (n, snd s)))"

definition lift_world :: "('w \<Rightarrow> (exn + 'a) \<times> 'w) \<Rightarrow> raft_node \<times> 'w \<Rightarrow> (exn + 'a) \<times> (raft_node \<times> 'w)" where
  "lift_world f s = (case f (snd s) of (r, w) \<Rightarrow> (r, (fst s, w)))"

definition replicateToFollower ::
  "'w raft_rpc \<Rightarrow> u64 \<Rightarrow> raft_node \<times> 'w \<Rightarrow> (exn + unit) \<times> (raft_node \<times> 'w)"
where
  "replicateToFollower rpc peerId s =
     (case peerIdToIndexMap (fst s) peerId of
        None \<Rightarrow> (Inr (), s)
      | Some i \<Rightarrow>
          (case prepare_replication i (fst s) of
             Inl e \<Rightarrow> (Inl e, s)
           | Inr (Send_snapshot args) \<Rightarrow>
               andThen (lift_world (sendInstallSnapshot rpc peerId args 1000) s)
                 (\<lambda>reply. lift_node (on_snapshot_reply i reply))
           | Inr (Send_append args) \<Rightarrow>
               andThen (lift_world (sendAppendEntries rpc peerId args 100) s)
                 (\<lambda>reply. lift_node (on_append_reply i args reply))))"

fun heartbeat_loop :: "'w raft_rpc \<Rightarrow> u64 list \<Rightarrow> raft_node \<times> 'w \<Rightarrow> (exn + unit) \<times> (raft_node \<times> 'w)" where
  "heartbeat_loop rpc [] s = (Inr (), s)"
| "heartbeat_loop rpc (p # ps) s = andThen (replicateToFollower rpc p s) (\<lambda>_. heartbeat_loop rpc ps)"

definition sendHeartbeats :: "'w raft_rpc \<Rightarrow> raft_node \<times> 'w \<Rightarrow> (exn + unit) \<times> (raft_node \<times> 'w)" where
  "sendHeartbeats rpc s = heartbeat_loop rpc (peerIds (fst s)) s"

section \<open>Elections\<close>

definition begin_election :: "int \<Rightarrow> raft_node \<Rightarrow> (exn + request_vote_args) \<times> raft_node" where
  "begin_election now n =
     andThen (becomeCandidate n) (\<lambda>_ n.
       let n = resetElectionTimer now n
       in (Inr \<lparr>rv_term = currentTerm n, rv_candidateId = nodeId n, rv_lastLogIndex = getLastIndex (log n),
               rv_lastLogTerm = getLastTerm (log n)\<rparr>, n))"

text \<open>
  The body of the vote loop for the result of one RPC, \<open>try\<close> block included: \<open>Some votes\<close> goes on
  with the next peer, \<open>None\<close> is the return after stepping down.
\<close>

definition on_vote_result ::
  "exn + request_vote_reply \<Rightarrow> nat \<Rightarrow> raft_node \<Rightarrow> (exn + nat option) \<times> raft_node"
where
  "on_vote_result result votes n =
     (case result of
        Inl e \<Rightarrow> if is_exception e then (Inr (Some votes), n) else (Inl e, n)
      | Inr reply \<Rightarrow>
          (let votes = (if voteGranted reply then votes + 1 else votes)
           in if rvr_term reply > currentTerm n then
                (case becomeFollower (rvr_term reply) n of
                   (Inr _, n) \<Rightarrow> (Inr None, n)
                 | (Inl e, n) \<Rightarrow> if is_exception e then (Inr (Some votes), n) else (Inl e, n))
              else (Inr (Some votes), n)))"

fun vote_loop ::
  "'w raft_rpc \<Rightarrow> request_vote_args \<Rightarrow> u64 list \<Rightarrow> nat \<Rightarrow> raft_node \<times> 'w \<Rightarrow> (exn + nat option) \<times> (raft_node \<times> 'w)"
where
  "vote_loop rpc args [] votes s = (Inr (Some votes), s)"
| "vote_loop rpc args (p # ps) votes s =
     (case sendRequestVote rpc p args 100 (snd s) of
        (result, w) \<Rightarrow>
          andThen (lift_node (on_vote_result result votes) (fst s, w)) (\<lambda>outcome s.
            case outcome of
              None \<Rightarrow> (Inr None, s)
            | Some votes \<Rightarrow> vote_loop rpc args ps votes s))"

definition finish_election :: "nat \<Rightarrow> raft_node \<Rightarrow> raft_node" where
  "finish_election votesReceived n = (if votesReceived \<ge> majority n then becomeLeader n else n)"

definition startElection :: "'w raft_rpc \<Rightarrow> int \<Rightarrow> raft_node \<times> 'w \<Rightarrow> (exn + unit) \<times> (raft_node \<times> 'w)" where
  "startElection rpc now s =
     andThen (lift_node (begin_election now) s) (\<lambda>args s.
     andThen (vote_loop rpc args (peerIds (fst s)) 1 s) (\<lambda>outcome s.
       case outcome of
         None \<Rightarrow> (Inr (), s)
       | Some votesReceived \<Rightarrow>
           (let s' = (finish_election votesReceived (fst s), snd s)
            in if votesReceived \<ge> majority (fst s) then sendHeartbeats rpc s' else (Inr (), s'))))"

section \<open>The timer threads\<close>

text \<open>\<open>duration_cast\<close> from nanoseconds to milliseconds truncates towards zero.\<close>

definition to_milliseconds :: "int \<Rightarrow> int" where
  "to_milliseconds d = (if d \<ge> 0 then d div 1000000 else - ((- d) div 1000000))"

text \<open>One round of \<open>electionTimerLoop\<close> after its sleep; \<open>now'\<close> is the clock inside \<open>startElection\<close>.\<close>

definition electionTimer_tick ::
  "'w raft_rpc \<Rightarrow> int \<Rightarrow> int \<Rightarrow> raft_node \<times> 'w \<Rightarrow> (exn + unit) \<times> (raft_node \<times> 'w)"
where
  "electionTimer_tick rpc now now' s =
     (if \<not> running (fst s) then (Inr (), s)
      else if role (fst s) = LEADER then (Inr (), s)
      else if to_milliseconds (now - lastHeartbeat (fst s)) > electionTimeout (fst s)
      then startElection rpc now' s
      else (Inr (), s))"

definition heartbeatTimer_tick :: "'w raft_rpc \<Rightarrow> raft_node \<times> 'w \<Rightarrow> (exn + unit) \<times> (raft_node \<times> 'w)" where
  "heartbeatTimer_tick rpc s =
     (if \<not> running (fst s) then (Inr (), s)
      else if role (fst s) = LEADER then sendHeartbeats rpc s
      else (Inr (), s))"

lemmas [run_simps] =
  replicationCount_def majority_def commit_loop.simps updateCommitIndex_def collect_entries.simps
  prepare_replication_def on_snapshot_reply_def on_append_reply_def lift_node_def lift_world_def
  replicateToFollower_def sendHeartbeats_def begin_election_def on_vote_result_def
  finish_election_def startElection_def to_milliseconds_def electionTimer_tick_def
  heartbeatTimer_tick_def

end
