(* ===== verification/Raft_Leader_Laws.thy ===== *)
theory Raft_Leader_Laws
  imports Raft_Leader
begin

text \<open>
  Laws of the active side: what the commit rule computes, how an election counts, why backtracking
  ends, and what goes wrong after a leader or candidate has stepped down in the middle of a round.
\<close>

section \<open>The commit rule\<close>

text \<open>The index a leader may commit, as the code tests it.\<close>

definition committable :: "raft_node \<Rightarrow> u64 \<Rightarrow> bool" where
  "committable n i \<longleftrightarrow> getTerm (log n) i = currentTerm n \<and> majority n \<le> replicationCount i n"

lemma committable_frame:
  assumes "log m = log n" "currentTerm m = currentTerm n" "peerIds m = peerIds n" "matchIndex m = matchIndex n"
  shows "committable m = committable n"
  using assms by (simp add: committable_def majority_def replicationCount_def fun_eq_iff)

text \<open>The entries that a node still has to apply to reach index \<open>c\<close> are in its log.\<close>

definition applicable :: "raft_node \<Rightarrow> u64 \<Rightarrow> bool" where
  "applicable n c \<longleftrightarrow> log_wf (log n) \<and> log_snapshotIndex (log n) \<le> lastApplied n \<and>
     lastApplied n \<le> commitIndex n \<and> commitIndex n \<le> c \<and> c \<le> getLastIndex (log n) \<and> kv_wf (kvStore n)"

lemma applicable_dom:
  assumes "applicable n c"
  shows "{unat (lastApplied n)<..unat c} \<subseteq> dom (log_map (log n))"
  using assms getLastIndex_nat [of "log n"] by (auto simp: applicable_def dom_log_map word_le_nat_alt)

lemma decode_commands_append: "decode_commands (xs @ ys) = decode_commands xs @ decode_commands ys"
  by (simp add: decode_commands_def)

lemma entries_between_split:
  "a \<le> b \<Longrightarrow> b \<le> c \<Longrightarrow> entries_between l a c = entries_between l a b @ entries_between l b c"
proof -
  assume "a \<le> b" "b \<le> c"
  then have "[Suc a..<Suc c] = [Suc a..<Suc b] @ [Suc b..<Suc c]"
    using upt_add_eq_append [of "Suc a" "Suc b" "c - b"] by (simp del: upt_Suc)
  then show ?thesis by (simp add: entries_between_def del: upt_Suc)
qed

text \<open>The service after the entries up to index \<open>c\<close>.\<close>

definition service_at :: "raft_node \<Rightarrow> u64 \<Rightarrow> service" where
  "service_at n c = fold exec_once
     (decode_commands (entries_between (log n) (unat (lastApplied n)) (unat c))) (service_of n)"

lemma service_at_here [simp]: "service_at n (lastApplied n) = service_of n"
  by (simp add: service_at_def entries_between_def decode_commands_def)

lemma apply_to:
  assumes "applicable n c"
  shows "\<exists>m. applyCommittedEntries (n\<lparr>commitIndex := c\<rparr>) = (Inr (), m) \<and> commitIndex m = c \<and> lastApplied m = c \<and>
    service_of m = service_at n c \<and> log m = log n \<and> currentTerm m = currentTerm n \<and> peerIds m = peerIds n \<and>
    matchIndex m = matchIndex n \<and> kv_wf (kvStore m)"
proof -
  let ?n = "n\<lparr>commitIndex := c\<rparr>"
  from assms have le: "lastApplied n \<le> c" and wf: "log_wf (log ?n)" "kv_wf (kvStore ?n)"
    by (auto simp: applicable_def)
  have "{unat (lastApplied ?n)<..unat (commitIndex ?n)} \<subseteq> dom (log_map (log ?n))"
    using applicable_dom [OF assms] by simp
  from applyCommittedEntries_fold [OF wf(1) this] fold_apply_command_refines [OF wf(2)] obtain m where m:
    "applyCommittedEntries ?n = (Inr (), m)" "lastApplied m = max (lastApplied n) c" "kv_wf (kvStore m)"
    "service_of m = fold exec_once (decode_commands (entries_between (log n) (unat (lastApplied n)) (unat c)))
       (service_of ?n)"
    by (simp add: fold_apply_entry_commands)
  then show ?thesis
    using applyCommittedEntries_frame [of ?n] le by (simp add: service_at_def max_absorb2)
qed

lemma service_at_trans:
  assumes "service_of m = service_at n b" and "lastApplied m = b" and "log m = log n"
    and "lastApplied n \<le> b" and "b \<le> c"
  shows "service_at m c = service_at n c"
  using assms entries_between_split [of "unat (lastApplied n)" "unat b" "unat c" "log n"]
  by (simp add: service_at_def decode_commands_append word_le_nat_alt)

text \<open>What a run of the loop from index \<open>i\<close> establishes.\<close>

definition commit_result :: "u64 \<Rightarrow> raft_node \<Rightarrow> raft_node \<Rightarrow> bool" where
  "commit_result i n n' \<longleftrightarrow> commitIndex n \<le> commitIndex n' \<and>
     (\<forall>k. i \<le> k \<and> k \<le> getLastIndex (log n) \<and> committable n k \<longrightarrow> k \<le> commitIndex n') \<and>
     (commitIndex n' = commitIndex n \<and> n' = n \<or>
        committable n (commitIndex n') \<and> i \<le> commitIndex n' \<and> commitIndex n' \<le> getLastIndex (log n) \<and>
        lastApplied n' = commitIndex n' \<and> service_of n' = service_at n (commitIndex n')) \<and> log n' = log n"

lemma less_max_plus1: "(i :: u64) \<le> c \<Longrightarrow> unat c < 18446744073709551615 \<Longrightarrow> unat (i + 1) = Suc (unat i)"
  by (rule unat_u64_plus1) (simp add: word_le_nat_alt)

lemma u64_le_cases: "(i :: u64) < i + 1 \<Longrightarrow> i \<le> k \<Longrightarrow> k = i \<or> i + 1 \<le> k"
  using unat_plus1_less [of i] by (auto simp: word_le_nat_alt word_unat_eq_iff)

lemma commit_result_skip:
  assumes "commit_result (i + 1) n n'" and "\<not> committable n i" and "i < i + 1"
  shows "commit_result i n n'"
proof -
  have "k \<le> commitIndex n'" if "i \<le> k" "k \<le> getLastIndex (log n)" "committable n k" for k
    using u64_le_cases [OF assms(3) that(1)] that(2,3) assms(1,2) by (auto simp: commit_result_def)
  moreover have "i \<le> c" if "i + 1 \<le> c" for c using assms(3) that by (rule less_imp_le [OF less_le_trans])
  ultimately show ?thesis using assms(1) by (auto simp: commit_result_def)
qed

lemma commit_result_step:
  assumes "commit_result (i + 1) m n'" and "committable n i" and "commitIndex m = i" and "lastApplied m = i"
    and "service_of m = service_at n i" and "log m = log n" and "currentTerm m = currentTerm n"
    and "peerIds m = peerIds n" and "matchIndex m = matchIndex n"
    and "i < i + 1" and "i \<le> getLastIndex (log n)" and "commitIndex n < i" and "lastApplied n \<le> commitIndex n"
  shows "commit_result i n n'"
proof -
  have c: "committable m = committable n" using assms(6-9) by (intro committable_frame)
  have le: "i \<le> commitIndex n'" using assms(1,3) by (simp add: commit_result_def)
  have above: "k \<le> commitIndex n'" if "i \<le> k" "k \<le> getLastIndex (log n)" "committable n k" for k
    using u64_le_cases [OF assms(10) that(1)] that(2,3) assms(1,6) c le by (auto simp: commit_result_def)
  have "committable n (commitIndex n') \<and> i \<le> commitIndex n' \<and> commitIndex n' \<le> getLastIndex (log n) \<and>
      lastApplied n' = commitIndex n' \<and> service_of n' = service_at n (commitIndex n')"
  proof (cases "n' = m")
    case True
    then show ?thesis using assms by simp
  next
    case False
    with assms(1) have r: "committable m (commitIndex n')" "commitIndex n' \<le> getLastIndex (log m)"
      "lastApplied n' = commitIndex n'" "service_of n' = service_at m (commitIndex n')"
      by (auto simp: commit_result_def)
    moreover have "service_at m (commitIndex n') = service_at n (commitIndex n')"
      using assms(4-6,12,13) le by (intro service_at_trans [of _ _ i]) (auto intro: order_trans less_imp_le)
    ultimately show ?thesis using c le assms(6) by simp
  qed
  moreover have "log n' = log n" and "commitIndex n \<le> commitIndex n'"
    using assms(1,6,12) le by (auto simp: commit_result_def intro: order_trans less_imp_le)
  ultimately show ?thesis using above by (auto simp: commit_result_def)
qed

lemma commit_loop_result:
  assumes "applicable n (getLastIndex (log n))" and "unat (getLastIndex (log n)) < 18446744073709551615"
    and "commitIndex n < i"
  shows "\<exists>n'. commit_loop i (getLastIndex (log n)) n = Some (Inr (), n') \<and> commit_result i n n'"
  using assms
proof (induction "Suc (unat (getLastIndex (log n))) - unat i" arbitrary: i n rule: less_induct)
  case less
  let ?last = "getLastIndex (log n)"
  show ?case
  proof (cases "i \<le> ?last")
    case False
    then show ?thesis
      by (subst commit_loop.simps) (auto simp: commit_result_def dest: order_trans)
  next
    case True
    have i1: "unat (i + 1) = Suc (unat i)" using less_max_plus1 [OF True less.prems(2)] .
    then have step: "Suc (unat ?last) - unat (i + 1) < Suc (unat ?last) - unat i" and "i < i + 1"
      using True by (simp_all add: word_le_nat_alt word_less_nat_alt)
    show ?thesis
    proof (cases "committable n i")
      case False
      from \<open>i < i + 1\<close> less.prems(3) have "commitIndex n < i + 1" by (rule less_trans [rotated])
      then obtain n' where n': "commit_loop (i + 1) ?last n = Some (Inr (), n')" "commit_result (i + 1) n n'"
        using less.hyps [OF step less.prems(1,2)] by blast
      have "commit_loop i ?last n = commit_loop (i + 1) ?last n"
        using True False by (subst commit_loop.simps) (auto simp: committable_def)
      moreover have "commit_result i n n'" using n'(2) False \<open>i < i + 1\<close> by (rule commit_result_skip)
      ultimately show ?thesis using n'(1) by auto
    next
      case committable: True
      have "applicable n i" using less.prems(1,3) True by (simp add: applicable_def)
      then obtain m where m: "applyCommittedEntries (n\<lparr>commitIndex := i\<rparr>) = (Inr (), m)" "commitIndex m = i"
        "lastApplied m = i" "service_of m = service_at n i" "log m = log n" "currentTerm m = currentTerm n"
        "peerIds m = peerIds n" "matchIndex m = matchIndex n" "kv_wf (kvStore m)"
        using apply_to by blast
      have "applicable m (getLastIndex (log m))"
        using less.prems(1,3) True m unfolding applicable_def by (auto intro: order_trans less_imp_le)
      with less.hyps [of m "i + 1"] step less.prems(2) m(2,5) \<open>i < i + 1\<close> obtain n' where
        n': "commit_loop (i + 1) ?last m = Some (Inr (), n')" "commit_result (i + 1) m n'" by auto
      have "commit_loop i ?last n = commit_loop (i + 1) ?last m"
        using True committable m(1) by (subst commit_loop.simps) (simp add: committable_def)
      moreover have "commit_result i n n'"
        by (rule commit_result_step [OF n'(2) committable m(2-8) \<open>i < i + 1\<close> True])
          (use less.prems(1,3) in \<open>simp_all add: applicable_def\<close>)
      ultimately show ?thesis using n'(1) by auto
    qed
  qed
qed


text \<open>
  C32. The commit loop returns, with a value or an exception and whatever the log holds, unless the
  last index is the largest 64-bit number, where the loop variable would wrap to 0.
\<close>

theorem commit_loop_returns:
  assumes "lst < 18446744073709551615"
  shows "\<exists>r. commit_loop i lst n = Some r"
proof -
  have bnd: "unat lst < 18446744073709551615" using assms by (simp add: word_less_nat_alt)
  have "commit_loop i lst n \<noteq> None"
  proof (induction "Suc (unat lst) - unat i" arbitrary: i n rule: less_induct)
    case less
    show ?case
    proof (cases "i \<le> lst")
      case False
      then show ?thesis by (simp add: commit_loop.simps [of i])
    next
      case True
      then have "Suc (unat lst) - unat (i + 1) < Suc (unat lst) - unat i"
        using bnd by (simp add: word_le_nat_alt unat_u64_plus1)
      from less [OF this] show ?thesis
        by (subst commit_loop.simps) (simp split: sum.split)
    qed
  qed
  then show ?thesis by simp
qed

theorem commit_loop_returns_witness:
  "\<exists>r. commit_loop 1 5 (sample_node\<lparr>role := LEADER\<rparr>) = Some r"
  by (rule commit_loop_returns) simp

text \<open>A relation that every application of entries respects is respected by the whole loop.\<close>

lemma commit_loop_relates:
  assumes "\<And>n. R n n" and "\<And>a b c. R a b \<Longrightarrow> R b c \<Longrightarrow> R a c"
    and "\<And>n c. R n (snd (applyCommittedEntries (n\<lparr>commitIndex := c\<rparr>)))" and "commit_loop i lst n = Some r"
  shows "R n (snd r)"
proof (rule commit_loop.raw_induct [OF _ assms(4), where P = "\<lambda>i lst n r. R n (snd r)"], goal_cases)
  case (1 loop i lst n r)
  let ?a = "applyCommittedEntries (n\<lparr>commitIndex := i\<rparr>)"
  show ?case
  proof (cases "i \<le> lst \<and> getTerm (log n) i = currentTerm n \<and> majority n \<le> replicationCount i n")
    case False
    with 1(2) have "r = (Inr (), n) \<or> loop (i + 1) lst n = Some r" by (auto split: if_splits)
    with 1(1) [of "i + 1" lst n r] assms(1) show ?thesis by auto
  next
    case True
    show ?thesis
    proof (cases "fst ?a")
      case (Inl e)
      with 1(2) True have "r = (Inl e, snd ?a)" by simp
      then show ?thesis by (simp add: assms(3))
    next
      case (Inr u)
      with 1(2) True have "loop (i + 1) lst (snd ?a) = Some r" by simp
      then have "R (snd ?a) (snd r)" by (rule 1(1))
      with assms(3) show ?thesis by (rule assms(2))
    qed
  qed
qed

definition same_indices :: "raft_node \<Rightarrow> raft_node \<Rightarrow> bool" where
  "same_indices n n' \<longleftrightarrow> nextIndex n' = nextIndex n \<and> matchIndex n' = matchIndex n \<and> log n' = log n \<and>
     peerIds n' = peerIds n \<and> peerIdToIndexMap n' = peerIdToIndexMap n \<and> currentTerm n' = currentTerm n \<and>
     role n' = role n"

lemma updateCommitIndex_same_indices: "same_indices n (snd (updateCommitIndex n))"
proof -
  have "same_indices n (snd r)" if "commit_loop i lst n = Some r" for i lst r
    by (rule commit_loop_relates [OF _ _ _ that]) (simp_all add: same_indices_def)
  then show ?thesis by (auto simp: updateCommitIndex_def same_indices_def split: option.split)
qed

lemma updateCommitIndex_returns:
  assumes "applicable n (getLastIndex (log n))" and "unat (getLastIndex (log n)) < 18446744073709551615"
  shows "fst (updateCommitIndex n) = Inr ()"
proof -
  have "commitIndex n < commitIndex n + 1"
    using less_max_plus1 [OF _ assms(2), of "commitIndex n"] assms(1)
    by (simp add: applicable_def word_less_nat_alt)
  from commit_loop_result [OF assms this] show ?thesis by (auto simp: updateCommitIndex_def)
qed

lemma updateCommitIndex_result:
  assumes "role n = LEADER" and "applicable n (getLastIndex (log n))"
    and "getLastIndex (log n) < 18446744073709551615"
  shows "\<exists>n'. updateCommitIndex n = (Inr (), n') \<and> commit_result (commitIndex n + 1) n n' \<and>
    commitIndex n < commitIndex n + 1"
proof -
  have max: "unat (getLastIndex (log n)) < 18446744073709551615"
    using assms(3) by (simp add: word_less_nat_alt)
  have "commitIndex n \<le> getLastIndex (log n)" using assms(2) by (simp add: applicable_def)
  from less_max_plus1 [OF this max] have lt: "commitIndex n < commitIndex n + 1" by (simp add: word_less_nat_alt)
  from commit_loop_result [OF assms(2) max this] assms(1) show ?thesis
    by (auto simp: updateCommitIndex_def lt)
qed

text \<open>
  Raft's commit rule, independent of the code: the entry at an index is of the current term, and it
  is on more than half of the nodes of the cluster, the leader among them.
\<close>

definition may_commit :: "raft_node \<Rightarrow> nat \<Rightarrow> bool" where
  "may_commit n k \<longleftrightarrow> (\<exists>e. log_map (log n) k = Some e \<and> e_term e = currentTerm n) \<and>
     length (peerIds n) + 1 < 2 * (1 + card {j. j < length (peerIds n) \<and> k \<le> unat (matchIndex n ! j)})"

lemma majority_more_than_half: "majority n \<le> v \<longleftrightarrow> length (peerIds n) + 1 < 2 * v"
  by (simp add: majority_def) linarith

lemma replicationCount_card:
  assumes "length (matchIndex n) = length (peerIds n)"
  shows "replicationCount i n = 1 + card {j. j < length (peerIds n) \<and> unat i \<le> unat (matchIndex n ! j)}"
  using assms by (simp add: replicationCount_def length_filter_conv_card word_le_nat_alt)

lemma committable_may_commit:
  assumes "log_wf (log n)" and "uncompacted (log n)" and "length (matchIndex n) = length (peerIds n)"
    and "0 < i" and "i \<le> getLastIndex (log n)"
  shows "committable n i \<longleftrightarrow> may_commit n (unat i)"
proof -
  have i: "0 < unat i" "unat i \<le> last_nat (log n)"
    using assms(4,5) getLastIndex_nat [OF assms(1)] by (simp_all add: word_less_nat_alt word_le_nat_alt)
  have s: "unat (log_snapshotIndex (log n)) = 0" using assms(2) by (simp add: uncompacted_def)
  have "unat i < length (Entries (log n))"
    using i(2) s log_wf_nonempty [OF assms(1)] by (cases "Entries (log n)") (simp_all add: last_nat_def)
  moreover have "log_map (log n) (unat i) = Some (Entries (log n) ! unat i)" using i s by (simp add: log_map_def)
  ultimately show ?thesis
    by (simp add: committable_def may_commit_def getTerm_def majority_more_than_half replicationCount_card [OF assms(3)])
qed

text \<open>
  C10. The commit rule. On a leader whose log was never compacted, is intact and does not reach the
  end of the 64-bit range, \<open>updateCommitIndex\<close> returns without an exception and leaves the log alone.
  The commit index never moves back; afterwards no index above it can be committed by Raft's rule
  (an entry of the current term on more than half of the cluster); it moved only to an index that
  can, and then the service is the replay of exactly the entries up to it. (After a compaction the
  rule is not met: \<open>compacted_leader_cannot_commit\<close>.)
\<close>

theorem updateCommitIndex_exact:
  assumes "role n = LEADER" and "applicable n (getLastIndex (log n))" and "uncompacted (log n)"
    and "length (matchIndex n) = length (peerIds n)" and "getLastIndex (log n) < 18446744073709551615"
  shows "\<exists>n'. updateCommitIndex n = (Inr (), n') \<and> log n' = log n \<and> commitIndex n \<le> commitIndex n' \<and>
    (\<forall>k. unat (commitIndex n') < k \<longrightarrow> \<not> may_commit n k) \<and>
    (n' = n \<or> may_commit n (unat (commitIndex n')) \<and> commitIndex n < commitIndex n' \<and>
       lastApplied n' = commitIndex n' \<and>
       service_of n' = fold exec_once (decode_commands
         (entries_between (log n) (unat (lastApplied n)) (unat (commitIndex n')))) (service_of n))"
proof -
  obtain n' where n': "updateCommitIndex n = (Inr (), n')" "commit_result (commitIndex n + 1) n n'"
    and lt: "commitIndex n < commitIndex n + 1"
    using updateCommitIndex_result [OF assms(1,2,5)] by blast
  have wf: "log_wf (log n)" using assms(2) by (simp add: applicable_def)
  note rule = committable_may_commit [OF wf assms(3,4)]
  have above: "\<not> may_commit n k" if k: "unat (commitIndex n') < k" for k
  proof
    assume m: "may_commit n k"
    then have "k \<le> last_nat (log n)" by (auto simp: may_commit_def log_map_def split: if_splits)
    then have "k \<le> unat (getLastIndex (log n))" by (simp add: getLastIndex_nat [OF wf])
    moreover from this have "k < 18446744073709551616" using unat_less_u64 [of "getLastIndex (log n)"] by linarith
    ultimately obtain i :: u64 where i: "k = unat i" "i \<le> getLastIndex (log n)"
      using that [of "of_nat k"] by (simp add: word_le_nat_alt unat_of_nat_small)
    have c: "commitIndex n' < i" using k i(1) by (simp add: word_less_nat_alt)
    then have pos: "0 < i" by (rule le_less_trans [rotated]) simp
    have "commitIndex n < i" using c n'(2) by (auto simp: commit_result_def)
    then have "commitIndex n + 1 \<le> i" using u64_le_cases [OF lt less_imp_le] by blast
    with n'(2) i m rule [OF pos i(2)] have "i \<le> commitIndex n'" by (simp add: commit_result_def)
    with c show False by simp
  qed
  have moved: "may_commit n (unat (commitIndex n'))" if "committable n (commitIndex n')"
      "commitIndex n + 1 \<le> commitIndex n'" "commitIndex n' \<le> getLastIndex (log n)"
  proof -
    from lt that(2) have "commitIndex n < commitIndex n'" by (rule less_le_trans)
    then have "0 < commitIndex n'" by (rule le_less_trans [rotated]) simp
    with rule [OF this that(3)] that(1) show ?thesis by simp
  qed
  have "commitIndex n < c" if "commitIndex n + 1 \<le> c" for c using lt that by (rule less_le_trans)
  with n' above moved show ?thesis by (auto simp: commit_result_def service_at_def)
qed

definition sample_leader :: raft_node where
  "sample_leader = sample_node\<lparr>role := LEADER, matchIndex := [3, 1], nextIndex := [4, 2]\<rparr>"

lemma sample_leader_simps [simp]:
  "role sample_leader = LEADER" "log sample_leader = sample_log" "currentTerm sample_leader = 2"
  "commitIndex sample_leader = 0" "lastApplied sample_leader = 0" "peerIds sample_leader = [2, 3]"
  "matchIndex sample_leader = [3, 1]" "nextIndex sample_leader = [4, 2]" "disk_ok sample_leader"
  "kvStore sample_leader = empty_kvstore" "nodeId sample_leader = 1"
  "persistence sample_leader = Some sample_disk"
  by (simp_all add: sample_leader_def)

lemma sample_leader_applicable [simp]: "applicable sample_leader 3"
  by (simp add: applicable_def)

lemma sample_leader_committable [simp]: "committable sample_leader 3"
  by (simp add: committable_def majority_def replicationCount_def getTerm_def sample_log_entries)

lemma sample_leader_may_commit: "may_commit sample_leader 3"
proof -
  have "{j. j < length (peerIds sample_leader) \<and> 3 \<le> unat (matchIndex sample_leader ! j)} = {0}"
    by (auto simp: less_Suc_eq)
  then show ?thesis by (simp add: may_commit_def log_map_def last_nat_def sample_log_entries)
qed

theorem updateCommitIndex_exact_witness:
  "\<exists>n'. updateCommitIndex sample_leader = (Inr (), n') \<and> commitIndex n' = 3 \<and> lastApplied n' = 3"
proof -
  have "uncompacted (log sample_leader)" by (simp add: uncompacted_def)
  from updateCommitIndex_exact [OF _ _ this]
  obtain n' where n': "updateCommitIndex sample_leader = (Inr (), n')" "log n' = sample_log"
    "\<forall>k. unat (commitIndex n') < k \<longrightarrow> \<not> may_commit sample_leader k"
    "n' = sample_leader \<or> may_commit sample_leader (unat (commitIndex n')) \<and> lastApplied n' = commitIndex n'"
    by auto
  from n'(3) sample_leader_may_commit have "3 \<le> unat (commitIndex n')" by (meson not_less)
  moreover from this n'(4) have m: "may_commit sample_leader (unat (commitIndex n'))" "lastApplied n' = commitIndex n'"
    by auto
  then have "unat (commitIndex n') \<le> 3"
    by (auto simp: may_commit_def log_map_def last_nat_def sample_log_entries split: if_splits)
  ultimately have "unat (commitIndex n') = unat (3 :: u64)" by simp
  then have "commitIndex n' = 3" by (simp only: word_unat_eq_iff)
  with n'(1) m(2) show ?thesis by auto
qed

text \<open>
  After a compaction the leader can be unable to commit anything: the test of the commit rule
  reads the term through the unshifted \<open>getTerm\<close>, so as long as every uncommitted index lies past
  the end of the shortened vector nothing happens, even when all followers have all entries.
\<close>

theorem compacted_leader_cannot_commit:
  assumes "applicable n (getLastIndex (log n))" and "getLastIndex (log n) < 18446744073709551615"
    and "currentTerm n \<noteq> 0" and "length (Entries (log n)) \<le> Suc (unat (commitIndex n))"
  shows "updateCommitIndex n = (Inr (), n)"
proof (cases "role n = LEADER")
  case True
  have max: "unat (getLastIndex (log n)) < 18446744073709551615"
    using assms(2) by (simp add: word_less_nat_alt)
  have le: "commitIndex n \<le> getLastIndex (log n)" using assms(1) by (simp add: applicable_def)
  have i1: "unat (commitIndex n + 1) = Suc (unat (commitIndex n))" by (rule less_max_plus1 [OF le max])
  then have lt: "commitIndex n < commitIndex n + 1" by (simp add: word_less_nat_alt)
  obtain n' where n': "commit_loop (commitIndex n + 1) (getLastIndex (log n)) n = Some (Inr (), n')"
    "commit_result (commitIndex n + 1) n n'"
    using commit_loop_result [OF assms(1) max lt] by blast
  have "\<not> committable n k" if "commitIndex n + 1 \<le> k" for k
    using that assms(3,4) i1 by (simp add: committable_def getTerm_def word_le_nat_alt)
  with n'(2) have "n' = n" by (auto simp: commit_result_def)
  with n'(1) True show ?thesis by (simp add: updateCommitIndex_def)
qed (simp add: updateCommitIndex_def)

text \<open>The leader compacted at 2; entry 3 of its own term is on every node and stays uncommitted.\<close>

theorem compacted_leader_cannot_commit_witness:
  "let n = sample_leader\<lparr>log := discardEntriesUpTo 2 1 sample_log, lastApplied := 2, commitIndex := 2,
      matchIndex := [3, 3]\<rparr>
   in log_map (log n) 3 = Some (sample_entry 3 2) \<and> currentTerm n = 2 \<and> updateCommitIndex n = (Inr (), n)"
proof -
  let ?n = "sample_leader\<lparr>log := discardEntriesUpTo 2 1 sample_log, lastApplied := 2, commitIndex := 2,
      matchIndex := [3, 3]\<rparr>"
  have last: "getLastIndex (log ?n) = 3" by (simp add: getLastIndex_def sample_compacted_entries)
  have "updateCommitIndex ?n = (Inr (), ?n)"
    by (rule compacted_leader_cannot_commit)
      (simp_all add: last applicable_def sample_compacted, simp_all add: sample_compacted_entries getLastIndex_def)
  then show ?thesis by (simp add: Let_def sample_compacted sample_entry_def)
qed

section \<open>Elections\<close>

text \<open>The results of asking the peers in order, without looking at them.\<close>

fun ask_all :: "'w raft_rpc \<Rightarrow> request_vote_args \<Rightarrow> u64 list \<Rightarrow> 'w \<Rightarrow> (exn + request_vote_reply) list \<times> 'w" where
  "ask_all rpc args [] w = ([], w)"
| "ask_all rpc args (p # ps) w =
     (case sendRequestVote rpc p args 100 w of
        (r, w) \<Rightarrow> (case ask_all rpc args ps w of (rs, w) \<Rightarrow> (r # rs, w)))"

definition granted :: "exn + request_vote_reply \<Rightarrow> bool" where
  "granted r = (case r of Inl e \<Rightarrow> False | Inr reply \<Rightarrow> voteGranted reply)"

definition no_higher_term :: "u64 \<Rightarrow> exn + request_vote_reply \<Rightarrow> bool" where
  "no_higher_term t r = (case r of Inl e \<Rightarrow> is_exception e | Inr reply \<Rightarrow> rvr_term reply \<le> t)"

lemma vote_loop_counts:
  assumes "ask_all rpc args ps w = (rs, w')" and "list_all (no_higher_term (currentTerm n)) rs"
  shows "vote_loop rpc args ps votes (n, w) = (Inr (Some (votes + length (filter granted rs))), (n, w'))"
  using assms
proof (induction ps arbitrary: votes w rs)
  case (Cons p ps)
  obtain r w1 where r: "sendRequestVote rpc p args 100 w = (r, w1)" by fastforce
  obtain rs1 w2 where rs1: "ask_all rpc args ps w1 = (rs1, w2)" by fastforce
  with r Cons.prems have rs: "rs = r # rs1" "w2 = w'" "no_higher_term (currentTerm n) r"
    "list_all (no_higher_term (currentTerm n)) rs1" by auto
  then have "on_vote_result r votes n = (Inr (Some (if granted r then votes + 1 else votes)), n)"
    by (auto simp: on_vote_result_def granted_def no_higher_term_def not_less [symmetric] split: sum.splits)
  with r rs rs1 Cons.IH [of w1 rs1] show ?case by (simp add: lift_node_def)
qed simp

lemma role_finish_election:
  "role n \<noteq> LEADER \<Longrightarrow> role (finish_election v n) = LEADER \<longleftrightarrow> length (peerIds n) + 1 < 2 * v"
  by (simp add: finish_election_def majority_more_than_half becomeLeader_def Let_def)

text \<open>
  C20. An election counts right: when no peer answers with a higher term (RPCs may fail), the
  candidate stands in the next term for itself, asks every peer once, and becomes leader exactly
  when the granted votes with its own are more than half of the cluster.
\<close>

theorem election_won_by_majority:
  assumes "disk_ok n" and "begin_election now n = (Inr args, n1)"
    and "ask_all rpc args (peerIds n1) w = (rs, w')" and "list_all (no_higher_term (currentTerm n1)) rs"
  shows "currentTerm n1 = currentTerm n + 1 \<and> votedFor n1 = nodeId n \<and> rv_term args = currentTerm n1 \<and>
    rv_candidateId args = nodeId n \<and>
    vote_loop rpc args (peerIds n1) 1 (n1, w) = (Inr (Some (1 + length (filter granted rs))), (n1, w')) \<and>
    (role (finish_election (1 + length (filter granted rs)) n1) = LEADER \<longleftrightarrow>
       length (peerIds n) + 1 < 2 * (1 + length (filter granted rs)))"
proof -
  have n1: "n1 = resetElectionTimer now (snd (becomeCandidate n))" "rv_term args = currentTerm n1"
    "rv_candidateId args = nodeId n1"
    using assms(1,2) by (auto simp: begin_election_def Let_def)
  then have "role n1 \<noteq> LEADER" by simp
  with n1 show ?thesis
    using vote_loop_counts [OF assms(3,4), of 1] role_finish_election [of n1] by simp
qed

text \<open>A transport on which peer 2 grants, peer 3 cannot be reached.\<close>

definition sample_rpc :: "unit raft_rpc" where
  "sample_rpc = \<lparr>
     sendRequestVote = (\<lambda>p args timeout w.
       (if p = 2 then Inr \<lparr>rvr_term = rv_term args, voteGranted = True\<rparr> else Inl (Runtime_error ''down''), w)),
     sendAppendEntries = (\<lambda>p args timeout w. (Inl (Runtime_error ''down''), w)),
     sendInstallSnapshot = (\<lambda>p args timeout w. (Inl (Runtime_error ''down''), w))\<rparr>"

theorem election_won_by_majority_witness:
  "\<exists>args n1. begin_election 5 sample_node = (Inr args, n1) \<and> currentTerm n1 = 3 \<and>
    vote_loop sample_rpc args [2, 3] 1 (n1, ()) = (Inr (Some 2), (n1, ())) \<and> role (finish_election 2 n1) = LEADER"
proof -
  obtain args n1 where b: "begin_election 5 sample_node = (Inr args, n1)"
    by (cases "begin_election 5 sample_node") (simp add: begin_election_def Let_def)
  have n1: "peerIds n1 = [2, 3]" "currentTerm n1 = 3" "rv_term args = 3"
    using b by (auto simp: begin_election_def Let_def)
  let ?rs = "[Inr \<lparr>rvr_term = 3, voteGranted = True\<rparr>, Inl (Runtime_error ''down'')]"
  have "ask_all sample_rpc args (peerIds n1) () = (?rs, ())" by (simp add: n1 sample_rpc_def)
  from election_won_by_majority [OF _ b this] b n1 show ?thesis
    by (simp add: no_higher_term_def granted_def numeral_2_eq_2 del: vote_loop.simps)
qed


section \<open>Backtracking\<close>

lemma conflict_scan_bounds:
  assumes "0 < p"
  shows "1 \<le> conflict_scan l (getTerm l p) (unat p) p \<and> conflict_scan l (getTerm l p) (unat p) p \<le> p"
  using conflict_scan_run [OF assms refl] by blast

lemma check_previous_hint:
  assumes "check_previous args n = Some reply" and "log_wf (log n)" and "last_nat (log n) < 18446744073709551615"
  shows "1 \<le> conflictIndex reply \<and> conflictIndex reply \<le> ae_prevLogIndex args"
proof (cases "ae_prevLogIndex args > getLastIndex (log n)")
  case True
  have "unat (getLastIndex (log n) + 1) = Suc (unat (getLastIndex (log n)))"
    using assms(2,3) by (intro unat_u64_plus1) (simp add: getLastIndex_nat)
  moreover have "conflictIndex reply = getLastIndex (log n) + 1"
    using True assms(1) by (auto simp: check_previous_def Let_def)
  ultimately show ?thesis using True by (simp add: word_le_nat_alt word_less_nat_alt)
next
  case False
  with assms(1) have "0 < ae_prevLogIndex args"
    "conflictIndex reply = conflict_scan (log n) (getTerm (log n) (ae_prevLogIndex args))
       (unat (ae_prevLogIndex args)) (ae_prevLogIndex args)"
    by (auto simp: check_previous_def Let_def split: if_splits)
  with conflict_scan_bounds show ?thesis by simp
qed

lemma backtracking_step:
  assumes "disk_ok m" and "log_wf (log m)" and "last_nat (log m) < 18446744073709551615"
    and "prepare_replication i n = Inr (Send_append args)" and "i < length (nextIndex n)" and "0 < nextIndex n ! i"
    and "handleAppendEntries now args m = (Inr reply, m')" and "currentTerm m \<le> currentTerm n"
    and "\<not> aer_success reply" and "on_append_reply i args reply n = (r, n')"
  shows "r = Inr () \<and> 1 \<le> nextIndex n' ! i \<and> nextIndex n' ! i < nextIndex n ! i"
proof -
  from assms(4) have args: "ae_term args = currentTerm n" "ae_prevLogIndex args = nextIndex n ! i - 1"
    by (auto simp: prepare_replication_def Let_def bindE_def split: if_splits sum.splits)
  from assms(1,8) args(1) obtain k where k: "handleAppendEntries now args m = process_entries now args k"
    "disk_ok k" "log k = log m" "currentTerm k = ae_term args"
    by (metis handleAppendEntries_current)
  let ?k = "resetElectionTimer now (k\<lparr>currentLeaderId := ae_leaderId args\<rparr>)"
  have "check_previous args ?k \<noteq> None"
  proof
    assume "check_previous args ?k = None"
    with assms(7,9) k(1) show False
      by (auto simp: process_entries_def Let_def andThen_Inr_iff)
  qed
  then have hint: "check_previous args ?k = Some reply"
    using assms(7) k(1) by (auto simp: process_entries_def Let_def)
  have "1 \<le> conflictIndex reply \<and> conflictIndex reply \<le> ae_prevLogIndex args"
    by (rule check_previous_hint [OF hint]) (simp_all add: k(3) assms(2,3))
  moreover have "nextIndex n ! i - 1 < nextIndex n ! i" using assms(6) by (rule u64_minus1_less)
  moreover have "aer_term reply = currentTerm n"
    using check_previous_Some [OF hint] k(4) args(1) by simp
  then have "r = Inr ()" "n' = n\<lparr>nextIndex := (nextIndex n)[i := max 1 (conflictIndex reply)]\<rparr>"
    using assms(9,10) by (auto simp: on_append_reply_def)
  ultimately show ?thesis using assms(5) args(2) by (auto simp: max_absorb2 intro: le_less_trans)
qed

text \<open>
  Backtracking ends: when a follower of the leader's term rejects what the leader sent, the
  leader's next index for it becomes at least 1 and strictly smaller, so after finitely many
  rejected rounds the previous index is 0, which is never rejected.
\<close>

theorem backtracking_progress:
  assumes "disk_ok m" and "log_wf (log m)" and "last_nat (log m) < 18446744073709551615"
    and "prepare_replication i n = Inr (Send_append args)" and "i < length (nextIndex n)" and "0 < nextIndex n ! i"
    and "handleAppendEntries now args m = (Inr reply, m')" and "currentTerm m \<le> currentTerm n"
    and "\<not> aer_success reply" and "on_append_reply i args reply n = (r, n')"
  shows "r = Inr () \<and> 1 \<le> nextIndex n' ! i \<and> nextIndex n' ! i < nextIndex n ! i"
  by (rule backtracking_step [OF assms])


definition short_log :: raft_log where
  "short_log = \<lparr>Entries = [dummy_entry, sample_entry 1 1], log_snapshotIndex = 0, log_snapshotTerm = 0\<rparr>"

text \<open>The follower has only entry 1; the leader offers from 4 on and is sent back to 2.\<close>

theorem backtracking_progress_witness:
  "\<exists>args reply m' r n'. prepare_replication 0 sample_leader = Inr (Send_append args) \<and>
    handleAppendEntries 5 args (sample_node\<lparr>log := short_log\<rparr>) = (Inr reply, m') \<and> \<not> aer_success reply \<and>
    on_append_reply 0 args reply sample_leader = (r, n') \<and> nextIndex n' ! 0 < 4"
proof -
  let ?m = "sample_node\<lparr>log := short_log\<rparr>"
  obtain args where a: "prepare_replication 0 sample_leader = Inr (Send_append args)" "ae_term args = 2" "ae_prevLogIndex args = 3"
    by (simp add: prepare_replication_def getSnapshotIndex_def collect_entries.simps Let_def)
  have m: "log_wf (log ?m)" "last_nat (log ?m) < 18446744073709551615" "getLastIndex (log ?m) = 1"
    by (simp_all add: short_log_def log_wf_consecutive last_nat_def getLastIndex_def dummy_entry_def)
  obtain reply m' where r: "handleAppendEntries 5 args ?m = (Inr reply, m')" "\<not> aer_success reply"
    using a(2,3) m(3) by (simp add: handleAppendEntries_def process_entries_def check_previous_def Let_def)
  obtain e n' where n': "on_append_reply 0 args reply sample_leader = (e, n')" by fastforce
  have "e = Inr () \<and> 1 \<le> nextIndex n' ! 0 \<and> nextIndex n' ! 0 < nextIndex sample_leader ! 0"
    by (rule backtracking_progress [OF _ m(1,2) a(1) _ _ r(1) _ r(2) n']) simp_all
  with a r n' show ?thesis by auto
qed

section \<open>Stepping down in the middle of a round\<close>

text \<open>
  A leader that learns of a higher term in the middle of \<open>sendHeartbeats\<close> becomes follower but
  keeps sending, now in the name of the new term: the next \<open>AppendEntries\<close> carries that term and
  this node as leader, and it deposes the real leader of that term, which forgets its vote and
  takes the impostor for the leader.
\<close>

theorem stepped_down_leader_deposes:
  assumes "disk_ok n" and "currentTerm n < aer_term reply" and "on_append_reply i args reply n = (r, n1)"
    and "prepare_replication j n1 = Inr (Send_append a)"
    and "disk_ok m" and "role m = LEADER" and "currentTerm m = aer_term reply"
  shows "role n1 = FOLLOWER \<and> ae_term a = currentTerm m \<and> ae_leaderId a = nodeId n \<and>
    currentTerm (snd (handleAppendEntries now a m)) = currentTerm m \<and>
    role (snd (handleAppendEntries now a m)) = FOLLOWER \<and> votedFor (snd (handleAppendEntries now a m)) = 0"
proof -
  have n1: "n1 = snd (becomeFollower (aer_term reply) n)" using assms(2,3) by (auto simp: on_append_reply_def)
  with assms(4) have a: "ae_term a = aer_term reply" "ae_leaderId a = nodeId n"
    by (auto simp: prepare_replication_def Let_def bindE_def split: if_splits sum.splits)
  have "handleAppendEntries now a m = process_entries now a (snd (becomeFollower (ae_term a) m))"
    using assms(5-7) a by (simp add: handleAppendEntries_def)
  then show ?thesis
    using process_entries_frame [of now a "snd (becomeFollower (ae_term a) m)"] n1 a assms(7) by simp
qed

theorem stepped_down_leader_deposes_witness:
  "\<exists>n1 a m'. snd (on_append_reply 0 \<lparr>ae_term = 2, ae_leaderId = 1, ae_prevLogIndex = 3, ae_prevLogTerm = 2,
      ae_entries = [], ae_leaderCommit = 0\<rparr> \<lparr>aer_term = 7, aer_success = False, conflictIndex = 0, conflictTerm = 0\<rparr>
      sample_leader) = n1 \<and> prepare_replication 1 n1 = Inr (Send_append a) \<and> ae_term a = 7 \<and>
    snd (handleAppendEntries 5 a (sample_leader\<lparr>currentTerm := 7, nodeId := 3, votedFor := 3\<rparr>)) = m' \<and>
    role m' = FOLLOWER \<and> votedFor m' = 0"
proof -
  let ?args = "\<lparr>ae_term = 2, ae_leaderId = 1, ae_prevLogIndex = 3, ae_prevLogTerm = 2, ae_entries = [], ae_leaderCommit = 0\<rparr>"
  let ?reply = "\<lparr>aer_term = 7, aer_success = False, conflictIndex = 0, conflictTerm = 0\<rparr>"
  let ?m = "sample_leader\<lparr>currentTerm := 7, nodeId := 3, votedFor := 3\<rparr>"
  obtain r n1 where n1: "on_append_reply 0 ?args ?reply sample_leader = (r, n1)" by fastforce
  then have "n1 = snd (becomeFollower 7 sample_leader)" by (auto simp: on_append_reply_def)
  then obtain a where a: "prepare_replication 1 n1 = Inr (Send_append a)"
    by (simp add: prepare_replication_def getSnapshotIndex_def collect_entries.simps getEntry_def sample_log_entries Let_def)
  from stepped_down_leader_deposes [OF _ _ n1 a, of ?m 5] show ?thesis
    using n1 a by auto
qed

text \<open>
  In an election the exception of a failed save is swallowed by the same \<open>catch\<close> as RPC
  failures: a candidate that answers a higher term by stepping down, and cannot write its state,
  goes on counting as follower of the new term and, with enough votes, becomes leader of a term in
  which it never asked for a vote.
\<close>

theorem failed_step_down_still_wins:
  assumes "currentTerm n < rvr_term reply" and "fst (becomeFollower (rvr_term reply) n) = Inl e" and "is_exception e"
    and "\<not> voteGranted reply" and "majority n \<le> votes"
  shows "\<exists>n1. on_vote_result (Inr reply) votes n = (Inr (Some votes), n1) \<and> currentTerm n1 = rvr_term reply \<and>
    votedFor n1 = 0 \<and> role (finish_election votes n1) = LEADER \<and>
    currentTerm (finish_election votes n1) = rvr_term reply"
proof -
  obtain n1 where n1: "becomeFollower (rvr_term reply) n = (Inl e, n1)"
    using assms(2) by (cases "becomeFollower (rvr_term reply) n") simp
  then have "on_vote_result (Inr reply) votes n = (Inr (Some votes), n1)"
    using assms(1,3,4) by (simp add: on_vote_result_def Let_def)
  moreover have "majority n1 = majority n" "currentTerm n1 = rvr_term reply" "votedFor n1 = 0"
    using becomeFollower_frame [of "rvr_term reply" n] by (simp_all add: n1 majority_def)
  ultimately show ?thesis
    using assms(5) by (intro exI [of _ n1]) (simp add: finish_election_def becomeLeader_def Let_def)
qed

definition broken_disk :: raft_persistence where
  "broken_disk = sample_disk\<lparr>fs := (fs sample_disk)\<lparr>writable := \<lambda>_. False\<rparr>\<rparr>"

theorem failed_step_down_still_wins_witness:
  "\<exists>n1. on_vote_result (Inr \<lparr>rvr_term = 9, voteGranted = False\<rparr>) 2
      (sample_node\<lparr>role := CANDIDATE, votedFor := 1, persistence := Some broken_disk\<rparr>) = (Inr (Some 2), n1) \<and>
    role (finish_election 2 n1) = LEADER \<and> currentTerm (finish_election 2 n1) = 9"
proof -
  let ?n = "sample_node\<lparr>role := CANDIDATE, votedFor := 1, persistence := Some broken_disk\<rparr>"
  have "stateDir broken_disk \<noteq> []" by (simp add: broken_disk_def)
  then obtain msg where "fst (becomeFollower 9 ?n) = Inl (Runtime_error msg)"
    by (simp add: becomeFollower_def persistState_def saveState_def save_ops_def open_trunc_def broken_disk_def
        split: prod.split)
  with failed_step_down_still_wins [of ?n "\<lparr>rvr_term = 9, voteGranted = False\<rparr>" "Runtime_error msg" 2]
  show ?thesis by (auto simp: majority_def)
qed

text \<open>
  A node without peers elects itself but never commits: \<open>updateCommitIndex\<close> runs only when a
  follower answers, so a heartbeat round of such a leader does nothing at all.
\<close>

theorem single_node_never_commits:
  assumes "peerIds n = []" and "disk_ok n"
  shows "\<exists>n'. startElection rpc now (n, w) = (Inr (), (n', w)) \<and> role n' = LEADER \<and>
    commitIndex n' = commitIndex n \<and> heartbeatTimer_tick rpc (n', w) = (Inr (), (n', w))"
proof -
  obtain args n1 where b: "begin_election now n = (Inr args, n1)"
    using assms(2) by (cases "begin_election now n") (simp add: begin_election_def Let_def)
  then have n1: "peerIds n1 = []" "commitIndex n1 = commitIndex n"
    using assms by (auto simp: begin_election_def Let_def)
  then have "startElection rpc now (n, w) = (Inr (), (becomeLeader n1, w))"
    using b by (simp add: startElection_def lift_node_def finish_election_def majority_def Let_def
        sendHeartbeats_def becomeLeader_def)
  moreover have "heartbeatTimer_tick rpc (becomeLeader n1, w) = (Inr (), (becomeLeader n1, w))"
    using n1 by (simp add: heartbeatTimer_tick_def sendHeartbeats_def becomeLeader_def Let_def)
  ultimately show ?thesis using n1(2) by (intro exI [of _ "becomeLeader n1"]) (simp add: becomeLeader_def Let_def)
qed

theorem single_node_never_commits_witness:
  "\<exists>n'. startElection sample_rpc 5 (sample_node\<lparr>peerIds := []\<rparr>, ()) = (Inr (), (n', ())) \<and>
    role n' = LEADER \<and> commitIndex n' = 0"
  using single_node_never_commits [of "sample_node\<lparr>peerIds := []\<rparr>" sample_rpc 5 "()"] by auto

end
