(* ===== verification/Raft_Restart.thy ===== *)
theory Raft_Restart
  imports Raft_Leader_Laws
begin

text \<open>
  What a node owes its disk across operations: whenever an operation ends, the state file holds the
  node's current term and vote, so that the constructor finds them again. The log may differ, for an
  exception can fall between a change of the log and the next save.
\<close>

section \<open>The disk stays usable\<close>

lemma disk_ok_persistence: "persistence m = persistence n \<Longrightarrow> disk_ok m = disk_ok n"
  by (simp add: disk_ok_def)

lemma disk_ok_store_entries [simp]: "disk_ok n \<Longrightarrow> disk_ok (snd (store_entries args n))"
  by (simp add: store_entries_def snd_andThen split: prod.split sum.split)

lemma disk_ok_process_entries [simp]: "disk_ok n \<Longrightarrow> disk_ok (snd (process_entries now args n))"
  by (simp add: process_entries_def Let_def snd_andThen split: option.split sum.split)

lemma disk_ok_receive_snapshot [simp]: "disk_ok n \<Longrightarrow> disk_ok (snd (receive_snapshot now args n))"
  by (simp add: receive_snapshot_def Let_def split: sum.split)

lemma disk_ok_handleClientRequest: "disk_ok n \<Longrightarrow> disk_ok (snd (handleClientRequest request n))"
  by (auto simp: handleClientRequest_def Let_def split: sum.splits prod.splits unit.splits
      dest!: arg_cong [where f = snd])

lemma disk_ok_takeNodeSnapshot [simp]: "disk_ok n \<Longrightarrow> disk_ok (snd (takeNodeSnapshot i n))"
  by (simp add: takeNodeSnapshot_def Let_def)

section \<open>Term and vote are on disk\<close>

definition vote_on_disk :: "raft_node \<Rightarrow> bool" where
  "vote_on_disk n \<longleftrightarrow>
     (\<forall>p. persistence n = Some p \<and> stateDir p \<noteq> [] \<longrightarrow>
        (case files (fs p) (getStatePath p) of
           None \<Rightarrow> currentTerm n = 0 \<and> votedFor n = 0
         | Some content \<Rightarrow> \<exists>l si st. content = state_image (currentTerm n) (votedFor n) l si st))"

definition stored :: "raft_node \<Rightarrow> bool" where
  "stored n \<longleftrightarrow> disk_ok n \<and> vote_on_disk n"

lemma stored_disk_ok: "stored n \<Longrightarrow> disk_ok n"
  by (simp add: stored_def)

lemma stored_unchanged:
  assumes "persistence m = persistence n" and "currentTerm m = currentTerm n" and "votedFor m = votedFor n"
  shows "stored m = stored n"
  unfolding stored_def disk_ok_def vote_on_disk_def assms ..

lemma stored_persistState [simp]:
  assumes "disk_ok n"
  shows "stored (snd (persistState n))"
proof -
  have "persisted (snd (persistState n))" by (rule persistState_persisted [OF assms])
  then have "vote_on_disk (snd (persistState n))"
    unfolding persisted_def vote_on_disk_def by (fastforce split: option.split)
  with persistState_ok(2) [OF assms] show ?thesis by (simp add: stored_def)
qed

lemma stored_becomeFollower [simp]: "disk_ok n \<Longrightarrow> stored (snd (becomeFollower t n))"
  by (simp add: becomeFollower_def)

lemma stored_becomeCandidate [simp]: "disk_ok n \<Longrightarrow> stored (snd (becomeCandidate n))"
  by (simp add: becomeCandidate_def)

lemma stored_resetElectionTimer [simp]: "stored (resetElectionTimer now n) = stored n"
  by (rule stored_unchanged) simp_all

lemma stored_applyCommittedEntries [simp]: "stored (snd (applyCommittedEntries n)) = stored n"
  by (rule stored_unchanged) simp_all

lemma stored_andThen:
  "stored (snd x) \<Longrightarrow> (\<And>a m. stored m \<Longrightarrow> stored (snd (f a m))) \<Longrightarrow> stored (snd (andThen x f))"
  by (simp add: snd_andThen split: sum.split)

lemma persisted_vote_on_disk: "persisted n \<Longrightarrow> vote_on_disk n"
  unfolding persisted_def vote_on_disk_def by (fastforce split: option.split)

section \<open>Every operation keeps them there\<close>

lemma stored_consider_vote: "stored n \<Longrightarrow> stored (snd (consider_vote now args n))"
  by (simp add: consider_vote_def Let_def snd_andThen stored_disk_ok split: sum.split)

lemma stored_handleRequestVote: "stored n \<Longrightarrow> stored (snd (handleRequestVote now args n))"
  by (auto simp: handleRequestVote_def stored_disk_ok intro!: stored_andThen stored_consider_vote)

lemma stored_store_entries: "stored n \<Longrightarrow> stored (snd (store_entries args n))"
proof -
  assume n: "stored n"
  have l: "stored (n\<lparr>log := l\<rparr>)" for l using n stored_unchanged [of "n\<lparr>log := l\<rparr>" n] by simp
  then show ?thesis
    using n by (auto simp: store_entries_def stored_disk_ok split: prod.split intro!: stored_andThen)
qed

lemma stored_advance_commit: "stored n \<Longrightarrow> stored (snd (advance_commit args n))"
  using stored_unchanged [of "n\<lparr>commitIndex := c\<rparr>" n for c] by (simp add: advance_commit_def)

lemma stored_process_entries: "stored n \<Longrightarrow> stored (snd (process_entries now args n))"
  using stored_unchanged [of "n\<lparr>currentLeaderId := ae_leaderId args\<rparr>" n]
  by (auto simp: process_entries_def Let_def split: option.split
      intro!: stored_andThen stored_store_entries stored_advance_commit)

lemma stored_handleAppendEntries: "stored n \<Longrightarrow> stored (snd (handleAppendEntries now args n))"
  by (auto simp: handleAppendEntries_def stored_disk_ok intro!: stored_andThen stored_process_entries)

lemma stored_receive_snapshot: "stored n \<Longrightarrow> stored (snd (receive_snapshot now args n))"
proof -
  assume n: "stored n"
  let ?n = "(resetElectionTimer now n)\<lparr>snapshotData := is_data args, snapshotIndex := is_lastIncludedIndex args,
    snapshotTerm := is_lastIncludedTerm args,
    log := discardEntriesUpTo (is_lastIncludedIndex args) (is_lastIncludedTerm args) (log n)\<rparr>"
  have m: "stored ?n" using n stored_unchanged [of ?n n] by simp
  then show ?thesis
    using stored_disk_ok [OF n]
    by (auto simp: receive_snapshot_def Let_def split: sum.split intro!: stored_andThen)
qed

lemma stored_handleInstallSnapshot: "stored n \<Longrightarrow> stored (snd (handleInstallSnapshot now args n))"
  by (auto simp: handleInstallSnapshot_def stored_disk_ok intro!: stored_andThen stored_receive_snapshot)

lemma stored_handleClientRequest: "stored n \<Longrightarrow> stored (snd (handleClientRequest request n))"
  using stored_disk_ok [of n]
  by (auto simp: handleClientRequest_def Let_def split: sum.splits prod.splits unit.splits
      dest!: arg_cong [where f = snd])

lemma stored_takeNodeSnapshot: "stored n \<Longrightarrow> stored (snd (takeNodeSnapshot i n))"
  by (simp add: takeNodeSnapshot_def Let_def stored_disk_ok)

lemma stored_begin_election: "stored n \<Longrightarrow> stored (snd (begin_election now n))"
  by (simp add: begin_election_def Let_def snd_andThen stored_disk_ok split: sum.split)

section \<open>The constructor finds them\<close>

lemma read_state_image:
  assumes "read_state_file (state_image t v l si st) = Inr ((t', v', x), d)"
  shows "t' = t \<and> v' = v"
proof -
  obtain rest where img: "state_image t v l si st = le_bytes 8 t @ le_bytes 8 v @ rest"
    by (simp add: state_image_def Let_def)
  have "log_field err (state_image t v l si st) 0 = Inr (t, 8)" for err
    using log_field_at [of err "[]" t "le_bytes 8 v @ rest"] by (simp add: img)
  moreover have "log_field err (state_image t v l si st) 8 = Inr (v, 16)" for err
    using log_field_at [of err "le_bytes 8 t" v rest] by (simp add: img)
  ultimately show ?thesis using assms by (auto simp: read_state_file_def bindE_Inr_iff split: if_splits)
qed

lemma restoreState_frame [simp]:
  "nodeId (snd (restoreState n)) = nodeId n" "peerIds (snd (restoreState n)) = peerIds n"
  "role (snd (restoreState n)) = role n" "persistence (snd (restoreState n)) = persistence n"
  by (simp_all add: restoreState_def Let_def split: option.split prod.split sum.split)

lemma restoreState_finds:
  assumes "persistence n = Some p" and "stateDir p \<noteq> []" and "readable (fs p) (getStatePath p)"
    and "files (fs p) (getStatePath p) = Some (state_image t v l si st)" and "restoreState n = (Inr (), n')"
  shows "currentTerm n' = t \<and> votedFor n' = v"
proof -
  obtain r l' where load: "loadState p [] (log n) = (r, l')" by fastforce
  have "\<exists>s. r = Inr (Some s) \<and> loaded_term s = t \<and> loaded_votedFor s = v" if "r = Inr x" for x
    using load that assms(2-4)
    by (auto simp: loadState_def persistence_exists_def andThen_Inr_iff split: sum.splits dest!: read_state_image)
  then show ?thesis
    using assms(1,5) load by (auto simp: restoreState_def Let_def split: sum.splits option.splits if_splits)
qed

lemma restart_finds:
  assumes "stored n" and "persistence n = Some p" and "stateDir p \<noteq> []"
    and "RaftNode nid peers kv threshold (stateDir p) (fs p) rng j1 j2 now = (Inr (), n')"
  shows "nodeId n' = nid" and "peerIds n' = peers" and "role n' = FOLLOWER" and "currentTerm n' = currentTerm n"
    and "votedFor n' = votedFor n" and "stored n'"
proof -
  let ?i = "initial_node nid peers kv threshold rng j1 j2 now"
  have p: "new_persistence (stateDir p) (fs p) = p" by (simp add: new_persistence_def)
  obtain m k where m: "restoreState (?i\<lparr>persistence := Some p\<rparr>) = (Inr (), m)" "restoreState k = (Inr (), n')"
    "nodeId k = nodeId m" "peerIds k = peerIds m" "role k = role m" "persistence k = persistence m"
    using assms(3,4) by (auto simp: RaftNode_def Let_def p andThen_Inr_iff)
  from m(1) have mf: "nodeId m = nid" "peerIds m = peers" "role m = FOLLOWER" "persistence m = Some p"
    using restoreState_frame [of "?i\<lparr>persistence := Some p\<rparr>"] by (simp_all add: initial_node_def)
  from m(2) have nf: "nodeId n' = nodeId k" "peerIds n' = peerIds k" "role n' = role k" "persistence n' = persistence k"
    using restoreState_frame [of k] by simp_all
  show "nodeId n' = nid" "peerIds n' = peers" "role n' = FOLLOWER"
    using mf nf m(3-6) by simp_all
  have per: "persistence n' = Some p" using mf nf m(3-6) by simp
  have same: "currentTerm n' = currentTerm n \<and> votedFor n' = votedFor n"
  proof (cases "files (fs p) (getStatePath p)")
    case None
    then have "currentTerm n = 0 \<and> votedFor n = 0"
      using assms(1-3) by (simp add: stored_def vote_on_disk_def)
    moreover have "files (fs p) (stateDir p @ ''/raft_state.dat'') = None"
      using None by (simp add: getStatePath_def)
    from assms(4) [unfolded RaftNode_fresh [OF this]] have "currentTerm n' = 0 \<and> votedFor n' = 0"
      by (auto simp: initial_node_def resetElectionTimer_def)
    ultimately show ?thesis by simp
  next
    case (Some content)
    with assms(1-3) obtain l si st where img: "files (fs p) (getStatePath p) = Some (state_image (currentTerm n) (votedFor n) l si st)"
      by (auto simp: stored_def vote_on_disk_def)
    have "readable (fs p) (getStatePath p)"
      using assms(1,2) by (simp add: stored_def disk_ok_def can_open_def)
    from restoreState_finds [OF _ assms(3) this img m(2)] mf(4) m(6) show ?thesis by simp
  qed
  then show "currentTerm n' = currentTerm n" "votedFor n' = votedFor n" by simp_all
  show "stored n'" using assms(1,2) same per stored_unchanged [of n' n] by simp
qed

section \<open>Votes and crashes\<close>

text \<open>
  C26. A crash between two saves does not make a node vote twice in a term. When a node whose files can
  be written granted a vote (to a candidate with an id other than 0) and its process ends at any later
  moment before the next save begins, every node that the constructor brings up from the files,
  whatever the log, has the term and the vote and refuses every other candidate of that term. The
  constructor does return with an empty log and no snapshot file; with an entry in a log that was
  never compacted it throws (\<open>restart_throws\<close>), and then there is no node that could vote. A crash in
  the middle of a save can lose the vote (\<open>saveState_crash_loses_state\<close>).
\<close>

theorem vote_survives_crash:
  assumes "disk_ok n" and "handleRequestVote now args n = (Inr reply, n1)" and "voteGranted reply"
    and "persistence n1 = Some p" and "stateDir p \<noteq> []" and "rv_candidateId args \<noteq> 0"
    and "RaftNode nid peers kv threshold (stateDir p) (fs p) rng j1 j2 now1 = (r, n2)"
  shows "(r = Inr () \<longrightarrow> currentTerm n2 = rv_term args \<and> votedFor n2 = rv_candidateId args \<and>
      (\<forall>other. rv_term other = rv_term args \<and> rv_candidateId other \<noteq> rv_candidateId args \<longrightarrow>
         handleRequestVote now2 other n2 = (Inr \<lparr>rvr_term = rv_term args, voteGranted = False\<rparr>, n2))) \<and>
    (log n = new_log \<and> files (fs p) (getSnapshotPath p) = None \<longrightarrow> r = Inr ())"
proof -
  from handleRequestVote_result [OF assms(1), of now args] assms(2,3)
  have n1: "currentTerm n1 = rv_term args" "votedFor n1 = rv_candidateId args" "log n1 = log n" "persisted n1"
    by (auto simp: max_def split: if_splits)
  have "disk_ok (snd (handleRequestVote now args n))"
    using assms(1) by (simp add: handleRequestVote_def consider_vote_def Let_def)
  then have disk: "disk_ok n1" by (simp add: assms(2))
  then have "stored n1" using persisted_vote_on_disk [OF n1(4)] by (simp add: stored_def)
  note f = restart_finds [OF this assms(4,5)]
  have "currentTerm n2 = rv_term args \<and> votedFor n2 = rv_candidateId args" if "r = Inr ()"
    using f(4,5) assms(7) n1 unfolding that by simp
  moreover have "r = Inr ()" if empty: "log n = new_log" "files (fs p) (getSnapshotPath p) = None"
  proof -
    have "can_open p" using disk assms(4) by (simp add: disk_ok_def)
    moreover have "files (fs p) (getStatePath p) = Some (state_image (rv_term args) (rv_candidateId args) new_log
        (getSnapshotIndex new_log) (getSnapshotTerm new_log))"
      using n1 assms(4,5) empty(1) by (simp add: persisted_def)
    ultimately obtain m where "RaftNode nid peers kv threshold (stateDir p) (fs p) rng j1 j2 now1 = (Inr (), m)"
      using restart_empty [OF _ assms(5) empty(2)] by blast
    then show ?thesis using assms(7) by simp
  qed
  ultimately show ?thesis
    using assms(6) by (auto simp: handleRequestVote_def consider_vote_def Let_def)
qed

theorem vote_survives_crash_witness:
  "\<exists>reply n1 p n2. handleRequestVote 5 \<lparr>rv_term = 2, rv_candidateId = 3, rv_lastLogIndex = 0, rv_lastLogTerm = 0\<rparr>
      (sample_node\<lparr>log := new_log\<rparr>) = (Inr reply, n1) \<and> persistence n1 = Some p \<and>
    RaftNode 1 [2, 3] empty_kvstore 10000 (stateDir p) (fs p) (sconst 0) 0 0 9 = (Inr (), n2) \<and> votedFor n2 = 3"
proof -
  let ?n = "sample_node\<lparr>log := new_log\<rparr>"
  let ?a = "\<lparr>rv_term = 2, rv_candidateId = 3, rv_lastLogIndex = 0, rv_lastLogTerm = 0\<rparr>"
  let ?k = "?n\<lparr>votedFor := 3\<rparr>"
  obtain p where p: "persistState ?k = (Inr (), ?k\<lparr>persistence := Some p\<rparr>)" "stateDir p \<noteq> []"
    "files (fs p) (getSnapshotPath p) = None"
    by (simp add: persistState_def saveState_files)
  have up: "isLogUpToDate 0 0 ?n" by (simp add: isLogUpToDate_def getLastIndex_def getLastTerm_def new_log_def dummy_entry_def)
  then have run: "handleRequestVote 5 ?a ?n =
      (Inr \<lparr>rvr_term = 2, voteGranted = True\<rparr>, resetElectionTimer 5 (?k\<lparr>persistence := Some p\<rparr>))"
    using p(1) by (simp add: handleRequestVote_def consider_vote_def Let_def)
  have "persistence (resetElectionTimer 5 (?k\<lparr>persistence := Some p\<rparr>)) = Some p" by (simp add: resetElectionTimer_def)
  obtain r n2 where n2: "RaftNode 1 [2, 3] empty_kvstore 10000 (stateDir p) (fs p) (sconst 0) 0 0 9 = (r, n2)" by fastforce
  from \<open>persistence (resetElectionTimer 5 (?k\<lparr>persistence := Some p\<rparr>)) = Some p\<close>
  show ?thesis using vote_survives_crash [OF _ run _ _ p(2) _ n2] p(3) run n2 by fastforce
qed

end
