(* ===== verification/Raft_Cluster.thy ===== *)
theory Raft_Cluster
  imports Raft_Restart
begin

text \<open>
  A cluster of nodes that call each other through a transport (\<open>src/raft/RaftNode.cpp\<close> on every
  node). The timer threads hold the lock of their node across their RPCs, so a node that runs an
  election or a heartbeat round handles no request meanwhile; \<open>doing\<close> is where such a round
  stands. The transport is any that delivers: a request that was sent stays in \<open>net\<close> and can reach
  its destination at any later moment, several times or never, also after the caller gave up; the
  caller gets a reply the handler produced for this request, or a failure reply of the two
  transports (term 0, or the caller's own term), or an exception.
\<close>

section \<open>State\<close>

datatype activity =
    Idle
  | Electing request_vote_args "u64 list" nat
  | Heartbeat "u64 list"
  | Stopped

datatype message =
    Vote_request u64 request_vote_args
  | Vote_reply u64 request_vote_args request_vote_reply
  | Append_request u64 append_entries_args
  | Append_reply u64 append_entries_args append_entries_reply
  | Snapshot_request u64 install_snapshot_args
  | Snapshot_reply u64 install_snapshot_args install_snapshot_reply

record cluster =
  node :: "u64 \<Rightarrow> raft_node"
  doing :: "u64 \<Rightarrow> activity"
  net :: "message set"

text \<open>Node \<open>j\<close> becomes \<open>n\<close>, its threads are at \<open>a\<close>, and the messages \<open>M\<close> were sent.\<close>

definition update :: "u64 \<Rightarrow> raft_node \<Rightarrow> activity \<Rightarrow> message set \<Rightarrow> cluster \<Rightarrow> cluster" where
  "update j n a M c = \<lparr>node = (node c)(j := n), doing = (doing c)(j := a), net = net c \<union> M\<rparr>"

lemma update_simps [simp]:
  "node (update j n a M c) = (node c)(j := n)" "doing (update j n a M c) = (doing c)(j := a)"
  "net (update j n a M c) = net c \<union> M"
  by (simp_all add: update_def)

section \<open>Steps\<close>

text \<open>What the caller of an RPC can get back.\<close>

fun vote_result :: "message set \<Rightarrow> u64 \<Rightarrow> request_vote_args \<Rightarrow> exn + request_vote_reply \<Rightarrow> bool" where
  "vote_result M p args (Inl e) = True"
| "vote_result M p args (Inr reply) =
     (Vote_reply p args reply \<in> M \<or>
      \<not> voteGranted reply \<and> (rvr_term reply = 0 \<or> rvr_term reply = rv_term args))"

definition append_result :: "message set \<Rightarrow> u64 \<Rightarrow> append_entries_args \<Rightarrow> append_entries_reply \<Rightarrow> bool" where
  "append_result M p args reply \<longleftrightarrow>
     Append_reply p args reply \<in> M \<or>
     \<not> aer_success reply \<and> (aer_term reply = 0 \<or> aer_term reply = ae_term args)"

definition snapshot_result :: "message set \<Rightarrow> u64 \<Rightarrow> install_snapshot_args \<Rightarrow> install_snapshot_reply \<Rightarrow> bool" where
  "snapshot_result M p args reply \<longleftrightarrow>
     Snapshot_reply p args reply \<in> M \<or> isr_term reply = 0 \<or> isr_term reply = is_term args"

text \<open>The reply that a handler sends, if it did not throw.\<close>

definition replies :: "(exn + 'r) \<Rightarrow> ('r \<Rightarrow> message) \<Rightarrow> message set" where
  "replies r f = (case r of Inl e \<Rightarrow> {} | Inr reply \<Rightarrow> {f reply})"

definition after_vote :: "request_vote_args \<Rightarrow> u64 list \<Rightarrow> exn + nat option \<Rightarrow> activity" where
  "after_vote args ps r =
     (case r of Inl e \<Rightarrow> Stopped | Inr None \<Rightarrow> Idle | Inr (Some v) \<Rightarrow> Electing args ps v)"

definition after_heartbeat :: "u64 list \<Rightarrow> exn + unit \<Rightarrow> activity" where
  "after_heartbeat ps r = (case r of Inl e \<Rightarrow> Stopped | Inr _ \<Rightarrow> Heartbeat ps)"

inductive cluster_step :: "u64 set \<Rightarrow> cluster \<Rightarrow> cluster \<Rightarrow> bool" for N where
  vote: "\<lbrakk>j \<in> N; doing c j = Idle; Vote_request j args \<in> net c; handleRequestVote now args (node c j) = (r, n)\<rbrakk> \<Longrightarrow>
    cluster_step N c (update j n Idle (replies r (Vote_reply j args)) c)"
| append: "\<lbrakk>j \<in> N; doing c j = Idle; Append_request j args \<in> net c; handleAppendEntries now args (node c j) = (r, n)\<rbrakk> \<Longrightarrow>
    cluster_step N c (update j n Idle (replies r (Append_reply j args)) c)"
| snapshot: "\<lbrakk>j \<in> N; doing c j = Idle; Snapshot_request j args \<in> net c; handleInstallSnapshot now args (node c j) = (r, n)\<rbrakk> \<Longrightarrow>
    cluster_step N c (update j n Idle (replies r (Snapshot_reply j args)) c)"
| client: "\<lbrakk>j \<in> N; doing c j = Idle\<rbrakk> \<Longrightarrow>
    cluster_step N c (update j (snd (handleClientRequest request (node c j))) Idle {} c)"
| compact: "\<lbrakk>j \<in> N; doing c j = Idle\<rbrakk> \<Longrightarrow>
    cluster_step N c (update j (snd (snapshotTimer_tick (node c j))) Idle {} c)"
| trigger: "\<lbrakk>j \<in> N; doing c j = Idle\<rbrakk> \<Longrightarrow>
    cluster_step N c (update j (snd (triggerSnapshot (node c j))) Idle {} c)"
| election: "\<lbrakk>j \<in> N; doing c j = Idle; running (node c j); role (node c j) \<noteq> LEADER;
      to_milliseconds (now - lastHeartbeat (node c j)) > electionTimeout (node c j);
      begin_election now' (node c j) = (Inr args, n)\<rbrakk> \<Longrightarrow>
    cluster_step N c (update j n (Electing args (peerIds n) 1) {} c)"
| ask_vote: "\<lbrakk>j \<in> N; doing c j = Electing args (p # ps) v\<rbrakk> \<Longrightarrow>
    cluster_step N c (update j (node c j) (Electing args (p # ps) v) {Vote_request p args} c)"
| hear_vote: "\<lbrakk>j \<in> N; doing c j = Electing args (p # ps) v; vote_result (net c) p args result;
      on_vote_result result v (node c j) = (r, n)\<rbrakk> \<Longrightarrow>
    cluster_step N c (update j n (after_vote args ps r) {} c)"
| finish: "\<lbrakk>j \<in> N; doing c j = Electing args [] v\<rbrakk> \<Longrightarrow>
    cluster_step N c (update j (finish_election v (node c j))
      (if v \<ge> majority (node c j) then Heartbeat (peerIds (node c j)) else Idle) {} c)"
| heartbeat: "\<lbrakk>j \<in> N; doing c j = Idle; running (node c j); role (node c j) = LEADER\<rbrakk> \<Longrightarrow>
    cluster_step N c (update j (node c j) (Heartbeat (peerIds (node c j))) {} c)"
| skip_peer: "\<lbrakk>j \<in> N; doing c j = Heartbeat (p # ps); peerIdToIndexMap (node c j) p = None\<rbrakk> \<Longrightarrow>
    cluster_step N c (update j (node c j) (Heartbeat ps) {} c)"
| send_append: "\<lbrakk>j \<in> N; doing c j = Heartbeat (p # ps); peerIdToIndexMap (node c j) p = Some i;
      prepare_replication i (node c j) = Inr (Send_append args)\<rbrakk> \<Longrightarrow>
    cluster_step N c (update j (node c j) (Heartbeat (p # ps)) {Append_request p args} c)"
| hear_append: "\<lbrakk>j \<in> N; doing c j = Heartbeat (p # ps); peerIdToIndexMap (node c j) p = Some i;
      prepare_replication i (node c j) = Inr (Send_append args); append_result (net c) p args reply;
      on_append_reply i args reply (node c j) = (r, n)\<rbrakk> \<Longrightarrow>
    cluster_step N c (update j n (after_heartbeat ps r) {} c)"
| send_snapshot: "\<lbrakk>j \<in> N; doing c j = Heartbeat (p # ps); peerIdToIndexMap (node c j) p = Some i;
      prepare_replication i (node c j) = Inr (Send_snapshot sargs)\<rbrakk> \<Longrightarrow>
    cluster_step N c (update j (node c j) (Heartbeat (p # ps)) {Snapshot_request p sargs} c)"
| hear_snapshot: "\<lbrakk>j \<in> N; doing c j = Heartbeat (p # ps); peerIdToIndexMap (node c j) p = Some i;
      prepare_replication i (node c j) = Inr (Send_snapshot sargs); snapshot_result (net c) p sargs sreply;
      on_snapshot_reply i sreply (node c j) = (r, n)\<rbrakk> \<Longrightarrow>
    cluster_step N c (update j n (after_heartbeat ps r) {} c)"
| end_heartbeat: "\<lbrakk>j \<in> N; doing c j = Heartbeat []\<rbrakk> \<Longrightarrow>
    cluster_step N c (update j (node c j) Idle {} c)"
| stop: "\<lbrakk>j \<in> N\<rbrakk> \<Longrightarrow>
    cluster_step N c (update j (node c j) Stopped {} c)"
| restart: "\<lbrakk>j \<in> N; doing c j = Stopped; persistence (node c j) = Some p; stateDir p \<noteq> [];
      RaftNode j (peerIds (node c j)) kv threshold (stateDir p) (fs p) rng j1 j2 now = (Inr (), n)\<rbrakk> \<Longrightarrow>
    cluster_step N c (update j n Idle {} c)"

text \<open>
  A node can stop between any two steps (killed, or an exception left one of its threads); then the
  constructor can run again on the files it left, for the same id and peers, and may throw. A node
  without a directory that stopped stays so. The cluster starts with nodes that the constructor
  made on empty directories.
\<close>

definition fresh_node :: "u64 \<Rightarrow> u64 set \<Rightarrow> raft_node \<Rightarrow> bool" where
  "fresh_node i N n \<longleftrightarrow>
     (\<exists>peers kv threshold dir disk rng j1 j2 now.
        RaftNode i peers kv threshold dir disk rng j1 j2 now = (Inr (), n) \<and>
        distinct peers \<and> set peers = N - {i} \<and>
        files disk (dir @ ''/raft_state.dat'') = None \<and> can_open (new_persistence dir disk))"

definition cluster_start :: "u64 set \<Rightarrow> cluster \<Rightarrow> bool" where
  "cluster_start N c \<longleftrightarrow> finite N \<and> 0 \<notin> N \<and> (\<forall>i \<in> N. fresh_node i N (node c i) \<and> doing c i = Idle) \<and> net c = {}"

text \<open>The clusters that can be reached in \<open>k\<close> steps.\<close>

inductive reach :: "u64 set \<Rightarrow> nat \<Rightarrow> cluster \<Rightarrow> bool" for N where
  start: "cluster_start N c \<Longrightarrow> reach N 0 c"
| step: "reach N k c \<Longrightarrow> cluster_step N c c' \<Longrightarrow> reach N (Suc k) c'"

section \<open>What every operation but the own election respects\<close>

definition reactive :: "u64 \<Rightarrow> raft_node \<Rightarrow> raft_node \<Rightarrow> bool" where
  "reactive t n n' \<longleftrightarrow>
     vote_step n n' \<and> (currentTerm n' = currentTerm n \<or> currentTerm n' = t) \<and> (stored n \<longrightarrow> stored n') \<and>
     (role n' \<noteq> FOLLOWER \<longrightarrow>
        role n' = role n \<and> currentTerm n' = currentTerm n \<and> (votedFor n \<noteq> 0 \<longrightarrow> votedFor n' = votedFor n))"

lemma reactive_refl [simp]: "reactive t n n"
  by (simp add: reactive_def)

text \<open>A handler that changed the term, or made the node step down, leaves a follower.\<close>

lemma handleRequestVote_frame:
  "log (snd (handleRequestVote now args n)) = log n" "commitIndex (snd (handleRequestVote now args n)) = commitIndex n"
  "lastApplied (snd (handleRequestVote now args n)) = lastApplied n"
  "kvStore (snd (handleRequestVote now args n)) = kvStore n"
  "lastAppliedSeq (snd (handleRequestVote now args n)) = lastAppliedSeq n"
  by (simp_all add: handleRequestVote_def consider_vote_def Let_def snd_andThen split: sum.split)

lemma handleRequestVote_stale: "rv_term args < currentTerm n \<Longrightarrow> snd (handleRequestVote now args n) = n"
  by (simp add: handleRequestVote_def)

lemma handleRequestVote_newer:
  assumes "currentTerm n < rv_term args"
  shows "role (snd (handleRequestVote now args n)) = FOLLOWER \<and>
    currentTerm (snd (handleRequestVote now args n)) = rv_term args"
proof -
  have "\<not> rv_term args < currentTerm n" using assms by (rule less_not_sym)
  then show ?thesis
    using assms by (simp only: handleRequestVote_def if_True if_False) (simp add: snd_andThen split: sum.split)
qed

lemma handleRequestVote_same:
  assumes "rv_term args = currentTerm n"
  shows "role (snd (handleRequestVote now args n)) = role n \<and>
     currentTerm (snd (handleRequestVote now args n)) = currentTerm n \<and>
     (votedFor n \<noteq> 0 \<longrightarrow> votedFor (snd (handleRequestVote now args n)) = votedFor n)"
  by (simp add: handleRequestVote_def assms consider_vote_keeps)

lemma reactive_cases:
  assumes "vote_step n n'" and "stored n \<longrightarrow> stored n'"
    and "n' = n \<or> role n' = FOLLOWER \<and> currentTerm n' = t \<or>
      role n' = role n \<and> currentTerm n' = currentTerm n \<and> (votedFor n \<noteq> 0 \<longrightarrow> votedFor n' = votedFor n)"
  shows "reactive t n n'"
  using assms by (auto simp: reactive_def)

lemma reactive_handleRequestVote: "reactive (rv_term args) n (snd (handleRequestVote now args n))"
proof (rule reactive_cases)
  show "stored n \<longrightarrow> stored (snd (handleRequestVote now args n))"
    by (simp add: stored_handleRequestVote)
  show "snd (handleRequestVote now args n) = n \<or>
    role (snd (handleRequestVote now args n)) = FOLLOWER \<and> currentTerm (snd (handleRequestVote now args n)) = rv_term args \<or>
    role (snd (handleRequestVote now args n)) = role n \<and> currentTerm (snd (handleRequestVote now args n)) = currentTerm n \<and>
    (votedFor n \<noteq> 0 \<longrightarrow> votedFor (snd (handleRequestVote now args n)) = votedFor n)"
    using handleRequestVote_stale [of args n now] handleRequestVote_newer [of n args now]
      handleRequestVote_same [of args n now]
    by (cases "rv_term args" "currentTerm n" rule: linorder_cases) blast+
qed (rule handleRequestVote_vote_step)

lemma handleAppendEntries_cases:
  "ae_term args < currentTerm n \<Longrightarrow> snd (handleAppendEntries now args n) = n"
  "\<not> ae_term args < currentTerm n \<Longrightarrow> role (snd (handleAppendEntries now args n)) = FOLLOWER \<and>
     currentTerm (snd (handleAppendEntries now args n)) = ae_term args"
  by (simp_all add: handleAppendEntries_def snd_andThen split: sum.split)

lemma reactive_handleAppendEntries: "reactive (ae_term args) n (snd (handleAppendEntries now args n))"
proof (rule reactive_cases)
  show "stored n \<longrightarrow> stored (snd (handleAppendEntries now args n))"
    by (simp add: stored_handleAppendEntries)
qed (use handleAppendEntries_cases [of args n now] handleAppendEntries_vote_step in blast)+

lemma handleInstallSnapshot_stale: "is_term args < currentTerm n \<Longrightarrow> snd (handleInstallSnapshot now args n) = n"
  by (simp add: handleInstallSnapshot_def)

lemma handleInstallSnapshot_newer:
  assumes "currentTerm n < is_term args"
  shows "role (snd (handleInstallSnapshot now args n)) = FOLLOWER \<and>
    currentTerm (snd (handleInstallSnapshot now args n)) = is_term args"
proof -
  have "\<not> is_term args < currentTerm n" using assms by (rule less_not_sym)
  then show ?thesis
    using assms by (simp only: handleInstallSnapshot_def if_True if_False) (simp add: snd_andThen split: sum.split)
qed

lemma handleInstallSnapshot_same:
  assumes "is_term args = currentTerm n"
  shows "role (snd (handleInstallSnapshot now args n)) = role n \<and>
    currentTerm (snd (handleInstallSnapshot now args n)) = currentTerm n \<and>
    votedFor (snd (handleInstallSnapshot now args n)) = votedFor n"
  by (simp add: handleInstallSnapshot_def assms)

lemma reactive_handleInstallSnapshot: "reactive (is_term args) n (snd (handleInstallSnapshot now args n))"
proof (rule reactive_cases)
  show "stored n \<longrightarrow> stored (snd (handleInstallSnapshot now args n))"
    by (simp add: stored_handleInstallSnapshot)
  show "snd (handleInstallSnapshot now args n) = n \<or>
    role (snd (handleInstallSnapshot now args n)) = FOLLOWER \<and> currentTerm (snd (handleInstallSnapshot now args n)) = is_term args \<or>
    role (snd (handleInstallSnapshot now args n)) = role n \<and> currentTerm (snd (handleInstallSnapshot now args n)) = currentTerm n \<and>
    (votedFor n \<noteq> 0 \<longrightarrow> votedFor (snd (handleInstallSnapshot now args n)) = votedFor n)"
    using handleInstallSnapshot_stale [of args n now] handleInstallSnapshot_newer [of n args now]
      handleInstallSnapshot_same [of args n now]
    by (cases "is_term args" "currentTerm n" rule: linorder_cases) blast+
qed (rule handleInstallSnapshot_vote_step)

lemma reactive_unchanged:
  assumes "vote_step n n'" and "stored n \<longrightarrow> stored n'" and "currentTerm n' = currentTerm n"
    and "role n' = role n" and "votedFor n' = votedFor n"
  shows "reactive t n n'"
  using assms by (simp add: reactive_def)

lemma reactive_handleClientRequest: "reactive t n (snd (handleClientRequest request n))"
  by (rule reactive_unchanged) (simp_all add: handleClientRequest_vote_step stored_handleClientRequest)

lemma reactive_triggerSnapshot: "reactive t n (snd (triggerSnapshot n))"
  by (rule reactive_unchanged) (simp_all add: triggerSnapshot_vote_step, simp_all add: triggerSnapshot_def stored_takeNodeSnapshot)

lemma snapshotTimer_tick_snd: "snd (snapshotTimer_tick n) = n \<or> snd (snapshotTimer_tick n) = snd (takeNodeSnapshot (lastApplied n) n)"
  by (auto simp: snapshotTimer_tick_def split: prod.split sum.split)

lemma reactive_snapshotTimer_tick: "reactive t n (snd (snapshotTimer_tick n))"
  using snapshotTimer_tick_snd [of n] snapshotTimer_tick_vote_step [of n]
  by (intro reactive_unchanged) (auto simp: stored_takeNodeSnapshot)

text \<open>A node that the constructor made again from its files is a follower with its old term and vote.\<close>

lemma reactive_restart:
  assumes "nodeId n = i" and "stored n" and "persistence n = Some p" and "stateDir p \<noteq> []"
    and "RaftNode i (peerIds n) kv threshold (stateDir p) (fs p) rng j1 j2 now = (Inr (), n')"
  shows "reactive (currentTerm n) n n'"
  by (rule reactive_cases) (use restart_finds [OF assms(2-5)] assms(1) in \<open>simp_all add: vote_step_def\<close>)

section \<open>Replies\<close>

lemma consider_vote_reply:
  assumes "consider_vote now args n = (Inr reply, n')"
  shows "rvr_term reply = currentTerm n \<and>
    (voteGranted reply \<longrightarrow> votedFor n' = rv_candidateId args \<and> (votedFor n = 0 \<or> votedFor n = rv_candidateId args))"
proof -
  obtain r m where p: "persistState (n\<lparr>votedFor := rv_candidateId args\<rparr>) = (r, m)" by fastforce
  then have "votedFor m = rv_candidateId args"
    using persistState_frame(2) [of "n\<lparr>votedFor := rv_candidateId args\<rparr>"] by simp
  with assms p show ?thesis
    by (auto simp: consider_vote_def Let_def andThen_Inr_iff split: if_splits)
qed

text \<open>What a vote request does to the node when the reply grants it.\<close>

lemma handleRequestVote_granted:
  assumes "handleRequestVote now args n = (Inr reply, n')" and "voteGranted reply"
  shows "currentTerm n \<le> rv_term args" and "currentTerm n' = rv_term args" and "votedFor n' = rv_candidateId args"
    and "role n' = (if currentTerm n = rv_term args then role n else FOLLOWER)"
    and "currentTerm n = rv_term args \<Longrightarrow> votedFor n = 0 \<or> votedFor n = rv_candidateId args"
proof -
  show le: "currentTerm n \<le> rv_term args"
    using assms by (auto simp: handleRequestVote_def not_less split: if_splits)
  obtain m where m: "consider_vote now args m = (Inr reply, n')" "currentTerm m = rv_term args"
    "role m = (if currentTerm n = rv_term args then role n else FOLLOWER)"
    "currentTerm n = rv_term args \<Longrightarrow> m = n"
  proof (cases "currentTerm n = rv_term args")
    case True
    with assms(1) that [of n] show ?thesis by (simp add: handleRequestVote_def)
  next
    case False
    with le have "currentTerm n < rv_term args" "\<not> rv_term args < currentTerm n" by auto
    with assms(1) obtain u k where "becomeFollower (rv_term args) n = (Inr u, k)" "consider_vote now args k = (Inr reply, n')"
      by (auto simp: handleRequestVote_def andThen_Inr_iff)
    with False that [of k] becomeFollower_frame [of "rv_term args" n] show ?thesis by simp
  qed
  from m(1) have "n' = snd (consider_vote now args m)" by simp
  with m(2,3) show "currentTerm n' = rv_term args" "role n' = (if currentTerm n = rv_term args then role n else FOLLOWER)"
    by simp_all
  from consider_vote_reply [OF m(1)] assms(2) m(4) show "votedFor n' = rv_candidateId args"
    "currentTerm n = rv_term args \<Longrightarrow> votedFor n = 0 \<or> votedFor n = rv_candidateId args"
    by auto
qed

text \<open>A reply carries the old term of the node or the term of the request.\<close>

lemma handleRequestVote_reply_term:
  assumes "handleRequestVote now args n = (Inr reply, n')"
  shows "rvr_term reply = currentTerm n \<or> rvr_term reply = rv_term args"
proof -
  have "rvr_term reply = currentTerm m" if "consider_vote now args m = (Inr reply, n')" for m
    using consider_vote_reply [OF that] by simp
  with assms show ?thesis
    by (auto simp: handleRequestVote_def andThen_Inr_iff split: if_splits) (metis becomeFollower_frame(1) snd_conv)
qed

lemma process_entries_reply_term:
  assumes "process_entries now args n = (Inr reply, n')"
  shows "aer_term reply = currentTerm n"
proof -
  let ?k = "resetElectionTimer now (n\<lparr>currentLeaderId := ae_leaderId args\<rparr>)"
  show ?thesis
  proof (cases "check_previous args ?k")
    case None
    with assms have "process_entries now args n = (Inr reply, n')" "aer_term reply = currentTerm n'"
      by (auto simp: process_entries_def Let_def andThen_Inr_iff)
    then show ?thesis using process_entries_frame(1) [of now args n] by simp
  next
    case (Some r)
    with assms check_previous_Some [OF Some] show ?thesis by (auto simp: process_entries_def Let_def)
  qed
qed

lemma handleAppendEntries_reply_term:
  assumes "handleAppendEntries now args n = (Inr reply, n')"
  shows "aer_term reply = currentTerm n \<or> aer_term reply = ae_term args"
  using assms
  by (auto simp: handleAppendEntries_def andThen_Inr_iff split: if_splits dest!: process_entries_reply_term)
    (metis becomeFollower_frame(1) snd_conv)+

lemma receive_snapshot_reply_term:
  "receive_snapshot now args n = (Inr reply, n') \<Longrightarrow> isr_term reply = currentTerm n"
  by (auto simp: receive_snapshot_def Let_def andThen_Inr_iff split: sum.splits)

lemma handleInstallSnapshot_reply_term:
  assumes "handleInstallSnapshot now args n = (Inr reply, n')"
  shows "isr_term reply = currentTerm n \<or> isr_term reply = is_term args"
  using assms
  by (auto simp: handleInstallSnapshot_def andThen_Inr_iff split: if_splits dest!: receive_snapshot_reply_term)
    (metis becomeFollower_frame(1) snd_conv)+


section \<open>The replies to a leader or candidate\<close>

definition same_vote :: "raft_node \<Rightarrow> raft_node \<Rightarrow> bool" where
  "same_vote n n' \<longleftrightarrow> nodeId n' = nodeId n \<and> peerIds n' = peerIds n \<and> currentTerm n' = currentTerm n \<and>
     votedFor n' = votedFor n \<and> role n' = role n \<and> persistence n' = persistence n"

lemma same_vote_reactive: "same_vote n n' \<Longrightarrow> reactive t n n'"
  using stored_unchanged [of n' n] by (intro reactive_unchanged) (simp_all add: same_vote_def vote_step_def)

lemma same_vote_trans: "same_vote a b \<Longrightarrow> same_vote b c \<Longrightarrow> same_vote a c"
  by (simp add: same_vote_def)

lemma same_vote_refl [simp]: "same_vote n n"
  by (simp add: same_vote_def)

lemma same_vote_apply: "same_vote n (snd (applyCommittedEntries (n\<lparr>commitIndex := c\<rparr>)))"
  by (simp add: same_vote_def)

lemma commit_loop_same_vote: "commit_loop i lst n = Some r \<Longrightarrow> same_vote n (snd r)"
  by (rule commit_loop_relates [of same_vote, OF same_vote_refl same_vote_trans same_vote_apply])

lemma updateCommitIndex_same_vote: "same_vote n (snd (updateCommitIndex n))"
  using commit_loop_same_vote [of "commitIndex n + 1" "getLastIndex (log n)" n]
  by (auto simp: updateCommitIndex_def split: option.split)

lemma reactive_becomeFollower: "currentTerm n < t \<Longrightarrow> reactive t n (snd (becomeFollower t n))"
  by (rule reactive_cases) (simp_all add: vote_step_def stored_disk_ok less_imp_le less_imp_neq [THEN not_sym])

lemma same_vote_indices [simp]:
  "same_vote n (n\<lparr>nextIndex := xs\<rparr>)" "same_vote n (n\<lparr>matchIndex := ys, nextIndex := xs\<rparr>)"
  "same_vote n (n\<lparr>nextIndex := xs, matchIndex := ys\<rparr>)"
  by (simp_all add: same_vote_def)

lemma reactive_on_append_reply: "reactive (aer_term reply) n (snd (on_append_reply i args reply n))"
proof (cases "aer_term reply > currentTerm n")
  case True
  then show ?thesis by (simp only: on_append_reply_def if_True reactive_becomeFollower)
next
  case False
  let ?n = "if ae_entries args \<noteq> [] then n\<lparr>matchIndex := (matchIndex n)[i := e_index (last (ae_entries args))],
    nextIndex := (nextIndex n)[i := e_index (last (ae_entries args)) + 1]\<rparr> else n"
  have "same_vote n (snd (updateCommitIndex ?n))"
    by (rule same_vote_trans [OF _ updateCommitIndex_same_vote]) simp
  moreover have "snd (on_append_reply i args reply n) = (if aer_success reply then snd (updateCommitIndex ?n)
      else n\<lparr>nextIndex := (nextIndex n)[i := max 1 (conflictIndex reply)]\<rparr>)"
    using False by (simp only: on_append_reply_def Let_def if_False snd_conv split: if_split) blast
  ultimately have "same_vote n (snd (on_append_reply i args reply n))" by simp
  then show ?thesis by (rule same_vote_reactive)
qed

lemma reactive_on_snapshot_reply: "reactive (isr_term reply) n (snd (on_snapshot_reply i reply n))"
  by (cases "currentTerm n < isr_term reply")
    (simp_all only: on_snapshot_reply_def if_True if_False reactive_becomeFollower snd_conv same_vote_reactive same_vote_indices)

lemma on_vote_result_cases:
  assumes "disk_ok n" and "on_vote_result result v n = (r, n')"
  shows "n' = n \<and> (r = Inr (Some v) \<or> (\<exists>e. r = Inl e)) \<or>
    (\<exists>reply. result = Inr reply \<and> rvr_term reply \<le> currentTerm n \<and> n' = n \<and>
       r = Inr (Some (if voteGranted reply then v + 1 else v))) \<or>
    (\<exists>reply. result = Inr reply \<and> currentTerm n < rvr_term reply \<and> r = Inr None \<and>
       n' = snd (becomeFollower (rvr_term reply) n))"
proof (cases result)
  case (Inl e)
  with assms(2) show ?thesis by (auto simp: on_vote_result_def split: if_splits)
next
  case (Inr reply)
  obtain f where f: "becomeFollower (rvr_term reply) n = (Inr (), f)"
    using becomeFollower_ok(1) [OF assms(1), of "rvr_term reply"] by (cases "becomeFollower (rvr_term reply) n") simp
  show ?thesis
  proof (cases "currentTerm n < rvr_term reply")
    case True
    with assms(2) Inr f show ?thesis by (simp add: on_vote_result_def Let_def)
  next
    case False
    with assms(2) Inr show ?thesis by (simp add: on_vote_result_def Let_def not_less)
  qed
qed

end
