(* ===== verification/Election_Safety.thy ===== *)
theory Election_Safety
  imports Raft_Cluster
begin

text \<open>
  At most one node is leader of a term at any moment. The invariant keeps, beside the state of
  every node, what the votes sent so far mean: a node that granted a vote in a term has moved on
  to a higher term or is still a follower with that vote.
\<close>

section \<open>Quorums\<close>

locale quorums =
  fixes quorum :: "'a set \<Rightarrow> 'a set \<Rightarrow> bool"
  assumes quorum_meet: "quorum N A \<Longrightarrow> quorum N B \<Longrightarrow> A \<inter> B \<noteq> {}"
begin

text \<open>Two candidates that a quorum chose are the same when no voter chooses twice.\<close>

lemma unique_choice:
  assumes "quorum N A" and "quorum N B" and "\<And>v. v \<in> A \<Longrightarrow> choice v x" and "\<And>v. v \<in> B \<Longrightarrow> choice v y"
    and "\<And>v. choice v x \<Longrightarrow> choice v y \<Longrightarrow> x = y"
  shows "x = y"
  using quorum_meet [OF assms(1,2)] assms(3-5) by blast

end

text \<open>The majority of \<open>startElection\<close> and \<open>updateCommitIndex\<close>.\<close>

definition majority_of :: "u64 set \<Rightarrow> u64 set \<Rightarrow> bool" where
  "majority_of N A \<longleftrightarrow> finite N \<and> A \<subseteq> N \<and> card N div 2 + 1 \<le> card A"

interpretation majorities: quorums majority_of
proof
  fix N A B
  assume "majority_of N A" and "majority_of N B"
  then have f: "finite N" "A \<subseteq> N" "B \<subseteq> N" and c: "card N div 2 + 1 \<le> card A" "card N div 2 + 1 \<le> card B"
    by (simp_all add: majority_of_def)
  show "A \<inter> B \<noteq> {}"
  proof
    assume "A \<inter> B = {}"
    with f have "card (A \<union> B) = card A + card B" by (meson card_Un_disjoint finite_subset)
    moreover have "card (A \<union> B) \<le> card N" using f by (simp add: card_mono)
    ultimately show False using c by linarith
  qed
qed

section \<open>The invariant\<close>

definition granted_vote :: "message set \<Rightarrow> u64 \<Rightarrow> u64 \<Rightarrow> u64 \<Rightarrow> bool" where
  "granted_vote M j x t \<longleftrightarrow>
     (\<exists>args reply. Vote_reply j args reply \<in> M \<and> voteGranted reply \<and> rv_candidateId args = x \<and> rv_term args = t)"

definition won :: "u64 set \<Rightarrow> message set \<Rightarrow> u64 \<Rightarrow> u64 \<Rightarrow> bool" where
  "won N M i t \<longleftrightarrow> (\<exists>G \<subseteq> N - {i}. majority_of N (insert i G) \<and> (\<forall>j \<in> G. granted_vote M j i t))"

fun message_ok :: "u64 set \<Rightarrow> nat \<Rightarrow> message \<Rightarrow> bool" where
  "message_ok N k (Vote_request p args) =
     (unat (rv_term args) \<le> k \<and> rv_candidateId args \<in> N \<and> rv_candidateId args \<noteq> p)"
| "message_ok N k (Vote_reply p args reply) = (unat (rvr_term reply) \<le> k \<and> rv_candidateId args \<in> N)"
| "message_ok N k (Append_request p aargs) = (unat (ae_term aargs) \<le> k)"
| "message_ok N k (Append_reply p aargs areply) = (unat (aer_term areply) \<le> k)"
| "message_ok N k (Snapshot_request p sargs) = (unat (is_term sargs) \<le> k)"
| "message_ok N k (Snapshot_reply p sargs sreply) = (unat (isr_term sreply) \<le> k)"

text \<open>Where an election stands: the votes counted so far were granted in this term.\<close>

definition election_ok :: "message set \<Rightarrow> u64 \<Rightarrow> raft_node \<Rightarrow> activity \<Rightarrow> bool" where
  "election_ok M i n a \<longleftrightarrow>
     (\<forall>args ps v. a = Electing args ps v \<longrightarrow>
        role n = CANDIDATE \<and> rv_term args = currentTerm n \<and> rv_candidateId args = i \<and>
        (\<exists>asked G. peerIds n = asked @ ps \<and> G \<subseteq> set asked \<and> v = 1 + card G \<and>
           (\<forall>j \<in> G. granted_vote M j i (currentTerm n))))"

definition votes_kept :: "message set \<Rightarrow> u64 \<Rightarrow> raft_node \<Rightarrow> bool" where
  "votes_kept M i n \<longleftrightarrow>
     (\<forall>x t. granted_vote M i x t \<longrightarrow>
        t < currentTerm n \<or> t = currentTerm n \<and> role n = FOLLOWER \<and> votedFor n = x)"

definition node_ok :: "u64 set \<Rightarrow> nat \<Rightarrow> message set \<Rightarrow> u64 \<Rightarrow> raft_node \<Rightarrow> activity \<Rightarrow> bool" where
  "node_ok N k M i n a \<longleftrightarrow>
     nodeId n = i \<and> distinct (peerIds n) \<and> set (peerIds n) = N - {i} \<and> stored n \<and>
     unat (currentTerm n) \<le> k \<and> (role n \<noteq> FOLLOWER \<longrightarrow> votedFor n = i) \<and>
     votes_kept M i n \<and> (role n = LEADER \<longrightarrow> won N M i (currentTerm n)) \<and> election_ok M i n a"

definition votes_unique :: "message set \<Rightarrow> u64 \<Rightarrow> bool" where
  "votes_unique M j \<longleftrightarrow> (\<forall>x y t. granted_vote M j x t \<longrightarrow> granted_vote M j y t \<longrightarrow> x = y)"

definition cluster_ok :: "u64 set \<Rightarrow> nat \<Rightarrow> cluster \<Rightarrow> bool" where
  "cluster_ok N k c \<longleftrightarrow> finite N \<and> 0 \<notin> N \<and>
     (\<forall>i \<in> N. node_ok N k (net c) i (node c i) (doing c i) \<and> votes_unique (net c) i) \<and>
     (\<forall>m \<in> net c. message_ok N k m)"

section \<open>One leader\<close>

lemma cluster_okD:
  assumes "cluster_ok N k c" and "i \<in> N"
  shows "node_ok N k (net c) i (node c i) (doing c i)" and "votes_unique (net c) i"
  using assms by (simp_all add: cluster_ok_def)

lemma cluster_ok_message: "cluster_ok N k c \<Longrightarrow> m \<in> net c \<Longrightarrow> message_ok N k m"
  unfolding cluster_ok_def by blast

lemma leader_granted_nothing:
  assumes "node_ok N k M i n a" and "role n = LEADER"
  shows "\<not> granted_vote M i x (currentTerm n)"
  using assms unfolding node_ok_def votes_kept_def by (metis less_irrefl role.distinct(3))

lemma node_okD:
  assumes "node_ok N k M i n a"
  shows "nodeId n = i" and "distinct (peerIds n)" and "set (peerIds n) = N - {i}" and "stored n"
    and "unat (currentTerm n) \<le> k" and "role n \<noteq> FOLLOWER \<Longrightarrow> votedFor n = i" and "votes_kept M i n"
    and "role n = LEADER \<Longrightarrow> won N M i (currentTerm n)" and "election_ok M i n a"
  using assms unfolding node_ok_def by blast+

lemma node_okI:
  assumes "nodeId n = i" and "distinct (peerIds n)" and "set (peerIds n) = N - {i}" and "stored n"
    and "unat (currentTerm n) \<le> k" and "role n \<noteq> FOLLOWER \<Longrightarrow> votedFor n = i" and "votes_kept M i n"
    and "role n = LEADER \<Longrightarrow> won N M i (currentTerm n)" and "election_ok M i n a"
  shows "node_ok N k M i n a"
  using assms unfolding node_ok_def by blast

lemma leader_won: "node_ok N k M i n a \<Longrightarrow> role n = LEADER \<Longrightarrow> won N M i (currentTerm n)"
  by (simp add: node_ok_def)

lemma one_leader:
  assumes "cluster_ok N k c" and "i \<in> N" and "j \<in> N"
    and "role (node c i) = LEADER" and "role (node c j) = LEADER" and "currentTerm (node c i) = currentTerm (node c j)"
  shows "i = j"
proof -
  let ?t = "currentTerm (node c j)" and ?M = "net c"
  define choice where "choice v x \<longleftrightarrow> v \<in> N \<and> (v = x \<or> granted_vote ?M v x ?t)" for v x
  have leads: "\<not> granted_vote ?M v x ?t" if "v \<in> {i, j}" for v x
    using that leader_granted_nothing [OF cluster_okD(1) [OF assms(1,2)] assms(4)] assms(6)
      leader_granted_nothing [OF cluster_okD(1) [OF assms(1,3)] assms(5)] by auto
  have quorum: "\<exists>A. majority_of N A \<and> (\<forall>v \<in> A. choice v x)" if "x \<in> {i, j}" for x
  proof -
    have "won N ?M x ?t"
      using that leader_won [OF cluster_okD(1) [OF assms(1,2)] assms(4)] assms(6)
        leader_won [OF cluster_okD(1) [OF assms(1,3)] assms(5)] by auto
    then obtain G where "G \<subseteq> N - {x}" "majority_of N (insert x G)" "\<forall>v \<in> G. granted_vote ?M v x ?t"
      by (auto simp: won_def)
    then show ?thesis using that assms(2,3) by (intro exI [of _ "insert x G"]) (auto simp: choice_def)
  qed
  from quorum [of i] quorum [of j] obtain A B where AB: "majority_of N A" "majority_of N B"
    "\<forall>v \<in> A. choice v i" "\<forall>v \<in> B. choice v j" by auto
  show ?thesis
  proof (rule majorities.unique_choice [OF AB(1,2), of choice])
    fix v
    assume "choice v i" and "choice v j"
    with leads [of v] cluster_okD(2) [OF assms(1), of v] show "i = j"
      by (auto simp: choice_def votes_unique_def)
  qed (use AB(3,4) in auto)
qed


section \<open>Every step keeps the invariant\<close>

lemma message_ok_mono: "message_ok N k m \<Longrightarrow> k \<le> l \<Longrightarrow> message_ok N l m"
  by (cases m) auto

text \<open>What a step adds for the nodes that do not move: more messages, no grants of theirs.\<close>

lemma granted_vote_mono: "granted_vote M j x t \<Longrightarrow> granted_vote (M \<union> M') j x t"
  by (auto simp: granted_vote_def)

lemma won_mono: "won N M i t \<Longrightarrow> won N (M \<union> M') i t"
  unfolding won_def by (meson granted_vote_mono)

lemma election_ok_mono: "election_ok M i n a \<Longrightarrow> election_ok (M \<union> M') i n a"
  unfolding election_ok_def by (fast intro: granted_vote_mono)

lemma node_ok_others:
  assumes "node_ok N k M i n a" and "\<And>x t. granted_vote (M \<union> M') i x t \<Longrightarrow> granted_vote M i x t"
  shows "node_ok N (Suc k) (M \<union> M') i n a"
proof -
  have "votes_kept (M \<union> M') i n" using assms by (auto simp: node_ok_def votes_kept_def)
  moreover have "election_ok (M \<union> M') i n a" using assms(1) election_ok_mono by (simp add: node_ok_def)
  ultimately show ?thesis using assms(1) won_mono by (auto simp: node_ok_def)
qed

text \<open>The step of one node, with the messages it sent.\<close>

lemma cluster_ok_update:
  assumes "cluster_ok N k c" and "j \<in> N" and "node_ok N (Suc k) (net c \<union> M) j n a"
    and "\<And>m. m \<in> M \<Longrightarrow> message_ok N (Suc k) m"
    and "\<And>i x t. i \<noteq> j \<Longrightarrow> granted_vote (net c \<union> M) i x t \<Longrightarrow> granted_vote (net c) i x t"
    and "votes_unique (net c \<union> M) j"
  shows "cluster_ok N (Suc k) (update j n a M c)"
proof -
  have "node_ok N (Suc k) (net c \<union> M) i (node c i) (doing c i) \<and> votes_unique (net c \<union> M) i"
    if "i \<in> N" "i \<noteq> j" for i
  proof
    show "node_ok N (Suc k) (net c \<union> M) i (node c i) (doing c i)"
      by (rule node_ok_others [OF cluster_okD(1) [OF assms(1) that(1)] assms(5) [OF that(2)]])
    show "votes_unique (net c \<union> M) i"
      using cluster_okD(2) [OF assms(1) that(1)] assms(5) [OF that(2)] unfolding votes_unique_def by blast
  qed
  moreover have "message_ok N (Suc k) m" if "m \<in> net c \<union> M" for m
    using that assms(1,4) message_ok_mono [of N k m "Suc k"] by (auto simp: cluster_ok_def)
  ultimately show ?thesis
    using assms(1-3,6) by (auto simp: cluster_ok_def)
qed

text \<open>Messages that grant nothing.\<close>

definition grants_nothing :: "message set \<Rightarrow> bool" where
  "grants_nothing M \<longleftrightarrow> (\<forall>p args reply. Vote_reply p args reply \<in> M \<longrightarrow> \<not> voteGranted reply)"

lemma grants_nothing_simps [simp]:
  "grants_nothing {}" "grants_nothing {Vote_request p args}" "grants_nothing {Append_request p aargs}"
  "grants_nothing {Snapshot_request p sargs}" "grants_nothing (replies r (Append_reply p aargs))"
  "grants_nothing (replies s (Snapshot_reply p sargs))"
  by (auto simp: grants_nothing_def replies_def split: sum.split)

lemma granted_vote_quiet: "grants_nothing M' \<Longrightarrow> granted_vote (M \<union> M') j x t = granted_vote M j x t"
  by (auto simp: grants_nothing_def granted_vote_def)

lemma granted_vote_quiet_fun: "grants_nothing M' \<Longrightarrow> granted_vote (M \<union> M') = granted_vote M"
  by (simp add: fun_eq_iff granted_vote_quiet)

lemma node_ok_quiet:
  "grants_nothing M' \<Longrightarrow> node_ok N k (M \<union> M') i n a = node_ok N k M i n a"
  by (simp add: node_ok_def votes_kept_def won_def election_ok_def granted_vote_quiet_fun)

lemma cluster_ok_quiet:
  assumes "cluster_ok N k c" and "j \<in> N" and "node_ok N (Suc k) (net c) j n a"
    and "\<And>m. m \<in> M \<Longrightarrow> message_ok N (Suc k) m" and "grants_nothing M"
  shows "cluster_ok N (Suc k) (update j n a M c)"
  using assms cluster_okD(2) [OF assms(1,2)]
  by (intro cluster_ok_update) (simp_all add: node_ok_quiet granted_vote_quiet votes_unique_def)

text \<open>A reactive step to a state in which no election is running.\<close>

lemma granted_candidate:
  "cluster_ok N k c \<Longrightarrow> granted_vote (net c) j x t \<Longrightarrow> x \<in> N"
  by (force simp: cluster_ok_def granted_vote_def)

definition electing :: "activity \<Rightarrow> bool" where
  "electing a = (case a of Electing args ps v \<Rightarrow> True | _ \<Rightarrow> False)"

lemma election_ok_other: "\<not> electing a \<Longrightarrow> election_ok M i n a"
  by (auto simp: election_ok_def electing_def)

lemma reactiveD:
  assumes "reactive t n n'"
  shows "nodeId n' = nodeId n" and "peerIds n' = peerIds n" and "currentTerm n \<le> currentTerm n'"
    and "currentTerm n' = currentTerm n \<or> currentTerm n' = t" and "stored n \<Longrightarrow> stored n'"
    and "currentTerm n' = currentTerm n \<Longrightarrow> role n = FOLLOWER \<Longrightarrow> role n' = FOLLOWER"
    and "currentTerm n' = currentTerm n \<Longrightarrow> role n = FOLLOWER \<Longrightarrow> votedFor n \<noteq> 0 \<Longrightarrow> votedFor n' = votedFor n"
    and "role n' \<noteq> FOLLOWER \<Longrightarrow> role n' = role n" and "role n' \<noteq> FOLLOWER \<Longrightarrow> currentTerm n' = currentTerm n"
    and "role n' \<noteq> FOLLOWER \<Longrightarrow> votedFor n \<noteq> 0 \<Longrightarrow> votedFor n' = votedFor n"
  using assms unfolding reactive_def vote_step_def by blast+

lemma votes_kept_reactive:
  assumes "votes_kept M i n" and "reactive t n n'" and "\<And>x t. granted_vote M i x t \<Longrightarrow> x \<noteq> 0"
  shows "votes_kept M i n'"
  unfolding votes_kept_def
proof (intro allI impI)
  fix x u
  assume g: "granted_vote M i x u"
  with assms(3) have "x \<noteq> 0" by blast
  have le: "currentTerm n \<le> currentTerm n'" by (rule reactiveD [OF assms(2)])
  from g assms(1) have "u < currentTerm n \<or> u = currentTerm n \<and> role n = FOLLOWER \<and> votedFor n = x"
    unfolding votes_kept_def by blast
  then consider "u < currentTerm n" | "u = currentTerm n" "role n = FOLLOWER" "votedFor n = x" by blast
  then show "u < currentTerm n' \<or> u = currentTerm n' \<and> role n' = FOLLOWER \<and> votedFor n' = x"
  proof cases
    case 1
    with le show ?thesis by (simp add: less_le_trans)
  next
    case 2
    show ?thesis
    proof (cases "currentTerm n' = currentTerm n")
      case True
      with 2 \<open>x \<noteq> 0\<close> reactiveD(6,7) [OF assms(2)] show ?thesis by simp
    next
      case False
      with 2 le show ?thesis by (simp add: le_less)
    qed
  qed
qed

lemma ne_of_mem: "x \<in> A \<Longrightarrow> y \<notin> A \<Longrightarrow> x \<noteq> y"
  by blast

lemma node_ok_reactive:
  assumes "cluster_ok N k c" and "i \<in> N" and "reactive t (node c i) n'" and "unat t \<le> k" and "\<not> electing a"
  shows "node_ok N (Suc k) (net c) i n' a"
proof -
  note ok = node_okD [OF cluster_okD(1) [OF assms(1,2)]] and re = reactiveD [OF assms(3)]
  have "0 \<notin> N" using assms(1) by (simp add: cluster_ok_def)
  have nz: "x \<noteq> 0" if "granted_vote (net c) i x u" for x u
    using granted_candidate [OF assms(1) that] \<open>0 \<notin> N\<close> by (rule ne_of_mem)
  have "i \<noteq> 0" using assms(2) \<open>0 \<notin> N\<close> by (rule ne_of_mem)
  show ?thesis
  proof (rule node_okI)
    show "nodeId n' = i" using re(1) ok(1) by (rule trans)
    show "distinct (peerIds n')" "set (peerIds n') = N - {i}" unfolding re(2) by (rule ok(2), rule ok(3))
    show "stored n'" by (rule re(5) [OF ok(4)])
    show "unat (currentTerm n') \<le> Suc k" using re(4) ok(5) assms(4) by (metis le_SucI)
    show "votedFor n' = i" if "role n' \<noteq> FOLLOWER"
    proof -
      have "votedFor (node c i) = i" using that re(8) [OF that] ok(6) by simp
      with re(10) [OF that] \<open>i \<noteq> 0\<close> show ?thesis by simp
    qed
    show "votes_kept (net c) i n'" by (rule votes_kept_reactive [OF ok(7) assms(3) nz])
    show "won N (net c) i (currentTerm n')" if "role n' = LEADER"
    proof -
      have "role n' \<noteq> FOLLOWER" using that by simp
      from re(8,9) [OF this] ok(8) that show ?thesis by simp
    qed
    show "election_ok (net c) i n' a" by (rule election_ok_other [OF assms(5)])
  qed
qed


text \<open>A vote is granted.\<close>

lemma granted_vote_insert:
  "granted_vote (M \<union> {Vote_reply j args reply}) i x t \<longleftrightarrow>
     granted_vote M i x t \<or> i = j \<and> voteGranted reply \<and> x = rv_candidateId args \<and> t = rv_term args"
  by (auto simp: granted_vote_def)

lemma step_vote_granted:
  assumes "cluster_ok N k c" and "j \<in> N" and "Vote_request j args \<in> net c"
    and "handleRequestVote now args (node c j) = (Inr reply, n)" and "voteGranted reply"
  shows "cluster_ok N (Suc k) (update j n Idle {Vote_reply j args reply} c)"
proof (rule cluster_ok_update [OF assms(1,2)])
  let ?n = "node c j" and ?M = "{Vote_reply j args reply}"
  note g = handleRequestVote_granted [OF assms(4,5)] and ok = node_okD [OF cluster_okD(1) [OF assms(1,2)]]
  have n: "n = snd (handleRequestVote now args ?n)" by (simp add: assms(4))
  have cand: "unat (rv_term args) \<le> k" "rv_candidateId args \<in> N" "rv_candidateId args \<noteq> j"
    using cluster_ok_message [OF assms(1,3)] by simp_all
  have "0 \<notin> N" using assms(1) by (simp add: cluster_ok_def)
  with assms(2) cand(2) have nz: "rv_candidateId args \<noteq> 0" "j \<noteq> 0" by (metis ne_of_mem)+
  have re: "reactive (rv_term args) ?n n" unfolding n by (rule reactive_handleRequestVote)
  have ok': "node_ok N (Suc k) (net c) j n Idle"
    by (rule node_ok_reactive [OF assms(1,2) re cand(1)]) (simp add: electing_def)
  note ok'' = node_okD [OF ok']
  have fol: "role n = FOLLOWER"
  proof (cases "currentTerm ?n = rv_term args \<and> role ?n \<noteq> FOLLOWER")
    case True
    then have "votedFor ?n = j" using ok(6) by blast
    with True g(5) cand(3) nz(2) show ?thesis by simp
  next
    case False
    with g(4) show ?thesis by auto
  qed
  show "node_ok N (Suc k) (net c \<union> ?M) j n Idle"
  proof (rule node_okI)
    show "votes_kept (net c \<union> ?M) j n"
      using ok''(7) g(2,3) fol unfolding votes_kept_def granted_vote_insert by (metis (no_types))
  qed (use ok'' fol in \<open>simp_all add: election_ok_def\<close>)
  show "message_ok N (Suc k) x" if "x \<in> ?M" for x
    using that handleRequestVote_reply_term [OF assms(4)] ok(5) cand by auto
  show "granted_vote (net c) i x t" if "i \<noteq> j" "granted_vote (net c \<union> ?M) i x t" for i x t
    using that unfolding granted_vote_insert by blast
  have old: "x = rv_candidateId args" if "granted_vote (net c) j x (rv_term args)" for x
  proof -
    have "rv_term args < currentTerm ?n \<or> rv_term args = currentTerm ?n \<and> votedFor ?n = x"
      using ok(7) that unfolding votes_kept_def by blast
    then have "rv_term args = currentTerm ?n \<and> votedFor ?n = x" using g(1) by (metis not_le)
    moreover have "x \<noteq> 0" using granted_candidate [OF assms(1) that] \<open>0 \<notin> N\<close> by (rule ne_of_mem)
    ultimately show ?thesis using g(5) by simp
  qed
  show "votes_unique (net c \<union> ?M) j"
    using cluster_okD(2) [OF assms(1,2)] old unfolding votes_unique_def granted_vote_insert by blast
qed

text \<open>An election starts.\<close>

lemma step_election:
  assumes "cluster_ok N k c" and "j \<in> N" and "k < 18446744073709551615"
    and "begin_election now (node c j) = (Inr args, n)"
  shows "cluster_ok N (Suc k) (update j n (Electing args (peerIds n) 1) {} c)"
proof (rule cluster_ok_quiet [OF assms(1,2)])
  let ?n = "node c j"
  note ok = node_okD [OF cluster_okD(1) [OF assms(1,2)]]
  have n: "n = resetElectionTimer now (snd (becomeCandidate ?n))" "rv_term args = currentTerm n"
    "rv_candidateId args = nodeId n"
    using assms(4) stored_disk_ok [OF ok(4)] by (auto simp: begin_election_def Let_def)
  have t: "currentTerm n = currentTerm ?n + 1" "nodeId n = nodeId ?n" "peerIds n = peerIds ?n"
    "role n = CANDIDATE" "votedFor n = nodeId ?n" "stored n"
    using stored_disk_ok [OF ok(4)] by (simp_all add: n(1))
  have u: "unat (currentTerm n) = Suc (unat (currentTerm ?n))"
    unfolding t(1) by (rule unat_u64_plus1) (use ok(5) assms(3) in simp)
  show "node_ok N (Suc k) (net c) j n (Electing args (peerIds n) 1)"
  proof (rule node_okI)
    show "nodeId n = j" using t(2) ok(1) by simp
    show "distinct (peerIds n)" "set (peerIds n) = N - {j}" unfolding t(3) by (rule ok(2), rule ok(3))
    show "stored n" by (rule t(6))
    show "unat (currentTerm n) \<le> Suc k" using u ok(5) by simp
    show "votedFor n = j" using t(5) ok(1) by simp
    have "currentTerm ?n < currentTerm n" using u by (simp add: word_less_nat_alt)
    then show "votes_kept (net c) j n" using ok(7) unfolding votes_kept_def by (metis less_trans)
    show "won N (net c) j (currentTerm n)" if "role n = LEADER" using that t(4) by simp
    show "election_ok (net c) j n (Electing args (peerIds n) 1)"
      using n(2,3) t(2,4) ok(1) by (auto simp: election_ok_def)
  qed
qed simp_all

text \<open>The candidate hears from the next peer.\<close>

lemma step_hear_vote:
  assumes "cluster_ok N k c" and "j \<in> N" and "doing c j = Electing args (p # ps) v"
    and "vote_result (net c) p args result" and "on_vote_result result v (node c j) = (r, n)"
  shows "cluster_ok N (Suc k) (update j n (after_vote args ps r) {} c)"
proof (rule cluster_ok_quiet [OF assms(1,2)])
  let ?n = "node c j"
  note ok = node_okD [OF cluster_okD(1) [OF assms(1,2)]]
  from ok(9) obtain asked G where e: "role ?n = CANDIDATE" "rv_term args = currentTerm ?n" "rv_candidateId args = j"
    "peerIds ?n = asked @ p # ps" "G \<subseteq> set asked" "v = 1 + card G" "\<forall>i \<in> G. granted_vote (net c) i j (currentTerm ?n)"
    using assms(3) unfolding election_ok_def by blast
  have keep: "node_ok N (Suc k) (net c) j ?n a" if "election_ok (net c) j ?n a" for a
    using ok that by (intro node_okI) simp_all
  have elect: "election_ok (net c) j ?n (Electing args ps w)"
    if "peerIds ?n = as @ ps" "H \<subseteq> set as" "w = 1 + card H" "\<forall>i \<in> H. granted_vote (net c) i j (currentTerm ?n)" for as H w
    using e(1-3) that unfolding election_ok_def by blast
  have stay: "node_ok N (Suc k) (net c) j ?n (Electing args ps v)"
    by (rule keep, rule elect [of "asked @ [p]" G]) (use e(4-7) in auto)
  show "node_ok N (Suc k) (net c) j n (after_vote args ps r)"
    using on_vote_result_cases [OF stored_disk_ok [OF ok(4)] assms(5)]
  proof (elim disjE exE conjE)
    assume "n = ?n" "r = Inr (Some v)"
    with stay show ?thesis by (simp add: after_vote_def)
  next
    fix x assume "n = ?n" "r = Inl x"
    then show ?thesis by (auto simp: after_vote_def election_ok_def intro!: keep)
  next
    fix reply
    assume re: "result = Inr reply" "n = ?n" "r = Inr (Some (if voteGranted reply then v + 1 else v))"
    show ?thesis
    proof (cases "voteGranted reply")
      case False
      with re stay show ?thesis by (simp add: after_vote_def)
    next
      case True
      with assms(4) re(1) have "Vote_reply p args reply \<in> net c" by simp
      with True e(2,3) have g: "granted_vote (net c) p j (currentTerm ?n)" unfolding granted_vote_def by blast
      have "p \<notin> G" using ok(2) e(4,5) by auto
      moreover have "finite G" using e(5) finite_subset by blast
      ultimately have card: "v + 1 = 1 + card (insert p G)" using e(6) by simp
      have "election_ok (net c) j ?n (Electing args ps (v + 1))"
        by (rule elect [of "asked @ [p]" "insert p G"]) (use e(4,5,7) g card in auto)
      with True re show ?thesis by (simp add: after_vote_def keep)
    qed
  next
    fix reply
    assume re: "result = Inr reply" "currentTerm ?n < rvr_term reply" "r = Inr None"
      "n = snd (becomeFollower (rvr_term reply) ?n)"
    have "unat (rvr_term reply) \<le> k"
    proof (cases "Vote_reply p args reply \<in> net c")
      case True
      from cluster_ok_message [OF assms(1) this] show ?thesis by simp
    next
      case False
      with assms(4) re(1) e(2) ok(5) show ?thesis by auto
    qed
    moreover have "reactive (rvr_term reply) ?n n" unfolding re(4) by (rule reactive_becomeFollower [OF re(2)])
    ultimately have "node_ok N (Suc k) (net c) j n Idle"
      by (intro node_ok_reactive [OF assms(1,2)]) (simp_all add: electing_def)
    then show ?thesis by (simp add: after_vote_def re(3))
  qed
qed simp_all


text \<open>The election is decided.\<close>

lemma step_finish:
  assumes "cluster_ok N k c" and "j \<in> N" and "doing c j = Electing args [] v" and "\<not> electing a"
  shows "cluster_ok N (Suc k) (update j (finish_election v (node c j)) a {} c)"
proof (rule cluster_ok_quiet [OF assms(1,2)])
  let ?n = "node c j"
  note ok = node_okD [OF cluster_okD(1) [OF assms(1,2)]]
  from ok(9) obtain G where e: "role ?n = CANDIDATE" "G \<subseteq> set (peerIds ?n)" "v = 1 + card G"
    "\<forall>i \<in> G. granted_vote (net c) i j (currentTerm ?n)"
    using assms(3) unfolding election_ok_def by auto
  have N: "finite N" using assms(1) by (simp add: cluster_ok_def)
  let ?f = "finish_election v ?n"
  have f: "nodeId ?f = nodeId ?n" "peerIds ?f = peerIds ?n" "currentTerm ?f = currentTerm ?n" "votedFor ?f = votedFor ?n"
    "persistence ?f = persistence ?n" "role ?f = LEADER \<longleftrightarrow> majority ?n \<le> v" "role ?f \<noteq> FOLLOWER"
    using e(1) by (simp_all add: finish_election_def becomeLeader_def Let_def)
  have lead: "won N (net c) j (currentTerm ?n)" if "majority ?n \<le> v"
  proof -
    have "card N = length (peerIds ?n) + 1"
      using N assms(2) ok(2,3) by (metis Suc_eq_plus1 card_Suc_Diff1 distinct_card)
    moreover have "j \<notin> G" and "finite G" using e(2) ok(3) N by (auto intro: finite_subset)
    ultimately have "majority_of N (insert j G)"
      using that e(2,3) ok(3) N assms(2) by (auto simp: majority_of_def majority_def)
    moreover have "G \<subseteq> N - {j}" using e(2) ok(3) by simp
    ultimately show ?thesis using e(4) unfolding won_def by blast
  qed
  show "node_ok N (Suc k) (net c) j ?f a"
  proof (rule node_okI)
    show "nodeId ?f = j" using f(1) ok(1) by simp
    show "distinct (peerIds ?f)" "set (peerIds ?f) = N - {j}" unfolding f(2) by (rule ok(2), rule ok(3))
    show "stored ?f" using ok(4) stored_unchanged [OF f(5) f(3) f(4)] by simp
    show "unat (currentTerm ?f) \<le> Suc k" using f(3) ok(5) by simp
    show "votedFor ?f = j" using f(4) ok(6) e(1) by simp
    show "votes_kept (net c) j ?f" using ok(7) e(1) f(3) unfolding votes_kept_def by auto
    show "won N (net c) j (currentTerm ?f)" if "role ?f = LEADER"
      unfolding f(3) using lead that f(6) by blast
    show "election_ok (net c) j ?f a" by (rule election_ok_other [OF assms(4)])
  qed
qed simp_all

lemma prepare_replication_term:
  "prepare_replication i n = Inr (Send_append args) \<Longrightarrow> ae_term args = currentTerm n"
  "prepare_replication i n = Inr (Send_snapshot sargs) \<Longrightarrow> is_term sargs = currentTerm n"
  by (auto simp: prepare_replication_def Let_def bindE_def split: if_splits sum.splits)

lemma step_ask_vote:
  assumes "cluster_ok N k c" and "j \<in> N" and "doing c j = Electing args (p # ps) v"
  shows "cluster_ok N (Suc k) (update j (node c j) (Electing args (p # ps) v) {Vote_request p args} c)"
proof (rule cluster_ok_quiet [OF assms(1,2)])
  note ok = node_okD [OF cluster_okD(1) [OF assms(1,2)]]
  from ok(9) assms(3) obtain as where e: "rv_term args = currentTerm (node c j)" "rv_candidateId args = j"
    "peerIds (node c j) = as @ p # ps"
    unfolding election_ok_def by blast
  show "node_ok N (Suc k) (net c) j (node c j) (Electing args (p # ps) v)"
    using ok assms(3) by (intro node_okI) simp_all
  have "p \<in> set (peerIds (node c j))" using e(3) by simp
  with e ok(3,5) assms(2) show "message_ok N (Suc k) m" if "m \<in> {Vote_request p args}" for m
    using that by auto
qed simp_all

text \<open>Every other step is a reactive one.\<close>

lemma step_reactive:
  assumes "cluster_ok N k c" and "j \<in> N" and "reactive t (node c j) n" and "unat t \<le> k" and "\<not> electing a"
    and "\<And>m. m \<in> M \<Longrightarrow> message_ok N (Suc k) m" and "grants_nothing M"
  shows "cluster_ok N (Suc k) (update j n a M c)"
  by (rule cluster_ok_quiet [OF assms(1,2) node_ok_reactive [OF assms(1-5)] assms(6,7)])

lemma not_electing [simp]:
  "\<not> electing Idle" "\<not> electing (Heartbeat ps)" "\<not> electing Stopped" "\<not> electing (after_heartbeat ps r)"
  by (simp_all add: electing_def after_heartbeat_def split: sum.split)

lemma replies_cases: "m \<in> replies r f \<Longrightarrow> \<exists>reply. r = Inr reply \<and> m = f reply"
  by (auto simp: replies_def split: sum.splits)

lemma cluster_step_ok:
  assumes "cluster_step N c c'" and "cluster_ok N k c" and "k < 18446744073709551615"
  shows "cluster_ok N (Suc k) c'"
  using assms(1)
proof (cases rule: cluster_step.cases)
  case (vote j args now r n)
  have m: "unat (rv_term args) \<le> k" "rv_candidateId args \<in> N" using cluster_ok_message [OF assms(2) vote(4)] by simp_all
  show ?thesis
  proof (cases "\<exists>reply. r = Inr reply \<and> voteGranted reply")
    case True
    then obtain reply where "r = Inr reply" "voteGranted reply" by blast
    with vote step_vote_granted [OF assms(2) vote(2,4)] show ?thesis by (simp add: replies_def)
  next
    case False
    have re: "reactive (rv_term args) (node c j) n"
      using reactive_handleRequestVote [of args "node c j" now] vote(5) by simp
    have "message_ok N (Suc k) x" if "x \<in> replies r (Vote_reply j args)" for x
      using replies_cases [OF that] vote(5) handleRequestVote_reply_term m node_okD(5) [OF cluster_okD(1) [OF assms(2) vote(2)]]
      by fastforce
    moreover have "grants_nothing (replies r (Vote_reply j args))"
      using False by (auto simp: grants_nothing_def replies_def split: sum.splits)
    ultimately show ?thesis unfolding vote(1) by (intro step_reactive [OF assms(2) vote(2) re m(1)]) simp_all
  qed
next
  case (append j args now r n)
  have m: "unat (ae_term args) \<le> k" using cluster_ok_message [OF assms(2) append(4)] by simp
  have re: "reactive (ae_term args) (node c j) n"
    using reactive_handleAppendEntries [of args "node c j" now] append(5) by simp
  have "message_ok N (Suc k) x" if "x \<in> replies r (Append_reply j args)" for x
    using replies_cases [OF that] append(5) handleAppendEntries_reply_term m node_okD(5) [OF cluster_okD(1) [OF assms(2) append(2)]]
    by fastforce
  then show ?thesis unfolding append(1) by (intro step_reactive [OF assms(2) append(2) re m]) simp_all
next
  case (snapshot j args now r n)
  have m: "unat (is_term args) \<le> k" using cluster_ok_message [OF assms(2) snapshot(4)] by simp
  have re: "reactive (is_term args) (node c j) n"
    using reactive_handleInstallSnapshot [of args "node c j" now] snapshot(5) by simp
  have "message_ok N (Suc k) x" if "x \<in> replies r (Snapshot_reply j args)" for x
    using replies_cases [OF that] snapshot(5) handleInstallSnapshot_reply_term m node_okD(5) [OF cluster_okD(1) [OF assms(2) snapshot(2)]]
    by fastforce
  then show ?thesis unfolding snapshot(1) by (intro step_reactive [OF assms(2) snapshot(2) re m]) simp_all
next
  case (client j request)
  show ?thesis
    unfolding client(1) by (rule step_reactive [OF assms(2) client(2) reactive_handleClientRequest [of 0]]) simp_all
next
  case (compact j)
  show ?thesis
    unfolding compact(1) by (rule step_reactive [OF assms(2) compact(2) reactive_snapshotTimer_tick [of 0]]) simp_all
next
  case (trigger j)
  show ?thesis
    unfolding trigger(1) by (rule step_reactive [OF assms(2) trigger(2) reactive_triggerSnapshot [of 0]]) simp_all
next
  case (election j now now' args n)
  then show ?thesis using step_election [OF assms(2) election(2) assms(3)] by blast
next
  case (ask_vote j args p ps v)
  then show ?thesis using step_ask_vote [OF assms(2)] by blast
next
  case (hear_vote j args p ps v result r n)
  then show ?thesis using step_hear_vote [OF assms(2)] by blast
next
  case (finish j args v)
  show ?thesis unfolding finish(1) by (rule step_finish [OF assms(2) finish(2,3)]) simp
next
  case (heartbeat j)
  show ?thesis unfolding heartbeat(1) by (rule step_reactive [OF assms(2) heartbeat(2) reactive_refl [of 0]]) simp_all
next
  case (skip_peer j p ps)
  show ?thesis unfolding skip_peer(1) by (rule step_reactive [OF assms(2) skip_peer(2) reactive_refl [of 0]]) simp_all
next
  case (send_append j p ps i args)
  have "unat (ae_term args) \<le> k"
    using prepare_replication_term(1) [OF send_append(5)] node_okD(5) [OF cluster_okD(1) [OF assms(2) send_append(2)]] by simp
  then show ?thesis unfolding send_append(1)
    by (intro step_reactive [OF assms(2) send_append(2) reactive_refl [of 0]]) auto
next
  case (hear_append j p ps i args reply r n)
  have "unat (ae_term args) \<le> k"
    using prepare_replication_term(1) [OF hear_append(5)] node_okD(5) [OF cluster_okD(1) [OF assms(2) hear_append(2)]] by simp
  then have "unat (aer_term reply) \<le> k"
    using hear_append(6) cluster_ok_message [OF assms(2)] unfolding append_result_def by fastforce
  moreover have "reactive (aer_term reply) (node c j) n"
    using reactive_on_append_reply [of reply "node c j" i args] hear_append(7) by simp
  ultimately show ?thesis unfolding hear_append(1) by (intro step_reactive [OF assms(2) hear_append(2)]) simp_all
next
  case (send_snapshot j p ps i args)
  have "unat (is_term args) \<le> k"
    using prepare_replication_term(2) [OF send_snapshot(5)] node_okD(5) [OF cluster_okD(1) [OF assms(2) send_snapshot(2)]] by simp
  then show ?thesis unfolding send_snapshot(1)
    by (intro step_reactive [OF assms(2) send_snapshot(2) reactive_refl [of 0]]) auto
next
  case (hear_snapshot j p ps i args reply r n)
  have "unat (is_term args) \<le> k"
    using prepare_replication_term(2) [OF hear_snapshot(5)] node_okD(5) [OF cluster_okD(1) [OF assms(2) hear_snapshot(2)]] by simp
  then have "unat (isr_term reply) \<le> k"
    using hear_snapshot(6) cluster_ok_message [OF assms(2)] unfolding snapshot_result_def by fastforce
  moreover have "reactive (isr_term reply) (node c j) n"
    using reactive_on_snapshot_reply [of reply "node c j" i] hear_snapshot(7) by simp
  ultimately show ?thesis unfolding hear_snapshot(1) by (intro step_reactive [OF assms(2) hear_snapshot(2)]) simp_all
next
  case (end_heartbeat j)
  show ?thesis unfolding end_heartbeat(1) by (rule step_reactive [OF assms(2) end_heartbeat(2) reactive_refl [of 0]]) simp_all
next
  case (stop j)
  show ?thesis unfolding stop(1) by (rule step_reactive [OF assms(2) stop(2) reactive_refl [of 0]]) simp_all
next
  case (restart j p kv threshold rng j1 j2 now n)
  note ok = node_okD [OF cluster_okD(1) [OF assms(2) restart(2)]]
  have "reactive (currentTerm (node c j)) (node c j) n"
    by (rule reactive_restart [OF ok(1) ok(4) restart(4-6)])
  then show ?thesis unfolding restart(1)
    by (intro step_reactive [OF assms(2) restart(2) _ ok(5)]) simp_all
qed


lemma fresh_node_ok:
  assumes "fresh_node i N n"
  shows "node_ok N 0 {} i n Idle"
proof -
  from assms obtain peers kv threshold dir disk rng j1 j2 now where
    n: "RaftNode i peers kv threshold dir disk rng j1 j2 now = (Inr (), n)" and
    p: "distinct peers" "set peers = N - {i}" and
    d: "files disk (dir @ ''/raft_state.dat'') = None" "can_open (new_persistence dir disk)"
    unfolding fresh_node_def by (elim exE conjE)
  from n have "n = (resetElectionTimer now (initial_node i peers kv threshold rng j1 j2 now))
      \<lparr>persistence := (if dir = [] then None else Some (new_persistence dir disk)),
       nextIndex := replicate (length peers) 1, matchIndex := replicate (length peers) 0,
       peerIdToIndexMap := index_peers 0 peers Map.empty, running := True\<rparr>"
    by (simp only: RaftNode_fresh [OF d(1)] prod.inject)
  then have "nodeId n = i" "peerIds n = peers" "role n = FOLLOWER" "currentTerm n = 0" "votedFor n = 0"
    "persistence n = (if dir = [] then None else Some (new_persistence dir disk))"
    by (simp_all add: initial_node_def)
  moreover from this(4-6) d have "stored n"
    by (simp add: stored_def disk_ok_def vote_on_disk_def new_persistence_def getStatePath_def)
  ultimately show ?thesis
    using p by (intro node_okI) (simp_all add: votes_kept_def granted_vote_def election_ok_def)
qed

lemma cluster_start_ok: "cluster_start N c \<Longrightarrow> cluster_ok N 0 c"
  by (auto simp: cluster_start_def cluster_ok_def votes_unique_def granted_vote_def dest: fresh_node_ok)

lemma reach_ok: "reach N k c \<Longrightarrow> k \<le> 18446744073709551615 \<Longrightarrow> cluster_ok N k c"
  by (induction rule: reach.induct) (auto intro: cluster_start_ok cluster_step_ok)

section \<open>Election safety\<close>

text \<open>
  C1. Election safety: whatever the transport delays, repeats or loses, and wherever nodes
  stop and restart from their files, no two nodes of a cluster are leader of the same term at the
  same moment. The bound on the number of steps keeps the 64-bit term from wrapping around.
\<close>

theorem election_safety:
  assumes "reach N k c" and "k \<le> 18446744073709551615" and "i \<in> N" and "j \<in> N"
    and "role (node c i) = LEADER" and "role (node c j) = LEADER" and "currentTerm (node c i) = currentTerm (node c j)"
  shows "i = j"
  by (rule one_leader [OF reach_ok [OF assms(1,2)] assms(3-7)])

text \<open>A run of a cluster of two in which node 1 becomes leader of term 1.\<close>

definition start_node :: "u64 \<Rightarrow> raft_node" where
  "start_node i = snd (RaftNode i (if i = 1 then [2] else [1]) empty_kvstore 10000 [] (fs sample_disk) (sconst 0) 0 0 0)"

definition sample_cluster :: cluster where
  "sample_cluster = \<lparr>node = start_node, doing = (\<lambda>i. Idle), net = {}\<rparr>"

lemma fresh_nodeI:
  assumes "RaftNode i peers kv threshold dir disk rng j1 j2 now = (Inr (), n)"
    and "distinct peers" and "set peers = N - {i}"
    and "files disk (dir @ ''/raft_state.dat'') = None" and "can_open (new_persistence dir disk)"
  shows "fresh_node i N n"
  unfolding fresh_node_def using assms by (intro exI conjI)

lemma start_node_fresh:
  "RaftNode i (if i = 1 then [2] else [1]) empty_kvstore 10000 [] (fs sample_disk) (sconst 0) 0 0 0 = (Inr (), start_node i)"
  unfolding start_node_def by (subst (1 2) RaftNode_fresh) simp_all

lemma start_node_eq:
  "start_node i = (resetElectionTimer 0 (initial_node i (if i = 1 then [2] else [1]) empty_kvstore 10000 (sconst 0) 0 0 0))
    \<lparr>persistence := None, nextIndex := [1], matchIndex := [0],
     peerIdToIndexMap := [(if i = 1 then 2 else 1) \<mapsto> 0], running := True\<rparr>"
  unfolding start_node_def by (subst RaftNode_fresh) simp_all

lemma sample_cluster_start: "cluster_start {1, 2} sample_cluster"
proof -
  have disk: "files (fs sample_disk) ([] @ ''/raft_state.dat'') = None" "can_open (new_persistence [] (fs sample_disk))"
    by (simp_all add: new_persistence_def can_open_def sample_disk_def)
  have "fresh_node 1 {1, 2} (start_node 1)" "fresh_node 2 {1, 2} (start_node 2)"
    by (rule fresh_nodeI [OF start_node_fresh _ _ disk]; auto)+
  then show ?thesis by (simp add: cluster_start_def sample_cluster_def)
qed


definition sample_args :: request_vote_args where
  "sample_args = \<lparr>rv_term = 1, rv_candidateId = 1, rv_lastLogIndex = 0, rv_lastLogTerm = 0\<rparr>"

definition sample_reply :: request_vote_reply where
  "sample_reply = \<lparr>rvr_term = 1, voteGranted = True\<rparr>"

definition sample_candidate :: raft_node where
  "sample_candidate = resetElectionTimer 5 (snd (becomeCandidate (start_node 1)))"

lemma start_node_simps [simp]:
  "currentTerm (start_node i) = 0" "role (start_node i) = FOLLOWER" "votedFor (start_node i) = 0"
  "log (start_node i) = new_log" "running (start_node i)" "lastHeartbeat (start_node i) = 0"
  "electionTimeout (start_node i) = 150" "nodeId (start_node i) = i" "disk_ok (start_node i)"
  "peerIds (start_node i) = (if i = 1 then [2] else [1])"
  by (simp_all add: start_node_eq initial_node_def resetElectionTimer_def uniform_int_def disk_ok_def)

lemma sample_begin: "begin_election 5 (start_node 1) = (Inr sample_args, sample_candidate)"
  by (simp add: begin_election_def Let_def sample_candidate_def sample_args_def getLastIndex_def getLastTerm_def
      new_log_def dummy_entry_def)

lemma sample_candidate_simps [simp]:
  "currentTerm sample_candidate = 1" "role sample_candidate = CANDIDATE" "peerIds sample_candidate = [2]"
  by (simp_all add: sample_candidate_def)

lemma sample_vote: "\<exists>n. handleRequestVote 5 sample_args (start_node 2) = (Inr sample_reply, n)"
proof -
  have "fst (becomeFollower 1 (start_node 2)) = Inr ()" by simp
  then show ?thesis
    by (simp add: handleRequestVote_def sample_args_def sample_reply_def consider_vote_def Let_def isLogUpToDate_def
        getLastIndex_def getLastTerm_def new_log_def dummy_entry_def)
qed

lemma sample_heard: "on_vote_result (Inr sample_reply) 1 sample_candidate = (Inr (Some 2), sample_candidate)"
  by (simp add: on_vote_result_def sample_reply_def Let_def)

lemma sample_run: "\<exists>c. reach {1, 2} 5 c \<and> role (node c 1) = LEADER \<and> currentTerm (node c 1) = 1"
proof -
  obtain v where v: "handleRequestVote 5 sample_args (start_node 2) = (Inr sample_reply, v)" using sample_vote by blast
  let ?c1 = "update 1 sample_candidate (Electing sample_args (peerIds sample_candidate) 1) {} sample_cluster"
  let ?c2 = "update 1 (node ?c1 1) (Electing sample_args (2 # []) 1) {Vote_request 2 sample_args} ?c1"
  let ?c3 = "update 2 v Idle (replies (Inr sample_reply) (Vote_reply 2 sample_args)) ?c2"
  let ?c4 = "update 1 sample_candidate (after_vote sample_args [] (Inr (Some 2))) {} ?c3"
  let ?c5 = "update 1 (finish_election 2 (node ?c4 1)) (if 2 \<ge> majority (node ?c4 1) then Heartbeat (peerIds (node ?c4 1)) else Idle) {} ?c4"
  have "reach {1, 2} 0 sample_cluster" by (rule reach.start [OF sample_cluster_start])
  moreover have "cluster_step {1, 2} sample_cluster ?c1"
    by (rule cluster_step.election [where now = 1000000000 and now' = 5])
      (simp_all add: sample_cluster_def sample_begin to_milliseconds_def)
  moreover have "cluster_step {1, 2} ?c1 ?c2" by (rule cluster_step.ask_vote) simp_all
  moreover have "cluster_step {1, 2} ?c2 ?c3"
    by (rule cluster_step.vote [where now = 5]) (simp_all add: sample_cluster_def v)
  moreover have "cluster_step {1, 2} ?c3 ?c4"
    by (rule cluster_step.hear_vote [where result = "Inr sample_reply" and v = 1 and p = 2])
      (simp_all add: sample_heard [simplified] replies_def)
  moreover have "cluster_step {1, 2} ?c4 ?c5"
    by (rule cluster_step.finish [where args = sample_args]) (simp_all add: after_vote_def)
  ultimately have "reach {1, 2} (Suc (Suc (Suc (Suc (Suc 0))))) ?c5" by (meson reach.step)
  then have "reach {1, 2} 5 ?c5" by (simp only: numeral_nat)
  moreover have "role (node ?c5 1) = LEADER" "currentTerm (node ?c5 1) = 1"
    by (simp_all add: finish_election_def becomeLeader_def Let_def majority_def)
  ultimately show ?thesis by blast
qed

theorem election_safety_witness:
  "\<exists>c. reach {1, 2} 5 c \<and> {i \<in> {1, 2}. role (node c i) = LEADER \<and> currentTerm (node c i) = 1} = {1}"
proof -
  obtain c where c: "reach {1, 2} 5 c" "role (node c 1) = LEADER" "currentTerm (node c 1) = 1" using sample_run by blast
  have "i = 1" if "i \<in> {1, 2}" "role (node c i) = LEADER" "currentTerm (node c i) = 1" for i
    using election_safety [OF c(1) _ that(1) _ that(2) c(2)] that(3) c(3) by simp
  with c show ?thesis by (intro exI [of _ c]) auto
qed

end
