(* ===== verification/Raft_Transport.thy ===== *)
theory Raft_Transport
  imports Raft_Cluster
begin

text \<open>
  The contract of a transport (\<open>include/raft/RaftRPC.hpp\<close>) that delivers, and what a node achieves
  over it: when the peers it can reach support it, an election is won, and a follower that lags
  behind receives the whole log after finitely many rounds of \<open>replicateToFollower\<close>. The theories of
  the two transports interpret the contract.
\<close>

section \<open>The contract\<close>

text \<open>The call reached the node behind \<open>p\<close>, which is now \<open>m\<close>; ids that share this node see it too.\<close>

definition arrived :: "('w \<Rightarrow> 'k \<Rightarrow> raft_node option) \<Rightarrow> 'k \<Rightarrow> raft_node \<Rightarrow> 'w \<Rightarrow> 'w \<Rightarrow> bool" where
  "arrived peer p m w w' \<longleftrightarrow> peer w' p = Some m \<and>
     (\<forall>q. peer w' q = peer w q \<or> peer w q = peer w p \<and> peer w' q = Some m)"

text \<open>A call that returns the reply which the handler of the node behind \<open>p\<close> gives at some moment.\<close>

definition delivers ::
  "('w \<Rightarrow> 'k \<Rightarrow> raft_node option) \<Rightarrow> 'k \<Rightarrow> (int \<Rightarrow> raft_node \<Rightarrow> (exn + 'r) \<times> raft_node) \<Rightarrow>
   ('w \<Rightarrow> (exn + 'r) \<times> 'w) \<Rightarrow> 'w \<Rightarrow> bool"
where
  "delivers peer p handler send w \<longleftrightarrow>
     (\<forall>m. peer w p = Some m \<longrightarrow>
        (\<exists>now. \<forall>reply m'. handler now m = (Inr reply, m') \<longrightarrow>
           (\<exists>w'. send w = (Inr reply, w') \<and> arrived peer p m' w w')))"

lemma delivers_unreachable: "peer w p = None \<Longrightarrow> delivers peer p handler send w"
  by (simp add: delivers_def)

lemma deliversE:
  assumes "delivers peer p handler send w" and "peer w p = Some m"
    and "\<And>now. \<exists>reply m'. handler now m = (Inr reply, m') \<and> P reply m'"
  obtains reply m' w' where "send w = (Inr reply, w')" "arrived peer p m' w w'" "P reply m'"
  using assms unfolding delivers_def by metis

locale delivering =
  fixes rpc :: "'w raft_rpc" and peer :: "'w \<Rightarrow> u64 \<Rightarrow> raft_node option"
  assumes deliver_vote:
      "\<And>p args t w. delivers peer p (\<lambda>now. handleRequestVote now args) (sendRequestVote rpc p args t) w"
    and deliver_append:
      "\<And>p args t w. delivers peer p (\<lambda>now. handleAppendEntries now args) (sendAppendEntries rpc p args t) w"
    and deliver_snapshot:
      "\<And>p args t w. delivers peer p (\<lambda>now. handleInstallSnapshot now args) (sendInstallSnapshot rpc p args t) w"

section \<open>Elections over a delivering transport\<close>

text \<open>A node that grants the request.\<close>

definition supports :: "request_vote_args \<Rightarrow> raft_node \<Rightarrow> bool" where
  "supports args m \<longleftrightarrow> disk_ok m \<and> currentTerm m \<le> rv_term args \<and>
     (currentTerm m < rv_term args \<or> votedFor m = 0 \<or> votedFor m = rv_candidateId args) \<and>
     isLogUpToDate (rv_lastLogIndex args) (rv_lastLogTerm args) m"

lemma disk_ok_handlers:
  "disk_ok n \<Longrightarrow> disk_ok (snd (handleRequestVote now vargs n))"
  "disk_ok n \<Longrightarrow> disk_ok (snd (handleAppendEntries now aargs n))"
  "disk_ok n \<Longrightarrow> disk_ok (snd (handleInstallSnapshot now sargs n))"
  by (simp_all add: handleRequestVote_def consider_vote_def handleAppendEntries_def handleInstallSnapshot_def Let_def)

lemma supports_vote:
  assumes "supports args m"
  shows "\<exists>reply m'. handleRequestVote now args m = (Inr reply, m') \<and>
    reply = \<lparr>rvr_term = rv_term args, voteGranted = True\<rparr> \<and> supports args m'"
proof -
  from assms have s: "disk_ok m" "currentTerm m \<le> rv_term args"
    "currentTerm m < rv_term args \<or> votedFor m = 0 \<or> votedFor m = rv_candidateId args"
    "isLogUpToDate (rv_lastLogIndex args) (rv_lastLogTerm args) m"
    by (simp_all add: supports_def)
  from handleRequestVote_result [OF s(1), of now args] s(2-4)
  obtain reply m' where r: "handleRequestVote now args m = (Inr reply, m')" "voteGranted reply"
    "rvr_term reply = max (currentTerm m) (rv_term args)" "currentTerm m' = rvr_term reply"
    "log m' = log m" "votedFor m' = rv_candidateId args"
    by blast
  have t: "rvr_term reply = rv_term args" using r(3) s(2) by (simp add: max_def)
  have "disk_ok m'" using disk_ok_handlers(1) [OF s(1), of now args] r(1) by simp
  with r s(4) t have "supports args m'"
    by (simp add: supports_def isLogUpToDate_log [of m' m])
  with r t show ?thesis by simp
qed

text \<open>\<open>Q\<close>, a property of the voters, survives a granted vote.\<close>

definition kept_by_vote :: "(raft_node \<Rightarrow> bool) \<Rightarrow> request_vote_args \<Rightarrow> bool" where
  "kept_by_vote Q args \<longleftrightarrow>
     (\<forall>m now reply m'. supports args m \<and> Q m \<and> handleRequestVote now args m = (Inr reply, m') \<longrightarrow> Q m')"

definition voted :: "(raft_node \<Rightarrow> bool) \<Rightarrow> request_vote_args \<Rightarrow> raft_node \<Rightarrow> bool" where
  "voted Q args m \<longleftrightarrow> supports args m \<and> Q m \<and> currentTerm m = rv_term args"

context delivering
begin

lemma ask_supporters:
  assumes "\<forall>p \<in> set ps. \<exists>m. peer w p = Some m \<and> supports args m \<and> Q m" and "kept_by_vote Q args"
  shows "\<exists>w'. ask_all rpc args ps w =
      (replicate (length ps) (Inr \<lparr>rvr_term = rv_term args, voteGranted = True\<rparr>), w') \<and>
    (\<forall>q. q \<in> set ps \<or> (\<exists>m. peer w q = Some m \<and> voted Q args m) \<longrightarrow> (\<exists>m. peer w' q = Some m \<and> voted Q args m))"
  using assms(1)
proof (induction ps arbitrary: w)
  case (Cons p ps)
  then obtain m where m: "peer w p = Some m" "supports args m" "Q m" by auto
  have "\<exists>reply m'. handleRequestVote now args m = (Inr reply, m') \<and>
      reply = \<lparr>rvr_term = rv_term args, voteGranted = True\<rparr> \<and> voted Q args m'" for now
  proof -
    obtain reply m' where h: "handleRequestVote now args m = (Inr reply, m')"
      "reply = \<lparr>rvr_term = rv_term args, voteGranted = True\<rparr>" "supports args m'"
      using supports_vote [OF m(2), of now] by blast
    moreover have "Q m'" using assms(2) m(2,3) h(1) unfolding kept_by_vote_def by blast
    moreover have "currentTerm m' = rv_term args" using handleRequestVote_granted(2) [OF h(1)] h(2) by simp
    ultimately show ?thesis by (simp add: voted_def)
  qed
  from deliversE [OF deliver_vote [where t = 100] m(1) this]
  obtain reply m' w1 where r: "sendRequestVote rpc p args 100 w = (Inr reply, w1)" "arrived peer p m' w w1"
    "reply = \<lparr>rvr_term = rv_term args, voteGranted = True\<rparr>" "voted Q args m'"
    by metis
  have step: "peer w1 p = Some m'" "\<And>q. peer w1 q = peer w q \<or> peer w1 q = Some m'"
    using r(2) unfolding arrived_def by metis+
  have "\<forall>q \<in> set ps. \<exists>k. peer w1 q = Some k \<and> supports args k \<and> Q k"
    using Cons.prems step(2) r(4) unfolding voted_def by (metis list.set_intros(2))
  from Cons.IH [OF this] obtain w' where w': "ask_all rpc args ps w1 =
      (replicate (length ps) (Inr \<lparr>rvr_term = rv_term args, voteGranted = True\<rparr>), w')"
    "\<And>q. q \<in> set ps \<or> (\<exists>m. peer w1 q = Some m \<and> voted Q args m) \<Longrightarrow> \<exists>m. peer w' q = Some m \<and> voted Q args m"
    by blast
  have "\<exists>m. peer w' q = Some m \<and> voted Q args m"
    if "q \<in> set (p # ps) \<or> (\<exists>m. peer w q = Some m \<and> voted Q args m)" for q
    by (rule w'(2)) (use that step r(4) in \<open>metis set_ConsD\<close>)
  with r(1,3) w'(1) show ?case by auto
qed simp

lemma supported_election_voters:
  assumes "disk_ok n" and "begin_election now n = (Inr args, n1)"
    and "\<forall>p \<in> set (peerIds n). \<exists>m. peer w p = Some m \<and> supports args m \<and> Q m" and "kept_by_vote Q args"
  shows "\<exists>w'. startElection rpc now (n, w) = sendHeartbeats rpc (becomeLeader n1, w') \<and>
    role (becomeLeader n1) = LEADER \<and> currentTerm (becomeLeader n1) = currentTerm n + 1 \<and>
    (\<forall>p \<in> set (peerIds n). \<exists>m. peer w' p = Some m \<and> voted Q args m)"
proof -
  have n1: "n1 = resetElectionTimer now (snd (becomeCandidate n))" "rv_term args = currentTerm n1"
    using assms(1,2) by (auto simp: begin_election_def Let_def)
  then have fr: "peerIds n1 = peerIds n" "currentTerm n1 = currentTerm n + 1" by simp_all
  let ?rs = "replicate (length (peerIds n)) (Inr \<lparr>rvr_term = rv_term args, voteGranted = True\<rparr>)"
  from ask_supporters [OF assms(3,4)] obtain w' where w': "ask_all rpc args (peerIds n) w = (?rs, w')"
    "\<forall>p \<in> set (peerIds n). \<exists>m. peer w' p = Some m \<and> voted Q args m" by blast
  have "list_all (no_higher_term (currentTerm n1)) ?rs" "filter granted ?rs = ?rs"
    by (simp_all add: no_higher_term_def granted_def n1(2) list_all_iff)
  from vote_loop_counts [OF w'(1) this(1), of 1] this(2)
  have v: "vote_loop rpc args (peerIds n) 1 (n1, w) = (Inr (Some (1 + length (peerIds n))), (n1, w'))"
    by simp
  have "majority n1 \<le> 1 + length (peerIds n)" by (simp add: majority_def fr)
  with v assms(2) fr w'(2) show ?thesis
    by (intro exI [of _ w']) (simp add: startElection_def lift_node_def finish_election_def Let_def becomeLeader_def)
qed

lemma supported_election:
  assumes "disk_ok n" and "begin_election now n = (Inr args, n1)"
    and "\<forall>p \<in> set (peerIds n). \<exists>m. peer w p = Some m \<and> supports args m"
  shows "\<exists>w'. startElection rpc now (n, w) = sendHeartbeats rpc (becomeLeader n1, w') \<and>
    role (becomeLeader n1) = LEADER \<and> currentTerm (becomeLeader n1) = currentTerm n + 1"
proof -
  have q: "\<forall>p \<in> set (peerIds n). \<exists>m. peer w p = Some m \<and> supports args m \<and> True" using assms(3) by simp
  have k: "kept_by_vote (\<lambda>_. True) args" by (simp add: kept_by_vote_def)
  from supported_election_voters [OF assms(1,2) q k] show ?thesis by (elim exE conjE) (intro exI conjI)
qed

end

section \<open>What a leader sends\<close>

lemma collect_entries_drop:
  assumes "log_wf l" and "last_nat l < 18446744073709551615" and "log_snapshotIndex l < i"
  shows "collect_entries l i = Inr (drop (unat i - unat (log_snapshotIndex l)) (Entries l))"
  using assms
proof (induction l i rule: collect_entries.induct)
  case (1 l i)
  have lt: "unat (log_snapshotIndex l) < unat i" using 1(4) by (simp add: word_less_nat_alt)
  have len: "Suc (last_nat l) = unat (log_snapshotIndex l) + length (Entries l)"
    using log_wf_nonempty [OF 1(2)] by (cases "Entries l") (simp_all add: last_nat_def)
  show ?case
  proof (cases "i \<le> getLastIndex l")
    case False
    then have "length (Entries l) \<le> unat i - unat (log_snapshotIndex l)"
      using getLastIndex_nat [OF 1(2)] len by (simp add: word_le_nat_alt)
    with False show ?thesis by (simp add: collect_entries.simps [of l i])
  next
    case True
    then have le: "unat i \<le> last_nat l" using getLastIndex_nat [OF 1(2)] by (simp add: word_le_nat_alt)
    then have i1: "unat (i + 1) = Suc (unat i)" using 1(3) by (intro unat_u64_plus1) simp
    have e: "getEntry l i = Inr (Entries l ! (unat i - unat (log_snapshotIndex l)))"
      using getEntry_log_map [OF 1(2), of i] lt le by (simp add: log_map_def)
    have "log_snapshotIndex l < i + 1" using lt i1 by (simp add: word_less_nat_alt)
    from 1(1) [OF True e 1(2,3) this]
    have "collect_entries l (i + 1) = Inr (drop (Suc (unat i - unat (log_snapshotIndex l))) (Entries l))"
      using lt by (simp add: i1 Suc_diff_le)
    then show ?thesis
      using True e lt le len by (simp add: collect_entries.simps [of l i] Cons_nth_drop_Suc)
  qed
qed

definition append_message :: "nat \<Rightarrow> raft_node \<Rightarrow> append_entries_args" where
  "append_message i n = \<lparr>ae_term = currentTerm n, ae_leaderId = nodeId n, ae_prevLogIndex = nextIndex n ! i - 1,
     ae_prevLogTerm = getTerm (log n) (nextIndex n ! i - 1),
     ae_entries = drop (unat (nextIndex n ! i)) (Entries (log n)), ae_leaderCommit = commitIndex n\<rparr>"

lemma prepare_uncompacted:
  assumes "log_wf (log n)" and "uncompacted (log n)" and "last_nat (log n) < 18446744073709551615"
    and "0 < nextIndex n ! i"
  shows "prepare_replication i n = Inr (Send_append (append_message i n))"
proof -
  have snap: "log_snapshotIndex (log n) = 0" using assms(2) by (simp add: uncompacted_def)
  have "collect_entries (log n) (nextIndex n ! i) = Inr (drop (unat (nextIndex n ! i)) (Entries (log n)))"
    using collect_entries_drop [OF assms(1,3), of "nextIndex n ! i"] assms(4) by (simp add: snap)
  moreover have "\<not> nextIndex n ! i \<le> getSnapshotIndex (log n)"
    using assms(4) by (simp add: getSnapshotIndex_def snap not_le)
  ultimately show ?thesis by (simp add: prepare_replication_def Let_def append_message_def)
qed

section \<open>Catching up\<close>

text \<open>Log matching: entries with the same index and term have the same history.\<close>

definition log_matching :: "raft_log \<Rightarrow> raft_log \<Rightarrow> bool" where
  "log_matching a b \<longleftrightarrow> (\<forall>k x y. log_map a k = Some x \<and> log_map b k = Some y \<and> e_term x = e_term y \<longrightarrow>
     (\<forall>j \<le> k. log_map a j = log_map b j))"

lemma log_matchingD:
  "log_matching a b \<Longrightarrow> log_map a k = Some x \<Longrightarrow> log_map b k = Some y \<Longrightarrow> e_term x = e_term y \<Longrightarrow> j \<le> k \<Longrightarrow>
     log_map a j = log_map b j"
  by (auto simp: log_matching_def)

lemma uncompacted_log_map:
  assumes "log_wf l" and "uncompacted l"
  shows "last_nat l = length (tl (Entries l))"
    and "log_map l k = (if 0 < k \<and> k \<le> length (tl (Entries l)) then Some (tl (Entries l) ! (k - 1)) else None)"
  using assms log_wf_nonempty [OF assms(1)]
  by (cases "Entries l"; auto simp: last_nat_def log_map_def uncompacted_def nth_Cons' Let_def)+

lemma merge_entries_agree:
  assumes "\<forall>j < length xs. j < length es \<and> e_term (xs ! j) = e_term (es ! j) \<longrightarrow> xs ! j = es ! j"
  shows "take (length es) (merge_entries xs es) = es"
  using assms
proof (induction xs es rule: merge_entries.induct)
  case (3 x xs e es)
  have "xs ! j = es ! j" if "j < length xs" "j < length es" "e_term (xs ! j) = e_term (es ! j)" for j
    using 3(2) that by (auto dest!: spec [of _ "Suc j"])
  moreover have "e_term x = e_term e \<longrightarrow> x = e" using 3(2) by (auto dest!: spec [of _ 0])
  ultimately show ?case using 3(1) by simp
qed simp_all

text \<open>The node has the log of the leader as far as that goes, in the leader's term.\<close>

definition caught_up :: "raft_node \<Rightarrow> raft_node \<Rightarrow> bool" where
  "caught_up n m \<longleftrightarrow> log_map (log m) |` {..last_nat (log n)} = log_map (log n) \<and> currentTerm m = currentTerm n"

definition replicable :: "nat \<Rightarrow> raft_node \<Rightarrow> raft_node \<Rightarrow> bool" where
  "replicable i n m \<longleftrightarrow>
     disk_ok m \<and> log_wf (log m) \<and> uncompacted (log m) \<and> last_nat (log m) < 18446744073709551615 \<and>
     currentTerm m \<le> currentTerm n \<and> log_matching (log m) (log n) \<and>
     uncompacted (log n) \<and> applicable n (getLastIndex (log n)) \<and> last_nat (log n) < 18446744073709551615 \<and>
     i < length (nextIndex n) \<and> 0 < nextIndex n ! i \<and> unat (nextIndex n ! i) \<le> Suc (last_nat (log n))"

lemma tail_map_eq:
  assumes "log_wf a" and "uncompacted a" and "log_wf b" and "uncompacted b" and "tl (Entries a) = tl (Entries b)"
  shows "log_map a = log_map b" and "last_nat a = last_nat b"
  using assms by (simp_all add: uncompacted_log_map fun_eq_iff)

lemma log_map_prefix:
  assumes "log_wf a" and "uncompacted a" and "log_wf b" and "uncompacted b"
    and "take (length (tl (Entries b))) (tl (Entries a)) = tl (Entries b)"
  shows "log_map a |` {..last_nat b} = log_map b"
proof
  fix k
  have "length (tl (Entries b)) \<le> length (tl (Entries a))"
    using assms(5) by (metis length_take min.cobounded1 min.commute)
  moreover have "tl (Entries a) ! (k - 1) = tl (Entries b) ! (k - 1)" if "0 < k" "k \<le> length (tl (Entries b))"
    using that nth_take [of "k - 1" "length (tl (Entries b))" "tl (Entries a)"] by (simp only: assms(5))
  ultimately show "(log_map a |` {..last_nat b}) k = log_map b k"
    using assms(1-4) by (auto simp: restrict_map_def uncompacted_log_map)
qed

text \<open>After the merge of what the leader sent, the leader's log is a prefix of the follower's.\<close>

lemma merge_sent:
  assumes "log_wf a" and "uncompacted a" and "log_wf b" and "uncompacted b" and "log_matching a b"
    and "p \<le> last_nat a" and "p \<le> last_nat b"
    and "p = 0 \<or> map_option e_term (log_map a p) = map_option e_term (log_map b p)"
  shows "take (length (tl (Entries b))) (take p (tl (Entries a)) @
      merge_entries (drop p (tl (Entries a))) (drop p (tl (Entries b)))) = tl (Entries b)"
proof -
  let ?a = "tl (Entries a)" and ?b = "tl (Entries b)"
  have len: "p \<le> length ?a" "p \<le> length ?b" using assms(1-4,6,7) by (simp_all add: uncompacted_log_map(1))
  have eq: "?a ! i = ?b ! i" if "i \<le> k" "k < length ?a" "k < length ?b" "e_term (?a ! k) = e_term (?b ! k)" for i k
    using log_matchingD [OF assms(5), of "Suc k" "?a ! k" "?b ! k" "Suc i"] that assms(1-4)
    by (simp add: uncompacted_log_map(2))
  have "take p ?a = take p ?b"
  proof (cases p)
    case (Suc k)
    then have "e_term (?a ! k) = e_term (?b ! k)"
      using assms(1-4,8) len by (simp add: uncompacted_log_map(2))
    with Suc len eq [of _ k] show ?thesis by (intro nth_take_lemma) auto
  qed simp
  moreover have "take (length (drop p ?b)) (merge_entries (drop p ?a) (drop p ?b)) = drop p ?b"
  proof (rule merge_entries_agree, intro allI impI, elim conjE)
    fix j assume "j < length (drop p ?a)" "j < length (drop p ?b)" "e_term (drop p ?a ! j) = e_term (drop p ?b ! j)"
    then show "drop p ?a ! j = drop p ?b ! j" using len eq [of "p + j" "p + j"] by (simp add: nth_drop)
  qed
  moreover have "take (length ?b) (take p ?b @ xs) = take p ?b @ take (length (drop p ?b)) xs" for xs
    using len by simp
  ultimately show ?thesis by (simp only: append_take_drop_id)
qed

lemma uncompacted_message:
  assumes "log_wf (log n)" and "uncompacted (log n)" and "0 < nextIndex n ! i"
  shows "unat (ae_prevLogIndex (append_message i n)) = unat (nextIndex n ! i) - 1"
    and "ae_entries (append_message i n) = drop (unat (nextIndex n ! i) - 1) (tl (Entries (log n)))"
    and "consecutive (Suc (unat (ae_prevLogIndex (append_message i n)))) (ae_entries (append_message i n))"
proof -
  have pos: "0 < unat (nextIndex n ! i)" using assms(3) by (simp add: word_less_nat_alt)
  show prev: "unat (ae_prevLogIndex (append_message i n)) = unat (nextIndex n ! i) - 1"
    using pos by (simp add: append_message_def unat_minus_one unat_gt_0)
  show "ae_entries (append_message i n) = drop (unat (nextIndex n ! i) - 1) (tl (Entries (log n)))"
    using pos by (cases "Entries (log n)") (auto simp: append_message_def drop_Cons')
  have "consecutive 0 (Entries (log n))"
    using assms(1,2) by (simp add: log_wf_consecutive uncompacted_def)
  then have "consecutive (unat (nextIndex n ! i)) (drop (unat (nextIndex n ! i)) (Entries (log n)))"
    by (auto simp: consecutive_def)
  then show "consecutive (Suc (unat (ae_prevLogIndex (append_message i n)))) (ae_entries (append_message i n))"
    using pos prev by (simp add: append_message_def)
qed

lemma replicable_message:
  assumes "replicable i n m"
  shows "prepare_replication i n = Inr (Send_append (append_message i n))"
    and "unat (ae_prevLogIndex (append_message i n)) = unat (nextIndex n ! i) - 1"
    and "ae_entries (append_message i n) = drop (unat (nextIndex n ! i) - 1) (tl (Entries (log n)))"
    and "consecutive (Suc (unat (ae_prevLogIndex (append_message i n)))) (ae_entries (append_message i n))"
    and "unat (ae_prevLogIndex (append_message i n)) + length (ae_entries (append_message i n)) < 18446744073709551615"
proof -
  have wf: "log_wf (log n)" "uncompacted (log n)" and bnd: "last_nat (log n) < 18446744073709551615"
    and nx: "0 < nextIndex n ! i" "unat (nextIndex n ! i) \<le> Suc (last_nat (log n))"
    using assms by (simp_all add: replicable_def applicable_def)
  show "prepare_replication i n = Inr (Send_append (append_message i n))"
    by (rule prepare_uncompacted [OF wf bnd nx(1)])
  note um = uncompacted_message [OF wf nx(1)]
  show "unat (ae_prevLogIndex (append_message i n)) = unat (nextIndex n ! i) - 1"
    "ae_entries (append_message i n) = drop (unat (nextIndex n ! i) - 1) (tl (Entries (log n)))"
    "consecutive (Suc (unat (ae_prevLogIndex (append_message i n)))) (ae_entries (append_message i n))"
    by (rule um)+
  show "unat (ae_prevLogIndex (append_message i n)) + length (ae_entries (append_message i n)) < 18446744073709551615"
    using um(1,2) nx bnd uncompacted_log_map(1) [OF wf] by (simp add: word_less_nat_alt)
qed

lemma matches_previous_terms:
  assumes "log_wf (log m)" and "uncompacted (log m)" and "log_wf (log n)" and "uncompacted (log n)"
    and "matches_previous args m" and "ae_prevLogTerm args = getTerm (log n) (ae_prevLogIndex args)"
    and "unat (ae_prevLogIndex args) \<le> last_nat (log n)"
  shows "unat (ae_prevLogIndex args) \<le> last_nat (log m)"
    and "unat (ae_prevLogIndex args) = 0 \<or>
      map_option e_term (log_map (log m) (unat (ae_prevLogIndex args))) =
      map_option e_term (log_map (log n) (unat (ae_prevLogIndex args)))"
proof -
  let ?p = "ae_prevLogIndex args"
  show le: "unat ?p \<le> last_nat (log m)"
    using assms(5) getLastIndex_nat [OF assms(1)] by (simp add: matches_previous_def word_le_nat_alt)
  show "unat ?p = 0 \<or> map_option e_term (log_map (log m) (unat ?p)) = map_option e_term (log_map (log n) (unat ?p))"
  proof (cases "?p = 0")
    case False
    then have pos: "0 < ?p" "0 < unat ?p" by (simp_all add: word_gt_0 unat_gt_0)
    from False assms(5,6) have t: "getTerm (log m) ?p = getTerm (log n) ?p" by (simp add: matches_previous_def)
    obtain x y where "log_map (log m) (unat ?p) = Some x" "log_map (log n) (unat ?p) = Some y"
      using pos(2) le assms(2,4,7) by (simp add: log_map_def uncompacted_def)
    with t assms(2,4) getTerm_log_map [OF assms(1) pos(1)] getTerm_log_map [OF assms(3) pos(1)]
    show ?thesis by (simp add: uncompacted_def)
  qed simp
qed

text \<open>One round with a follower that answers: it has the log, or it is offered a longer part next.\<close>

lemma append_round:
  assumes "replicable i n m"
  shows "\<exists>reply m'. handleAppendEntries now (append_message i n) m = (Inr reply, m') \<and>
    (\<exists>n'. on_append_reply i (append_message i n) reply n = (Inr (), n') \<and> log n' = log n \<and>
       peerIdToIndexMap n' = peerIdToIndexMap n \<and> currentTerm n' = currentTerm n \<and>
       (caught_up n m' \<or> replicable i n' m' \<and> nextIndex n' ! i < nextIndex n ! i))"
proof -
  let ?a = "append_message i n" and ?p = "unat (nextIndex n ! i) - 1"
  from assms have m: "disk_ok m" "log_wf (log m)" "uncompacted (log m)" "last_nat (log m) < 18446744073709551615"
    "currentTerm m \<le> currentTerm n" "log_matching (log m) (log n)"
    and n: "log_wf (log n)" "uncompacted (log n)" "applicable n (getLastIndex (log n))"
    "last_nat (log n) < 18446744073709551615" "i < length (nextIndex n)" "0 < nextIndex n ! i"
    "unat (nextIndex n ! i) \<le> Suc (last_nat (log n))"
    by (simp_all add: replicable_def applicable_def)
  have at: "ae_term ?a = currentTerm n" by (simp add: append_message_def)
  note msg = replicable_message [OF assms]
  obtain reply m' where h: "handleAppendEntries now ?a m = (Inr reply, m')" "aer_term reply = currentTerm n"
    "currentTerm m' = currentTerm n" "aer_success reply \<longleftrightarrow> matches_previous ?a m"
    "log_wf (log m')" "uncompacted (log m')"
    "tl (Entries (log m')) = (if matches_previous ?a m
      then take ?p (tl (Entries (log m))) @ merge_entries (drop ?p (tl (Entries (log m)))) (drop ?p (tl (Entries (log n))))
      else tl (Entries (log m)))"
    using handleAppendEntries_merge [of m ?a now, OF m(1-3) _ msg(4,5)] m(5) at
    unfolding msg(2,3) by auto
  have ok: "disk_ok m'" using disk_ok_handlers(2) [OF m(1), of now ?a] h(1) by simp
  show ?thesis
  proof (cases "matches_previous ?a m")
    case True
    let ?n = "if ae_entries ?a \<noteq> [] then n\<lparr>matchIndex := (matchIndex n)[i := e_index (last (ae_entries ?a))],
      nextIndex := (nextIndex n)[i := e_index (last (ae_entries ?a)) + 1]\<rparr> else n"
    have "on_append_reply i ?a reply n = updateCommitIndex ?n"
      using True h(2,4) by (simp add: on_append_reply_def Let_def)
    moreover have "applicable ?n (getLastIndex (log ?n))" "unat (getLastIndex (log ?n)) < 18446744073709551615"
      using n getLastIndex_nat [OF n(1)] by (simp_all add: applicable_def)
    then have "fst (updateCommitIndex ?n) = Inr ()" by (rule updateCommitIndex_returns)
    moreover have "same_indices ?n (snd (updateCommitIndex ?n))" by (rule updateCommitIndex_same_indices)
    ultimately obtain n' where n': "on_append_reply i ?a reply n = (Inr (), n')" "log n' = log n"
      "peerIdToIndexMap n' = peerIdToIndexMap n" "currentTerm n' = currentTerm n"
      by (cases "updateCommitIndex ?n") (simp add: same_indices_def split: if_splits)
    have le: "?p \<le> last_nat (log n)" using n(7) by simp
    from matches_previous_terms [OF m(2,3) n(1,2) True] le msg(2)
    have t: "?p \<le> last_nat (log m)"
      "?p = 0 \<or> map_option e_term (log_map (log m) ?p) = map_option e_term (log_map (log n) ?p)"
      by (simp_all add: append_message_def)
    have "take (length (tl (Entries (log n)))) (tl (Entries (log m'))) = tl (Entries (log n))"
      using merge_sent [OF m(2,3) n(1,2) m(6) t(1) le t(2)] h(7) True by simp
    from log_map_prefix [OF h(5,6) n(1,2) this] h(3) have "caught_up n m'" by (simp add: caught_up_def)
    with h(1) n' show ?thesis by blast
  next
    case False
    obtain n' where n': "on_append_reply i ?a reply n = (Inr (), n')"
      "n' = n\<lparr>nextIndex := (nextIndex n)[i := max 1 (conflictIndex reply)]\<rparr>"
      using False h(2,4) by (simp add: on_append_reply_def)
    have "1 \<le> nextIndex n' ! i \<and> nextIndex n' ! i < nextIndex n ! i"
      using backtracking_step [OF m(1,2,4) msg(1) n(5,6) h(1) m(5) _ n'(1)] False h(4) by blast
    moreover from this have "0 < nextIndex n' ! i" "unat (nextIndex n' ! i) \<le> Suc (last_nat (log n))"
      using n(7) by (simp_all add: word_less_nat_alt word_le_nat_alt)
    moreover have "log_map (log m') = log_map (log m)" "last_nat (log m') = last_nat (log m)"
      by (rule tail_map_eq [OF h(5,6) m(2,3)], simp add: h(7) False)+
    ultimately have "replicable i n' m' \<and> nextIndex n' ! i < nextIndex n ! i"
      using ok h(3,5,6) m n by (simp add: replicable_def n'(2) applicable_def log_matching_def)
    with h(1) n' show ?thesis by auto
  qed
qed

text \<open>Rounds of \<open>replicateToFollower\<close> for one peer, as the heartbeats of a leader make them.\<close>

fun replication_rounds ::
  "'w raft_rpc \<Rightarrow> u64 \<Rightarrow> nat \<Rightarrow> raft_node \<times> 'w \<Rightarrow> (exn + unit) \<times> (raft_node \<times> 'w)"
where
  "replication_rounds rpc p 0 s = (Inr (), s)"
| "replication_rounds rpc p (Suc k) s = andThen (replicateToFollower rpc p s) (\<lambda>_. replication_rounds rpc p k)"

context delivering
begin

lemma replication_round:
  assumes "peerIdToIndexMap n p = Some i" and "peer w p = Some m" and "replicable i n m"
  shows "\<exists>n' w' m'. replicateToFollower rpc p (n, w) = (Inr (), (n', w')) \<and> peer w' p = Some m' \<and>
    log n' = log n \<and> peerIdToIndexMap n' = peerIdToIndexMap n \<and> currentTerm n' = currentTerm n \<and>
    (caught_up n m' \<or> replicable i n' m' \<and> nextIndex n' ! i < nextIndex n ! i)"
proof -
  from deliversE [OF deliver_append [where t = 100 and args = "append_message i n"] assms(2) append_round [OF assms(3)]]
  obtain reply m' w' n' where r: "sendAppendEntries rpc p (append_message i n) 100 w = (Inr reply, w')"
    "arrived peer p m' w w'" "on_append_reply i (append_message i n) reply n = (Inr (), n')" "log n' = log n"
    "peerIdToIndexMap n' = peerIdToIndexMap n" "currentTerm n' = currentTerm n"
    "caught_up n m' \<or> replicable i n' m' \<and> nextIndex n' ! i < nextIndex n ! i"
    by metis
  then have "replicateToFollower rpc p (n, w) = (Inr (), (n', w'))"
    using assms(1) replicable_message(1) [OF assms(3)]
    by (simp add: replicateToFollower_def lift_world_def lift_node_def)
  with r show ?thesis by (auto simp: arrived_def)
qed

lemma replication_catches_up:
  assumes "peerIdToIndexMap n p = Some i" and "peer w p = Some m" and "replicable i n m"
  shows "\<exists>k n' w' m'. k \<le> unat (nextIndex n ! i) \<and> replication_rounds rpc p k (n, w) = (Inr (), (n', w')) \<and>
    peer w' p = Some m' \<and> log n' = log n \<and> caught_up n' m'"
  using assms
proof (induction "unat (nextIndex n ! i)" arbitrary: n w m rule: less_induct)
  case less
  from replication_round [OF less.prems]
  obtain n1 w1 m1 where r: "replicateToFollower rpc p (n, w) = (Inr (), (n1, w1))" "peer w1 p = Some m1"
    "log n1 = log n" "peerIdToIndexMap n1 = peerIdToIndexMap n" "currentTerm n1 = currentTerm n"
    "caught_up n m1 \<or> replicable i n1 m1 \<and> nextIndex n1 ! i < nextIndex n ! i"
    by blast
  from r(6) show ?case
  proof
    assume "caught_up n m1"
    then have "caught_up n1 m1" by (simp add: caught_up_def r(3,5))
    moreover have "Suc 0 \<le> unat (nextIndex n ! i)"
      using less.prems(3) by (simp add: replicable_def word_less_nat_alt)
    ultimately show ?thesis
      using r(1-3) by (intro exI [of _ "Suc 0"] exI [of _ n1] exI [of _ w1] exI [of _ m1]) simp
  next
    assume a: "replicable i n1 m1 \<and> nextIndex n1 ! i < nextIndex n ! i"
    then have lt: "unat (nextIndex n1 ! i) < unat (nextIndex n ! i)" by (simp add: word_less_nat_alt)
    from less.hyps [OF lt _ r(2)] a less.prems(1) r(4)
    obtain k n' w' m' where k: "k \<le> unat (nextIndex n1 ! i)"
      "replication_rounds rpc p k (n1, w1) = (Inr (), (n', w'))" "peer w' p = Some m'" "log n' = log n1"
      "caught_up n' m'"
      by auto
    with r(1,3) lt show ?thesis
      by (intro exI [of _ "Suc k"] exI [of _ n'] exI [of _ w'] exI [of _ m']) simp
  qed
qed

end

section \<open>A leader and a follower that lags behind\<close>

definition wired_leader :: raft_node where
  "wired_leader = sample_leader\<lparr>peerIdToIndexMap := [2 \<mapsto> 0, 3 \<mapsto> 1]\<rparr>"

lemma wired_leader_simps [simp]:
  "peerIdToIndexMap wired_leader 2 = Some 0" "peerIdToIndexMap wired_leader 3 = Some 1"
  "log wired_leader = sample_log" "currentTerm wired_leader = 2" "nextIndex wired_leader = [4, 2]"
  "matchIndex wired_leader = [3, 1]" "peerIds wired_leader = [2, 3]" "role wired_leader = LEADER"
  "commitIndex wired_leader = 0" "lastApplied wired_leader = 0" "kvStore wired_leader = empty_kvstore"
  by (simp_all add: wired_leader_def)

lemma short_log_simps [simp]: "log_wf short_log" "last_nat short_log = 1" "uncompacted short_log"
  "tl (Entries short_log) = [sample_entry 1 1]"
  by (simp_all add: short_log_def log_wf_consecutive last_nat_def dummy_entry_def uncompacted_def)

lemma sample_replicable: "replicable 0 wired_leader (sample_node\<lparr>log := short_log, nodeId := 2\<rparr>)"
proof -
  have "log_map short_log j = log_map sample_log j" if "log_map short_log k = Some x" "j \<le> k" for j k x
    using that uncompacted_log_map(2) [of short_log] uncompacted_log_map(2) [of sample_log]
    by (simp add: sample_log_tail uncompacted_def [of sample_log] split: if_splits)
  then have "log_matching short_log sample_log" by (auto simp: log_matching_def)
  then show ?thesis by (simp add: replicable_def uncompacted_def [of sample_log] applicable_def)
qed

end
