(* ===== verification/Commit_Round.thy ===== *)
theory Commit_Round
  imports Raft_Transport
begin

text \<open>
  What one heartbeat round of a leader achieves over a delivering transport: when every follower has
  the entry before the ones it is sent, the round ends with everything replicated, committed and
  applied.
\<close>

section \<open>Committing keeps the store well formed\<close>

lemma kv_wf_apply_entry: "kv_wf (kvStore n) \<Longrightarrow> kv_wf (kvStore (apply_entry e n))"
  using apply_command_refines by (auto simp: apply_entry_def split: sum.split)

lemma kv_wf_applyCommittedEntries: "kv_wf (kvStore n) \<Longrightarrow> kv_wf (kvStore (snd (applyCommittedEntries n)))"
proof (induction n rule: applyCommittedEntries.induct)
  case (1 n)
  then show ?case
    by (subst applyCommittedEntries.simps) (auto simp: Let_def kv_wf_apply_entry split: sum.split)
qed

lemma kv_wf_updateCommitIndex: "kv_wf (kvStore n) \<Longrightarrow> kv_wf (kvStore (snd (updateCommitIndex n)))"
proof -
  have "kv_wf (kvStore n) \<longrightarrow> kv_wf (kvStore (snd r))" if "commit_loop i lst n = Some r" for i lst n r
    by (rule commit_loop_relates [OF _ _ _ that]) (simp_all add: kv_wf_applyCommittedEntries)
  then show "kv_wf (kvStore n) \<Longrightarrow> kv_wf (kvStore (snd (updateCommitIndex n)))"
    by (auto simp: updateCommitIndex_def split: option.split)
qed

section \<open>A follower that accepts\<close>

text \<open>The follower has what comes before the entries it is offered, and something is offered.\<close>

definition in_step :: "nat \<Rightarrow> raft_node \<Rightarrow> raft_node \<Rightarrow> bool" where
  "in_step i n m \<longleftrightarrow> replicable i n m \<and> matches_previous (append_message i n) m \<and>
     unat (nextIndex n ! i) \<le> last_nat (log n)"

text \<open>The leader after the success of follower \<open>i\<close>, before it looks for something to commit.\<close>

definition acknowledged :: "nat \<Rightarrow> raft_node \<Rightarrow> raft_node" where
  "acknowledged i n = n\<lparr>matchIndex := (matchIndex n)[i := getLastIndex (log n)],
     nextIndex := (nextIndex n)[i := getLastIndex (log n) + 1]\<rparr>"

definition whole_follower :: "raft_node \<Rightarrow> raft_node \<Rightarrow> bool" where
  "whole_follower n m \<longleftrightarrow> caught_up n m \<and> disk_ok m \<and> log_wf (log m) \<and> uncompacted (log m) \<and>
     last_nat (log m) < 18446744073709551615"

lemma append_accepted:
  assumes "in_step i n m"
  shows "\<exists>reply m'. handleAppendEntries now (append_message i n) m = (Inr reply, m') \<and> whole_follower n m' \<and>
    last_nat (log m') \<le> max (last_nat (log m)) (last_nat (log n)) \<and>
    on_append_reply i (append_message i n) reply n = updateCommitIndex (acknowledged i n)"
proof -
  let ?a = "append_message i n" and ?p = "unat (nextIndex n ! i) - 1"
  have r: "replicable i n m" and mp: "matches_previous ?a m" and le: "unat (nextIndex n ! i) \<le> last_nat (log n)"
    using assms by (simp_all add: in_step_def)
  from r have m: "disk_ok m" "log_wf (log m)" "uncompacted (log m)" "last_nat (log m) < 18446744073709551615"
    "currentTerm m \<le> currentTerm n" "log_matching (log m) (log n)"
    and n: "log_wf (log n)" "uncompacted (log n)" "last_nat (log n) < 18446744073709551615"
    by (simp_all add: replicable_def applicable_def)
  note msg = replicable_message [OF r]
  from append_round [OF r, of now] obtain reply m' where
    h: "handleAppendEntries now ?a m = (Inr reply, m')" by blast
  obtain reply' m'' where h': "handleAppendEntries now ?a m = (Inr reply', m'')" "aer_term reply' = currentTerm n"
    "currentTerm m'' = currentTerm n" "aer_success reply'" "log_wf (log m'')" "uncompacted (log m'')"
    "tl (Entries (log m'')) = take ?p (tl (Entries (log m))) @
       merge_entries (drop ?p (tl (Entries (log m)))) (drop ?p (tl (Entries (log n))))"
    using handleAppendEntries_merge [of m ?a now, OF m(1-3) _ msg(4,5)] m(5) mp
    unfolding msg(2,3) by (auto simp: append_message_def)
  have t: "?p \<le> last_nat (log m)"
    "?p = 0 \<or> map_option e_term (log_map (log m) ?p) = map_option e_term (log_map (log n) ?p)"
    using matches_previous_terms [OF m(2,3) n(1,2) mp] msg(2) le by (simp_all add: append_message_def)
  have p: "?p \<le> last_nat (log n)" using le by simp
  have "take (length (tl (Entries (log n)))) (tl (Entries (log m''))) = tl (Entries (log n))"
    using merge_sent [OF m(2,3) n(1,2) m(6) t(1) p t(2)] h'(7) by simp
  from log_map_prefix [OF h'(5,6) n(1,2) this] h'(3) have c: "caught_up n m''" by (simp add: caught_up_def)
  have len: "?p \<le> length (tl (Entries (log m)))" "?p \<le> length (tl (Entries (log n)))"
    "length (tl (Entries (log m))) < 18446744073709551615" "length (tl (Entries (log n))) < 18446744073709551615"
    using t(1) p m(4) n(3) unfolding uncompacted_log_map(1) [OF m(2,3)] uncompacted_log_map(1) [OF n(1,2)] .
  have "length (tl (Entries (log m''))) \<le> ?p + max (length (tl (Entries (log m))) - ?p) (length (tl (Entries (log n))) - ?p)"
    using length_merge_le [of "drop ?p (tl (Entries (log m)))" "drop ?p (tl (Entries (log n)))"]
    unfolding h'(7) length_append length_take length_drop by linarith
  with len have mx: "last_nat (log m'') \<le> max (last_nat (log m)) (last_nat (log n))"
    unfolding uncompacted_log_map(1) [OF h'(5,6)] uncompacted_log_map(1) [OF m(2,3)] uncompacted_log_map(1) [OF n(1,2)]
    by linarith
  with m(4) n(3) have "last_nat (log m'') < 18446744073709551615" by linarith
  moreover have "disk_ok m''" using disk_ok_handlers(2) [OF m(1), of now ?a] h'(1) by simp
  ultimately have w: "whole_follower n m''" using c h'(5,6) by (simp add: whole_follower_def)
  have ne: "ae_entries ?a \<noteq> []"
    using le n log_wf_nonempty [OF n(1)]
    by (cases "Entries (log n)") (simp_all add: append_message_def last_nat_def uncompacted_def)
  then have "last (ae_entries ?a) = last (Entries (log n))" by (simp add: append_message_def)
  with ne h'(2,4) have "on_append_reply i ?a reply' n = updateCommitIndex (acknowledged i n)"
    by (simp add: on_append_reply_def acknowledged_def getLastIndex_def)
  with h'(1) w mx show ?thesis by blast
qed

text \<open>A follower that has the whole log agrees with the leader as far as that log goes.\<close>

lemma whole_follower_agrees:
  assumes "whole_follower n m" and "log_wf (log n)" and "uncompacted (log n)"
  shows "\<And>j. j \<le> last_nat (log n) \<Longrightarrow> log_map (log m) j = log_map (log n) j"
    and "last_nat (log n) \<le> last_nat (log m)"
    and "\<And>q. 0 < q \<Longrightarrow> unat q \<le> last_nat (log n) \<Longrightarrow> getTerm (log m) q = getTerm (log n) q"
proof -
  have m: "log_wf (log m)" "uncompacted (log m)" "log_map (log m) |` {..last_nat (log n)} = log_map (log n)"
    using assms(1) by (simp_all add: whole_follower_def caught_up_def)
  show same: "log_map (log m) j = log_map (log n) j" if "j \<le> last_nat (log n)" for j
    using fun_cong [OF m(3), of j] that by simp
  show "last_nat (log n) \<le> last_nat (log m)"
    using same [of "last_nat (log n)"] assms(3) m(2)
    by (auto simp: log_map_def uncompacted_def split: if_splits)
  show "getTerm (log m) q = getTerm (log n) q" if "0 < q" "unat q \<le> last_nat (log n)" for q
    using getTerm_log_map [OF m(1) that(1)] getTerm_log_map [OF assms(2) that(1)] same [OF that(2)] m(2) assms(3)
    by (simp add: uncompacted_def)
qed

lemma whole_follower_matches:
  assumes "whole_follower n m" and "log_wf (log n)" and "uncompacted (log n)"
    and "unat (ae_prevLogIndex args) \<le> last_nat (log n)"
    and "ae_prevLogTerm args = getTerm (log n) (ae_prevLogIndex args)"
  shows "matches_previous args m"
proof -
  have "log_wf (log m)" using assms(1) by (simp add: whole_follower_def)
  then have "ae_prevLogIndex args \<le> getLastIndex (log m)"
    using assms(4) whole_follower_agrees(2) [OF assms(1-3)] getLastIndex_nat [of "log m"] by (simp add: word_le_nat_alt)
  moreover have "ae_prevLogIndex args = 0 \<or> getTerm (log m) (ae_prevLogIndex args) = ae_prevLogTerm args"
    using whole_follower_agrees(3) [OF assms(1-3) _ assms(4)] unfolding assms(5) word_gt_0 by metis
  ultimately show ?thesis by (simp add: matches_previous_def)
qed

text \<open>So it accepts any offer.\<close>

lemma whole_follower_in_step:
  assumes "whole_follower n m" and "applicable n (getLastIndex (log n))" and "uncompacted (log n)"
    and "last_nat (log n) < 18446744073709551615" and "i < length (nextIndex n)" and "0 < nextIndex n ! i"
    and "unat (nextIndex n ! i) \<le> last_nat (log n)"
  shows "in_step i n m"
proof -
  have m: "disk_ok m" "log_wf (log m)" "uncompacted (log m)" "last_nat (log m) < 18446744073709551615"
    "currentTerm m = currentTerm n"
    using assms(1) by (simp_all add: whole_follower_def caught_up_def)
  have n: "log_wf (log n)" using assms(2) by (simp add: applicable_def)
  have "k \<le> last_nat (log n)" if "log_map (log n) k = Some y" for k y
    using that by (simp add: log_map_def split: if_splits)
  then have "log_matching (log m) (log n)"
    using whole_follower_agrees(1) [OF assms(1) n assms(3)] unfolding log_matching_def by (meson le_trans)
  then have r: "replicable i n m" using assms m by (simp add: replicable_def)
  have "unat (ae_prevLogIndex (append_message i n)) \<le> last_nat (log n)"
    using replicable_message(2) [OF r] assms(7) by simp
  then have "matches_previous (append_message i n) m"
    by (rule whole_follower_matches [OF assms(1) n assms(3)]) (simp add: append_message_def)
  with r assms(7) show ?thesis by (simp add: in_step_def)
qed

lemma in_step_frame:
  assumes "in_step j n m" and "log n' = log n" and "currentTerm n' = currentTerm n"
    and "nextIndex n' ! j = nextIndex n ! j" and "length (nextIndex n') = length (nextIndex n)"
    and "applicable n' (getLastIndex (log n))"
  shows "in_step j n' m"
  using assms by (simp add: in_step_def replicable_def matches_previous_def append_message_def)

lemma whole_follower_frame:
  "whole_follower n m \<Longrightarrow> log n' = log n \<Longrightarrow> currentTerm n' = currentTerm n \<Longrightarrow> whole_follower n' m"
  by (simp add: whole_follower_def caught_up_def)

section \<open>The leader in a round\<close>

text \<open>Whatever it has committed so far is applied, and is the replay of its log from the start of the round.\<close>

definition leading :: "raft_node \<Rightarrow> raft_node \<Rightarrow> bool" where
  "leading n0 n \<longleftrightarrow> role n = LEADER \<and> log n = log n0 \<and> currentTerm n = currentTerm n0 \<and>
     peerIds n = peerIds n0 \<and> peerIdToIndexMap n = peerIdToIndexMap n0 \<and>
     length (nextIndex n) = length (peerIds n0) \<and> length (matchIndex n) = length (peerIds n0) \<and>
     (\<forall>k < length (peerIds n0). peerIdToIndexMap n0 (peerIds n0 ! k) = Some k) \<and>
     uncompacted (log n0) \<and> last_nat (log n0) < 18446744073709551615 \<and>
     applicable n (getLastIndex (log n0)) \<and> lastApplied n = commitIndex n \<and>
     lastApplied n0 \<le> commitIndex n \<and> service_of n = service_at n0 (commitIndex n)"

lemma leading_commit:
  assumes "leading n0 n"
  shows "\<exists>n'. updateCommitIndex (acknowledged k n) = (Inr (), n') \<and> leading n0 n' \<and>
    nextIndex n' = (nextIndex n)[k := getLastIndex (log n0) + 1] \<and>
    matchIndex n' = (matchIndex n)[k := getLastIndex (log n0)] \<and>
    (committable (acknowledged k n) (getLastIndex (log n0)) \<longrightarrow> commitIndex n' = getLastIndex (log n0)) \<and>
    persistence n' = persistence n"
proof -
  let ?a = "acknowledged k n" and ?lst = "getLastIndex (log n0)"
  have n: "role n = LEADER" "log n = log n0" "applicable n ?lst" "lastApplied n = commitIndex n"
    "lastApplied n0 \<le> commitIndex n" "service_of n = service_at n0 (commitIndex n)" "uncompacted (log n0)"
    using assms by (simp_all add: leading_def)
  have wf: "log_wf (log n0)" using n(2,3) by (simp add: applicable_def)
  have bnd: "last_nat (log n0) < 18446744073709551615" using assms by (simp add: leading_def)
  have max: "unat (getLastIndex (log ?a)) < 18446744073709551615"
    using getLastIndex_nat [OF wf] bnd n(2) by (simp add: acknowledged_def)
  have app: "applicable ?a (getLastIndex (log ?a))"
    using n(2,3) by (simp add: acknowledged_def applicable_def)
  have "commitIndex ?a \<le> getLastIndex (log ?a)" using app by (simp add: applicable_def)
  from less_max_plus1 [OF this max] have lt: "commitIndex ?a < commitIndex ?a + 1"
    by (simp add: word_less_nat_alt)
  from commit_loop_result [OF app max lt] n(1) obtain n' where
    loop: "updateCommitIndex ?a = (Inr (), n')" and r: "commit_result (commitIndex ?a + 1) ?a n'"
    by (auto simp: updateCommitIndex_def acknowledged_def)
  have same: "same_indices ?a n'" using updateCommitIndex_same_indices [of ?a] loop by simp
  have kv: "kv_wf (kvStore n')"
    using kv_wf_updateCommitIndex [of ?a] app loop by (simp add: applicable_def)
  have ge: "commitIndex n \<le> commitIndex n'" using r by (simp add: commit_result_def acknowledged_def)
  have "commitIndex n' \<le> ?lst \<and> lastApplied n' = commitIndex n' \<and> service_of n' = service_at n0 (commitIndex n')"
  proof (cases "n' = ?a")
    case True
    then show ?thesis using n by (simp add: acknowledged_def applicable_def service_of_def)
  next
    case False
    with r n(2) have "commitIndex n' \<le> ?lst" "lastApplied n' = commitIndex n'"
      "service_of n' = service_at ?a (commitIndex n')"
      by (auto simp: commit_result_def acknowledged_def)
    moreover have "service_at ?a (commitIndex n') = service_at n0 (commitIndex n')"
      by (rule service_at_trans [OF _ _ _ n(5) ge]) (use n in \<open>simp_all add: acknowledged_def service_of_def\<close>)
    ultimately show ?thesis by simp
  qed
  moreover from this have "applicable n' ?lst"
    using same n(2,7) kv wf by (simp add: applicable_def same_indices_def acknowledged_def uncompacted_def)
  moreover have "lastApplied n0 \<le> commitIndex n'" using n(5) ge by (rule order_trans)
  moreover have commit: "commitIndex n' = ?lst" if "committable ?a ?lst"
  proof (rule antisym)
    show "commitIndex n' \<le> ?lst" using calculation(1) by simp
    show "?lst \<le> commitIndex n'"
    proof (cases "commitIndex ?a + 1 \<le> ?lst")
      case True
      with r that n(2) show ?thesis by (auto simp: commit_result_def acknowledged_def)
    next
      case False
      with lt have "?lst \<le> commitIndex ?a"
        using u64_le_cases [OF lt, of ?lst] by (metis le_less_linear less_imp_le order_refl)
      then show ?thesis using ge by (simp add: acknowledged_def)
    qed
  qed
  ultimately have "leading n0 n'"
    using assms same by (simp add: leading_def same_indices_def acknowledged_def)
  moreover have "persistence n' = persistence n"
    using updateCommitIndex_same_vote [of ?a] loop by (simp add: same_vote_def acknowledged_def)
  ultimately show ?thesis using loop same commit n(2) by (simp add: same_indices_def acknowledged_def)
qed

text \<open>The round has reached the first \<open>k\<close> peers.\<close>

definition round_at ::
  "('w \<Rightarrow> u64 \<Rightarrow> raft_node option) \<Rightarrow> (raft_node \<Rightarrow> bool) \<Rightarrow> raft_node \<Rightarrow> nat \<Rightarrow> raft_node \<times> 'w \<Rightarrow> bool"
where
  "round_at peer Q n0 k s \<longleftrightarrow> leading n0 (fst s) \<and>
     (\<forall>j < k. \<exists>m. peer (snd s) (peerIds n0 ! j) = Some m \<and> whole_follower n0 m \<and> Q m) \<and>
     (\<forall>j < k. matchIndex (fst s) ! j = getLastIndex (log n0) \<and> nextIndex (fst s) ! j = getLastIndex (log n0) + 1) \<and>
     (\<forall>j < length (peerIds n0). k \<le> j \<longrightarrow>
        (\<exists>m. peer (snd s) (peerIds n0 ! j) = Some m \<and> in_step j (fst s) m \<and> Q m)) \<and>
     (0 < k \<and> k = length (peerIds n0) \<longrightarrow> commitIndex (fst s) = getLastIndex (log n0)) \<and>
     persistence (fst s) = persistence n0"

text \<open>\<open>Q\<close>, a property of the followers, survives an accepted offer in the round.\<close>

definition kept_in_round :: "(raft_node \<Rightarrow> bool) \<Rightarrow> raft_node \<Rightarrow> bool" where
  "kept_in_round Q n0 \<longleftrightarrow>
     (\<forall>n m i now reply m'. leading n0 n \<and> in_step i n m \<and> Q m \<and>
        handleAppendEntries now (append_message i n) m = (Inr reply, m') \<longrightarrow> Q m')"

lemma all_matched_committable:
  assumes "\<forall>j < length (peerIds n). matchIndex n ! j = c" and "length (matchIndex n) = length (peerIds n)"
    and "getTerm (log n) c = currentTerm n"
  shows "committable n c"
proof -
  have "matchIndex n = replicate (length (peerIds n)) c"
    using assms(1,2) by (simp add: list_eq_iff_nth_eq)
  then have "replicationCount c n = 1 + length (peerIds n)"
    by (simp add: replicationCount_def)
  with assms(3) show ?thesis by (simp add: committable_def majority_def)
qed

context delivering
begin

lemma round_step:
  assumes "round_at peer Q n0 k (n, w)" and "k < length (peerIds n0)"
    and "getTerm (log n0) (getLastIndex (log n0)) = currentTerm n0" and "kept_in_round Q n0"
  shows "\<exists>s. replicateToFollower rpc (peerIds n0 ! k) (n, w) = (Inr (), s) \<and> round_at peer Q n0 (Suc k) s"
proof -
  let ?p = "peerIds n0 ! k" and ?lst = "getLastIndex (log n0)"
  from assms(1) have lead: "leading n0 n" and reached: "\<forall>j < k. \<exists>m. peer w (peerIds n0 ! j) = Some m \<and> whole_follower n0 m \<and> Q m"
    and match: "\<forall>j < k. matchIndex n ! j = ?lst \<and> nextIndex n ! j = ?lst + 1" and per: "persistence n = persistence n0"
    and todo: "\<And>j. j < length (peerIds n0) \<Longrightarrow> k \<le> j \<Longrightarrow> \<exists>m. peer w (peerIds n0 ! j) = Some m \<and> in_step j n m \<and> Q m"
    by (simp_all add: round_at_def)
  from lead have n: "log n = log n0" "currentTerm n = currentTerm n0" "peerIds n = peerIds n0"
    "peerIdToIndexMap n ?p = Some k" "length (nextIndex n) = length (peerIds n0)"
    "length (matchIndex n) = length (peerIds n0)"
    using assms(2) by (simp_all add: leading_def)
  obtain m where m: "peer w ?p = Some m" "in_step k n m" "Q m" using todo [OF assms(2)] by auto
  have kept: "Q m'" if "handleAppendEntries now (append_message k n) m = (Inr reply, m')" for now reply m'
    using assms(4) lead m(2,3) that unfolding kept_in_round_def by blast
  have "\<exists>reply m'. handleAppendEntries now (append_message k n) m = (Inr reply, m') \<and> Q m' \<and> whole_follower n m' \<and>
    on_append_reply k (append_message k n) reply n = updateCommitIndex (acknowledged k n)" for now
    using append_accepted [OF m(2), of now] kept by blast
  from deliversE [OF deliver_append [where t = 100 and args = "append_message k n"] m(1) this]
  obtain reply m' w' where r: "sendAppendEntries rpc ?p (append_message k n) 100 w = (Inr reply, w')"
    "arrived peer ?p m' w w'" "whole_follower n m'"
    "on_append_reply k (append_message k n) reply n = updateCommitIndex (acknowledged k n)" "Q m'"
    by metis
  from leading_commit [OF lead, of k] obtain n' where n': "updateCommitIndex (acknowledged k n) = (Inr (), n')"
    "leading n0 n'" "nextIndex n' = (nextIndex n)[k := ?lst + 1]" "matchIndex n' = (matchIndex n)[k := ?lst]"
    "committable (acknowledged k n) ?lst \<longrightarrow> commitIndex n' = ?lst" "persistence n' = persistence n"
    by blast
  have "replicateToFollower rpc ?p (n, w) = (Inr (), (n', w'))"
    using r n' n(4) replicable_message(1) [of k n m] m(2)
    by (simp add: in_step_def replicateToFollower_def lift_world_def lift_node_def)
  moreover have "round_at peer Q n0 (Suc k) (n', w')"
    unfolding round_at_def fst_conv snd_conv
  proof (intro conjI allI impI, goal_cases)
    case 1 show ?case by (rule n'(2))
  next
    case (2 j)
    have "whole_follower n0 m'" using r(3) n(1,2) by (simp add: whole_follower_def caught_up_def)
    moreover have "peer w' (peerIds n0 ! j) = Some m' \<or> j < k \<and> peer w' (peerIds n0 ! j) = peer w (peerIds n0 ! j)"
      using r(2) 2 by (cases "j = k") (auto simp: arrived_def)
    ultimately show ?case using reached r(5) by metis
  next
    case (3 j)
    then show ?case using match n'(4) n(6) assms(2) by (cases "j = k") simp_all
  next
    case (4 j)
    then show ?case using match n'(3) n(5) assms(2) by (cases "j = k") simp_all
  next
    case (5 j)
    then have j: "j \<noteq> k" "k \<le> j" by simp_all
    obtain mj where mj: "peer w (peerIds n0 ! j) = Some mj" "in_step j n mj" "Q mj" using todo [OF 5(1) j(2)] by auto
    have app: "applicable n' (getLastIndex (log n))" "log n' = log n" "currentTerm n' = currentTerm n"
      using n'(2) n(1,2) by (simp_all add: leading_def)
    have nx: "nextIndex n' ! j = nextIndex n ! j" "length (nextIndex n') = length (nextIndex n)"
      using n'(3) j(1) by simp_all
    have "in_step j n' mj" by (rule in_step_frame [OF mj(2) app(2,3) nx app(1)])
    moreover have "in_step j n' m'"
    proof (rule whole_follower_in_step)
      show "whole_follower n' m'" by (rule whole_follower_frame [OF r(3) app(2,3)])
      show "applicable n' (getLastIndex (log n'))" using app by simp
      show "uncompacted (log n')" "last_nat (log n') < 18446744073709551615" "j < length (nextIndex n')"
        "0 < nextIndex n' ! j" "unat (nextIndex n' ! j) \<le> last_nat (log n')"
        using mj(2) app(2) nx by (simp_all add: in_step_def replicable_def)
    qed
    moreover have "peer w' (peerIds n0 ! j) = Some mj \<or> peer w' (peerIds n0 ! j) = Some m'"
      using r(2) unfolding arrived_def by (metis mj(1))
    ultimately show ?case using mj(3) r(5) by blast
  next
    case 6
    have "committable (acknowledged k n) ?lst"
    proof (rule all_matched_committable)
      show "\<forall>j < length (peerIds (acknowledged k n)). matchIndex (acknowledged k n) ! j = ?lst"
        using match 6 n by (auto simp: acknowledged_def nth_list_update less_Suc_eq)
    qed (use n assms(3) in \<open>simp_all add: acknowledged_def\<close>)
    with n'(5) show ?case by simp
  next
    case 7 show ?case using n'(6) per by simp
  qed
  ultimately show ?thesis by blast
qed

lemma round_completes:
  assumes "round_at peer Q n0 k s" and "k \<le> length (peerIds n0)"
    and "getTerm (log n0) (getLastIndex (log n0)) = currentTerm n0" and "kept_in_round Q n0"
  shows "\<exists>s'. heartbeat_loop rpc (drop k (peerIds n0)) s = (Inr (), s') \<and> round_at peer Q n0 (length (peerIds n0)) s'"
  using assms(1,2)
proof (induction "length (peerIds n0) - k" arbitrary: k s)
  case 0
  then have "k = length (peerIds n0)" by simp
  with 0(2) show ?case by simp
next
  case (Suc d)
  then have lt: "k < length (peerIds n0)" by simp
  obtain n w where s: "s = (n, w)" by fastforce
  from round_step [of Q n0 k n w, OF _ lt assms(3,4)] Suc.prems(1) obtain s1 where
    s1: "replicateToFollower rpc (peerIds n0 ! k) s = (Inr (), s1)" "round_at peer Q n0 (Suc k) s1"
    by (auto simp: s)
  have "d = length (peerIds n0) - Suc k" "Suc k \<le> length (peerIds n0)" using Suc.hyps(2) lt by simp_all
  from Suc.hyps(1) [OF this(1) s1(2) this(2)] obtain s' where
    "heartbeat_loop rpc (drop (Suc k) (peerIds n0)) s1 = (Inr (), s')" "round_at peer Q n0 (length (peerIds n0)) s'"
    by blast
  with s1(1) show ?case by (intro exI [of _ s']) (simp add: Cons_nth_drop_Suc [OF lt, symmetric])
qed

lemma round_commits:
  assumes "leading n n" and "peerIds n \<noteq> []" and "getTerm (log n) (getLastIndex (log n)) = currentTerm n"
    and "\<forall>k < length (peerIds n). \<exists>m. peer w (peerIds n ! k) = Some m \<and> in_step k n m \<and> Q m"
    and "kept_in_round Q n"
  shows "\<exists>n' w'. sendHeartbeats rpc (n, w) = (Inr (), (n', w')) \<and> leading n n' \<and> persistence n' = persistence n \<and>
    commitIndex n' = getLastIndex (log n) \<and>
    (\<forall>k < length (peerIds n). nextIndex n' ! k = getLastIndex (log n) + 1 \<and>
       (\<exists>m. peer w' (peerIds n ! k) = Some m \<and> whole_follower n m \<and> Q m))"
proof -
  have "round_at peer Q n 0 (n, w)" using assms(1,4) by (simp add: round_at_def)
  from round_completes [OF this _ assms(3,5)] obtain n' w' where
    r: "heartbeat_loop rpc (peerIds n) (n, w) = (Inr (), (n', w'))" "round_at peer Q n (length (peerIds n)) (n', w')"
    by auto
  from r(2) have "commitIndex n' = getLastIndex (log n)" "leading n n'" "persistence n' = persistence n"
    "\<forall>k < length (peerIds n). nextIndex n' ! k = getLastIndex (log n) + 1 \<and>
       (\<exists>m. peer w' (peerIds n ! k) = Some m \<and> whole_follower n m \<and> Q m)"
    using assms(2) by (simp_all add: round_at_def)
  with r(1) show ?thesis by (auto simp: sendHeartbeats_def)
qed

end

section \<open>A client request, from the leader's log to the service\<close>

lemma persistState_shape:
  "persistState (n\<lparr>log := l\<rparr>) = (r, m) \<Longrightarrow> m = n\<lparr>log := log m, persistence := persistence m\<rparr>"
  by (cases "persistence n") (auto simp: persistState_def split: prod.splits)

lemma handleClientRequest_shape:
  "handleClientRequest request n = (r, m) \<Longrightarrow> m = n\<lparr>log := log m, persistence := persistence m\<rparr>"
  by (auto simp: handleClientRequest_def Let_def split: sum.splits prod.splits unit.splits if_splits
      dest: persistState_shape)

text \<open>A follower whose log is the leader's.\<close>

definition in_sync :: "raft_node \<Rightarrow> raft_node \<Rightarrow> bool" where
  "in_sync n m \<longleftrightarrow> whole_follower n m \<and> log_map (log m) = log_map (log n)"

lemma log_map_last:
  assumes "log_wf a" and "uncompacted a" and "log_wf b" and "uncompacted b" and "log_map a = log_map b"
  shows "last_nat a = last_nat b"
proof -
  have "{0<..last_nat a} = {0<..last_nat b}"
    using assms dom_log_map [of a] dom_log_map [of b] by (simp add: uncompacted_def)
  then have "card {0<..last_nat a} = card {0<..last_nat b}" by (rule arg_cong)
  then show ?thesis by simp
qed

lemma append_in_step:
  assumes "in_sync n m" and "leading n n" and "log_append e (log n) = Inr l" and "e_term e = currentTerm n"
    and "Suc (last_nat (log n)) < 18446744073709551615" and "k < length (peerIds n)"
    and "nextIndex n ! k = getLastIndex (log n) + 1"
  shows "in_step k (n\<lparr>log := l, persistence := p\<rparr>) m"
proof -
  let ?n = "n\<lparr>log := l, persistence := p\<rparr>"
  have m: "disk_ok m" "log_wf (log m)" "uncompacted (log m)" "last_nat (log m) < 18446744073709551615"
    "currentTerm m = currentTerm n" "log_map (log m) = log_map (log n)"
    using assms(1) by (simp_all add: in_sync_def whole_follower_def caught_up_def)
  have n: "log_wf (log n)" "uncompacted (log n)" "applicable n (getLastIndex (log n))" "length (nextIndex n) = length (peerIds n)"
    using assms(2) by (auto simp: leading_def applicable_def)
  have bnd: "last_nat (log n) < 18446744073709551615" using assms(5) by simp
  from log_append_wf [OF n(1) bnd assms(3)] have l: "log_wf l" "last_nat l = Suc (last_nat (log n))"
    "log_map l = (log_map (log n))(Suc (last_nat (log n)) \<mapsto> e)" by simp_all
  have ul: "uncompacted l" using log_append_Inr [OF n(1) bnd] assms(3) n(2) by (simp add: uncompacted_def)
  have same: "last_nat (log m) = last_nat (log n)" by (rule log_map_last [OF m(2,3) n(1,2) m(6)])
  have lastl: "unat (getLastIndex l) = Suc (last_nat (log n))" using getLastIndex_nat [OF l(1)] l(2) by simp
  have lastn: "unat (getLastIndex (log n)) = last_nat (log n)" by (rule getLastIndex_nat [OF n(1)])
  have nxt: "unat (nextIndex n ! k) = Suc (last_nat (log n))"
    unfolding assms(7) using lastn bnd by (simp add: unat_u64_plus1)
  have known: "j \<le> last_nat (log n)" if "log_map (log n) j = Some x" for j x
    using that by (simp add: log_map_def split: if_splits)
  have "log_map (log n) j = log_map l j" if "j \<le> last_nat (log n)" for j
    using that by (simp add: l(3))
  then have "log_matching (log m) l"
    unfolding log_matching_def m(6) by (meson known le_trans)
  moreover have "getLastIndex (log n) \<le> getLastIndex l"
    using lastl lastn by (simp add: word_le_nat_alt)
  then have "applicable ?n (getLastIndex l)"
    using n(3) l(1) ul by (auto simp: applicable_def uncompacted_def)
  moreover have "0 < nextIndex n ! k" using nxt by (simp add: word_less_nat_alt)
  ultimately have r: "replicable k ?n m"
    using m(1-5) l(2) ul assms(5,6) nxt n(4) by (simp add: replicable_def)
  have prev: "ae_prevLogIndex (append_message k ?n) = getLastIndex (log n)"
    by (simp add: append_message_def assms(7))
  have "getTerm (log m) q = getTerm l q" if "0 < q" "unat q \<le> last_nat (log n)" for q
    using getTerm_log_map [OF m(2) that(1)] getTerm_log_map [OF l(1) that(1)] m(3,6) ul that(2)
    by (simp add: uncompacted_def l(3))
  with prev lastn have "getLastIndex (log n) = 0 \<or> getTerm (log m) (getLastIndex (log n)) = getTerm l (getLastIndex (log n))"
    unfolding word_gt_0 by (metis order_refl)
  moreover have "getLastIndex (log m) = getLastIndex (log n)"
    using getLastIndex_nat [OF m(2)] lastn same by (simp add: word_unat_eq_iff)
  ultimately have "matches_previous (append_message k ?n) m"
    by (simp add: matches_previous_def append_message_def assms(7))
  with r nxt l(2) show ?thesis by (simp add: in_step_def)
qed

lemma leading_append:
  assumes "leading n n" and "log_append e (log n) = Inr l" and "Suc (last_nat (log n)) < 18446744073709551615"
    and "e_term e = currentTerm n"
  shows "leading (n\<lparr>log := l, persistence := p\<rparr>) (n\<lparr>log := l, persistence := p\<rparr>)"
    and "getLastIndex l = getLastIndex (log n) + 1" and "getTerm l (getLastIndex l) = currentTerm n"
    and "entries_between l (last_nat (log n)) (Suc (last_nat (log n))) = [e]"
proof -
  have n: "log_wf (log n)" "uncompacted (log n)" "applicable n (getLastIndex (log n))"
    using assms(1) by (auto simp: leading_def applicable_def)
  have bnd: "last_nat (log n) < 18446744073709551615" using assms(3) by simp
  from log_append_wf [OF n(1) bnd assms(2)] have l: "log_wf l" "last_nat l = Suc (last_nat (log n))"
    "log_map l = (log_map (log n))(Suc (last_nat (log n)) \<mapsto> e)" by simp_all
  have ul: "uncompacted l" using log_append_Inr [OF n(1) bnd] assms(2) n(2) by (simp add: uncompacted_def)
  have lastl: "unat (getLastIndex l) = Suc (last_nat (log n))" using getLastIndex_nat [OF l(1)] l(2) by simp
  have lastn: "unat (getLastIndex (log n)) = last_nat (log n)" by (rule getLastIndex_nat [OF n(1)])
  show "getLastIndex l = getLastIndex (log n) + 1"
    using lastl lastn bnd by (simp add: word_unat_eq_iff unat_u64_plus1)
  show "getTerm l (getLastIndex l) = currentTerm n"
    using getTerm_log_map [OF l(1), of "getLastIndex l"] lastl ul assms(4)
    by (simp add: l(3) uncompacted_def word_less_nat_alt)
  show "entries_between l (last_nat (log n)) (Suc (last_nat (log n))) = [e]"
    by (simp add: entries_between_def l(3))
  have "getLastIndex (log n) \<le> getLastIndex l"
    using lastl lastn by (simp add: word_le_nat_alt)
  then have "applicable (n\<lparr>log := l, persistence := p\<rparr>) (getLastIndex l)"
    using n(3) l(1) ul by (auto simp: applicable_def uncompacted_def)
  moreover have "lastApplied n = commitIndex n" using assms(1) by (simp add: leading_def)
  moreover from this have "service_of (n\<lparr>log := l, persistence := p\<rparr>) =
      service_at (n\<lparr>log := l, persistence := p\<rparr>) (commitIndex (n\<lparr>log := l, persistence := p\<rparr>))"
    using service_at_here [of "n\<lparr>log := l, persistence := p\<rparr>"] by simp
  ultimately show "leading (n\<lparr>log := l, persistence := p\<rparr>) (n\<lparr>log := l, persistence := p\<rparr>)"
    using assms(1,3) ul l(2) by (simp add: leading_def)
qed

text \<open>What a new request leaves behind: a leader with one more entry that every follower in sync will accept.\<close>

lemma request_accepted:
  assumes "disk_ok n" and "leading n n" and "\<not> already_applied request n" and "command_ok (req_command request)"
    and "Suc (last_nat (log n)) < 18446744073709551615"
  shows "\<exists>reply n1. handleClientRequest request n = (Inr reply, n1) \<and> cr_success reply \<and>
    n1 = n\<lparr>log := log n1, persistence := persistence n1\<rparr> \<and> disk_ok n1 \<and> leading n1 n1 \<and>
    last_nat (log n1) = Suc (last_nat (log n)) \<and> getLastIndex (log n1) = getLastIndex (log n) + 1 \<and>
    getTerm (log n1) (getLastIndex (log n1)) = currentTerm n1 \<and>
    decode_commands (entries_between (log n1) (last_nat (log n)) (last_nat (log n1))) = [req_command request] \<and>
    (\<forall>j \<le> last_nat (log n). log_map (log n1) j = log_map (log n) j) \<and>
    (\<forall>k m. k < length (peerIds n) \<and> nextIndex n ! k = getLastIndex (log n) + 1 \<and> in_sync n m \<longrightarrow> in_step k n1 m)"
proof -
  have n: "log_wf (log n)" "role n = LEADER" "lastApplied n = commitIndex n"
    using assms(2) by (auto simp: leading_def applicable_def)
  have bnd: "last_nat (log n) < 18446744073709551615" using assms(5) by simp
  from handleClientRequest_append [OF assms(1) n(1) bnd n(2) assms(3,4)] obtain reply n1 e where
    r: "handleClientRequest request n = (Inr reply, n1)" "cr_success reply" "log_wf (log n1)"
    "last_nat (log n1) = Suc (last_nat (log n))" "log_map (log n1) = (log_map (log n))(Suc (last_nat (log n)) \<mapsto> e)"
    "e_term e = currentTerm n" "deserialize (command_data e) = Inr (req_command request)"
    "log_append e (log n) = Inr (log n1)"
    by blast
  define l p where "l = log n1" and "p = persistence n1"
  have n1: "n1 = n\<lparr>log := l, persistence := p\<rparr>" using handleClientRequest_shape [OF r(1)] by (simp add: l_def p_def)
  note lead = leading_append(1) [OF assms(2) r(8) [folded l_def] assms(5) r(6), of p, folded n1]
    and app = leading_append(2-4) [OF assms(2) r(8) [folded l_def] assms(5) r(6)]
  have "in_step k n1 m" if "k < length (peerIds n)" "nextIndex n ! k = getLastIndex (log n) + 1" "in_sync n m" for k m
    using append_in_step [OF that(3) assms(2) r(8) [folded l_def] r(6) assms(5) that(1,2), of p] by (simp add: n1)
  moreover have "disk_ok n1" using disk_ok_handleClientRequest [OF assms(1), of request] r(1) by simp
  moreover have "currentTerm n1 = currentTerm n" by (simp add: n1)
  moreover have "decode_commands (entries_between (log n1) (last_nat (log n)) (last_nat (log n1))) = [req_command request]"
    using app(3) r(4,7) by (simp add: decode_commands_def l_def)
  moreover have "\<forall>j \<le> last_nat (log n). log_map (log n1) j = log_map (log n) j" by (simp add: r(5))
  moreover have "getLastIndex (log n1) = getLastIndex (log n) + 1" "getTerm (log n1) (getLastIndex (log n1)) = currentTerm n1"
    using app(1,2) calculation(3) by (simp_all add: l_def)
  moreover note r(1,2,4) lead handleClientRequest_shape [OF r(1)]
  ultimately show ?thesis by blast
qed

context delivering
begin

lemma request_commits:
  assumes "disk_ok n" and "leading n n" and "peerIds n \<noteq> []" and "commitIndex n = getLastIndex (log n)"
    and "\<not> already_applied request n" and "command_ok (req_command request)"
    and "Suc (last_nat (log n)) < 18446744073709551615"
    and "\<forall>k < length (peerIds n). nextIndex n ! k = getLastIndex (log n) + 1 \<and>
      (\<exists>m. peer w (peerIds n ! k) = Some m \<and> in_sync n m)"
  shows "\<exists>reply n1 n' w'. handleClientRequest request n = (Inr reply, n1) \<and> cr_success reply \<and>
    sendHeartbeats rpc (n1, w) = (Inr (), (n', w')) \<and> role n' = LEADER \<and>
    commitIndex n' = getLastIndex (log n) + 1 \<and> lastApplied n' = commitIndex n' \<and>
    service_of n' = exec_once (req_command request) (service_of n) \<and>
    (\<forall>k < length (peerIds n). \<exists>m. peer w' (peerIds n ! k) = Some m \<and> caught_up n1 m)"
proof -
  from request_accepted [OF assms(1,2,5-7)] obtain reply n1 where
    r: "handleClientRequest request n = (Inr reply, n1)" "cr_success reply" "n1 = n\<lparr>log := log n1, persistence := persistence n1\<rparr>"
    "leading n1 n1" "last_nat (log n1) = Suc (last_nat (log n))" "getLastIndex (log n1) = getLastIndex (log n) + 1"
    "getTerm (log n1) (getLastIndex (log n1)) = currentTerm n1"
    "decode_commands (entries_between (log n1) (last_nat (log n)) (last_nat (log n1))) = [req_command request]"
    "\<forall>k m. k < length (peerIds n) \<and> nextIndex n ! k = getLastIndex (log n) + 1 \<and> in_sync n m \<longrightarrow> in_step k n1 m"
    by blast
  from r(3) have same: "peerIds n1 = peerIds n" "lastApplied n1 = lastApplied n" "service_of n1 = service_of n"
    by (cases n, cases n1, simp add: service_of_def)+
  have "\<forall>k < length (peerIds n1). \<exists>m. peer w (peerIds n1 ! k) = Some m \<and> in_step k n1 m \<and> True"
    using assms(8) r(9) same(1) by metis
  from round_commits [OF r(4) _ r(7) this] assms(3) same(1) obtain n' w' where
    round: "sendHeartbeats rpc (n1, w) = (Inr (), (n', w'))" "leading n1 n'" "commitIndex n' = getLastIndex (log n1)"
    "\<forall>k < length (peerIds n). \<exists>m. peer w' (peerIds n ! k) = Some m \<and> whole_follower n1 m"
    by (auto simp: kept_in_round_def)
  have "unat (lastApplied n1) = last_nat (log n)" "unat (getLastIndex (log n1)) = last_nat (log n1)"
    using assms(2,4) r(4) same(2) getLastIndex_nat [of "log n"] getLastIndex_nat [of "log n1"]
    by (auto simp: leading_def applicable_def)
  then have "service_at n1 (getLastIndex (log n1)) = exec_once (req_command request) (service_of n)"
    using r(8) same(3) by (simp add: service_at_def)
  moreover have "role n' = LEADER" "lastApplied n' = commitIndex n'" "service_of n' = service_at n1 (commitIndex n')"
    using round(2) by (simp_all add: leading_def)
  moreover have "\<forall>k < length (peerIds n). \<exists>m. peer w' (peerIds n ! k) = Some m \<and> caught_up n1 m"
    using round(4) by (auto simp: whole_follower_def)
  ultimately show ?thesis using r(1,2,6) round(1,3) by auto
qed

end

end
