(* ===== verification/InMemory_RPC.thy ===== *)
theory InMemory_RPC
  imports Commit_Round
begin

text \<open>
  The transport between nodes of one process (\<open>include/raft/InMemoryRPC.hpp\<close>,
  \<open>src/raft/InMemoryRPC.cpp\<close>). A \<open>RaftNode*\<close> is the address of an object of the process; the world
  of a calling node is the transport with these objects and the clock its handlers read. Each call
  holds \<open>rpcMutex\<close>, so it is one operation on this world; what the mutexes do to threads that run
  at the same time is the last section.
\<close>

section \<open>State\<close>

type_synonym address = nat

record memory_rpc =
  nodes :: "u64 \<rightharpoonup> address"
  partitions :: "u64 \<times> u64 \<rightharpoonup> bool"

record process = memory_rpc +
  objects :: "address \<rightharpoonup> raft_node"
  clock :: "int stream"

definition new_memory_rpc :: memory_rpc where
  "new_memory_rpc = \<lparr>nodes = Map.empty, partitions = Map.empty\<rparr>"

section \<open>Registration and partitions\<close>

definition registerNode :: "u64 \<Rightarrow> address \<Rightarrow> 'a memory_rpc_scheme \<Rightarrow> 'a memory_rpc_scheme" where
  "registerNode i a r = r\<lparr>nodes := (nodes r)(i \<mapsto> a)\<rparr>"

definition unregisterNode :: "u64 \<Rightarrow> 'a memory_rpc_scheme \<Rightarrow> 'a memory_rpc_scheme" where
  "unregisterNode i r = r\<lparr>nodes := (nodes r)(i := None)\<rparr>"

definition isReachable :: "u64 \<Rightarrow> u64 \<Rightarrow> 'a memory_rpc_scheme \<Rightarrow> bool" where
  "isReachable i j r =
     (if partitions r (i, j) = Some True then False
      else if partitions r (j, i) = Some True then False
      else True)"

definition setPartition :: "u64 \<Rightarrow> u64 \<Rightarrow> bool \<Rightarrow> 'a memory_rpc_scheme \<Rightarrow> 'a memory_rpc_scheme" where
  "setPartition i j partitioned r =
     r\<lparr>partitions := (partitions r)((i, j) \<mapsto> partitioned, (j, i) \<mapsto> partitioned)\<rparr>"

section \<open>The three calls\<close>

text \<open>\<open>it->second->handler(args)\<close>: the pointer must lead to a living object.\<close>

definition call_object ::
  "(int \<Rightarrow> raft_node \<Rightarrow> (exn + 'r) \<times> raft_node) \<Rightarrow> address \<Rightarrow> process \<Rightarrow> (exn + 'r) \<times> process"
where
  "call_object handler a w =
     (case objects w a of
        None \<Rightarrow> (Inl (Undefined_behaviour ''RaftNode pointer''), w)
      | Some n \<Rightarrow>
          (case handler (shd (clock w)) n of
             (r, n') \<Rightarrow> (r, w\<lparr>objects := (objects w)(a \<mapsto> n'), clock := stl (clock w)\<rparr>)))"

definition memory_sendRequestVote ::
  "u64 \<Rightarrow> request_vote_args \<Rightarrow> int \<Rightarrow> process \<Rightarrow> (exn + request_vote_reply) \<times> process"
where
  "memory_sendRequestVote peerId args timeout w =
     (case nodes w peerId of
        None \<Rightarrow> (Inr \<lparr>rvr_term = 0, voteGranted = False\<rparr>, w)
      | Some a \<Rightarrow> call_object (\<lambda>now. handleRequestVote now args) a w)"

definition memory_sendAppendEntries ::
  "u64 \<Rightarrow> append_entries_args \<Rightarrow> int \<Rightarrow> process \<Rightarrow> (exn + append_entries_reply) \<times> process"
where
  "memory_sendAppendEntries peerId args timeout w =
     (case nodes w peerId of
        None \<Rightarrow> (Inr \<lparr>aer_term = 0, aer_success = False, conflictIndex = 0, conflictTerm = 0\<rparr>, w)
      | Some a \<Rightarrow> call_object (\<lambda>now. handleAppendEntries now args) a w)"

definition memory_sendInstallSnapshot ::
  "u64 \<Rightarrow> install_snapshot_args \<Rightarrow> int \<Rightarrow> process \<Rightarrow> (exn + install_snapshot_reply) \<times> process"
where
  "memory_sendInstallSnapshot peerId args timeout w =
     (case nodes w peerId of
        None \<Rightarrow> (Inr \<lparr>isr_term = 0\<rparr>, w)
      | Some a \<Rightarrow> call_object (\<lambda>now. handleInstallSnapshot now args) a w)"

definition InMemoryRPC :: "process raft_rpc" where
  "InMemoryRPC = \<lparr>sendRequestVote = memory_sendRequestVote, sendAppendEntries = memory_sendAppendEntries,
     sendInstallSnapshot = memory_sendInstallSnapshot\<rparr>"

lemma InMemoryRPC_simps [simp]:
  "sendRequestVote InMemoryRPC = memory_sendRequestVote"
  "sendAppendEntries InMemoryRPC = memory_sendAppendEntries"
  "sendInstallSnapshot InMemoryRPC = memory_sendInstallSnapshot"
  by (simp_all add: InMemoryRPC_def)

text \<open>A method of the node at an address, which its caller's thread runs with the object locked.\<close>

definition run_at ::
  "address \<Rightarrow> (raft_node \<times> process \<Rightarrow> (exn + 'r) \<times> (raft_node \<times> process)) \<Rightarrow> process \<Rightarrow> (exn + 'r) \<times> process"
where
  "run_at a f w =
     (case objects w a of
        None \<Rightarrow> (Inl (Undefined_behaviour ''RaftNode pointer''), w)
      | Some n \<Rightarrow>
          (case f (n, w\<lparr>objects := (objects w)(a := None)\<rparr>) of
             (r, (n', w')) \<Rightarrow> (r, w'\<lparr>objects := (objects w')(a \<mapsto> n')\<rparr>)))"

section \<open>The contract\<close>

definition memory_peer :: "process \<Rightarrow> u64 \<Rightarrow> raft_node option" where
  "memory_peer w p = (case nodes w p of None \<Rightarrow> None | Some a \<Rightarrow> objects w a)"

lemma memory_arrived:
  assumes "nodes w p = Some a" and "objects w a = Some n"
  shows "arrived memory_peer p n' w (w\<lparr>objects := (objects w)(a \<mapsto> n'), clock := c\<rparr>)"
  using assms by (simp add: arrived_def memory_peer_def split: option.split)

lemma call_object_delivers:
  assumes "nodes w p = Some a"
  shows "delivers memory_peer p handler (call_object handler a) w"
  unfolding delivers_def
proof (intro allI impI exI [of _ "shd (clock w)"], goal_cases)
  case (1 m reply m')
  then have "objects w a = Some m" using assms by (simp add: memory_peer_def)
  with 1 memory_arrived [OF assms this, of m' "stl (clock w)"] show ?case by (simp add: call_object_def)
qed

lemma memory_delivers:
  "delivers memory_peer p (\<lambda>now. handleRequestVote now vargs) (memory_sendRequestVote p vargs t) w"
  "delivers memory_peer p (\<lambda>now. handleAppendEntries now aargs) (memory_sendAppendEntries p aargs t) w"
  "delivers memory_peer p (\<lambda>now. handleInstallSnapshot now sargs) (memory_sendInstallSnapshot p sargs t) w"
proof -
  have d: "delivers memory_peer p handler send w"
    if "\<And>a. nodes w p = Some a \<Longrightarrow> send w = call_object handler a w"
    for handler :: "int \<Rightarrow> raft_node \<Rightarrow> (exn + 'r) \<times> raft_node" and send
  proof (cases "nodes w p")
    case None
    then show ?thesis by (simp add: delivers_unreachable memory_peer_def)
  next
    case (Some a)
    with call_object_delivers [OF Some, of handler] that show ?thesis by (simp add: delivers_def)
  qed
  show "delivers memory_peer p (\<lambda>now. handleRequestVote now vargs) (memory_sendRequestVote p vargs t) w"
    by (rule d) (simp add: memory_sendRequestVote_def)
  show "delivers memory_peer p (\<lambda>now. handleAppendEntries now aargs) (memory_sendAppendEntries p aargs t) w"
    by (rule d) (simp add: memory_sendAppendEntries_def)
  show "delivers memory_peer p (\<lambda>now. handleInstallSnapshot now sargs) (memory_sendInstallSnapshot p sargs t) w"
    by (rule d) (simp add: memory_sendInstallSnapshot_def)
qed

interpretation memory: delivering InMemoryRPC memory_peer
  by unfold_locales (simp_all add: memory_delivers)

lemmas [run_simps] =
  registerNode_def unregisterNode_def isReachable_def setPartition_def call_object_def
  memory_sendRequestVote_def memory_sendAppendEntries_def memory_sendInstallSnapshot_def run_at_def memory_peer_def

section \<open>Properties of the calls\<close>

lemma call_object_partition:
  "call_object handler a (setPartition i j b w) = map_prod id (setPartition i j b) (call_object handler a w)"
  by (simp add: call_object_def setPartition_def split: option.split prod.split)

text \<open>
  Partitions cut nothing: \<open>setPartition\<close> decides what \<open>isReachable\<close> answers, in both directions,
  but the three calls never ask, so a request between partitioned nodes has the same reply and the
  same effect as without the partition.
\<close>

theorem partition_has_no_effect:
  "isReachable i j (setPartition i j b w) = (\<not> b) \<and> isReachable j i (setPartition i j b w) = (\<not> b) \<and>
   sendRequestVote InMemoryRPC p vargs t (setPartition i j b w) =
     map_prod id (setPartition i j b) (sendRequestVote InMemoryRPC p vargs t w) \<and>
   sendAppendEntries InMemoryRPC p aargs t (setPartition i j b w) =
     map_prod id (setPartition i j b) (sendAppendEntries InMemoryRPC p aargs t w) \<and>
   sendInstallSnapshot InMemoryRPC p sargs t (setPartition i j b w) =
     map_prod id (setPartition i j b) (sendInstallSnapshot InMemoryRPC p sargs t w)"
proof (intro conjI)
  have n: "nodes (setPartition i j b w) = nodes w" by (simp add: setPartition_def)
  show "isReachable i j (setPartition i j b w) = (\<not> b)" "isReachable j i (setPartition i j b w) = (\<not> b)"
    by (simp_all add: isReachable_def setPartition_def)
  show "sendRequestVote InMemoryRPC p vargs t (setPartition i j b w) =
     map_prod id (setPartition i j b) (sendRequestVote InMemoryRPC p vargs t w)"
    by (simp add: memory_sendRequestVote_def n call_object_partition split: option.split)
  show "sendAppendEntries InMemoryRPC p aargs t (setPartition i j b w) =
     map_prod id (setPartition i j b) (sendAppendEntries InMemoryRPC p aargs t w)"
    by (simp add: memory_sendAppendEntries_def n call_object_partition split: option.split)
  show "sendInstallSnapshot InMemoryRPC p sargs t (setPartition i j b w) =
     map_prod id (setPartition i j b) (sendInstallSnapshot InMemoryRPC p sargs t w)"
    by (simp add: memory_sendInstallSnapshot_def n call_object_partition split: option.split)
qed

text \<open>
  C19. A candidate whose peers are all registered, none of them in a later term, none of them bound to
  another candidate of the new term and none with a more up-to-date log, wins its election: it
  becomes leader of the next term and goes on to its first heartbeats.
\<close>

theorem supported_candidate_wins:
  assumes "disk_ok n" and "begin_election now n = (Inr args, n1)"
    and "\<forall>p \<in> set (peerIds n). \<exists>m. memory_peer w p = Some m \<and> supports args m"
  shows "\<exists>w'. startElection InMemoryRPC now (n, w) = sendHeartbeats InMemoryRPC (becomeLeader n1, w') \<and>
    role (becomeLeader n1) = LEADER \<and> currentTerm (becomeLeader n1) = currentTerm n + 1"
  by (rule memory.supported_election [OF assms])

definition sample_process :: "raft_node \<Rightarrow> process" where
  "sample_process m = \<lparr>nodes = [2 \<mapsto> 20, 3 \<mapsto> 30], partitions = Map.empty,
     objects = [20 \<mapsto> m\<lparr>nodeId := 2\<rparr>, 30 \<mapsto> m\<lparr>nodeId := 3\<rparr>], clock = sconst 7\<rparr>"

lemma sample_process_peers [simp]:
  "memory_peer (sample_process m) 2 = Some (m\<lparr>nodeId := 2\<rparr>)"
  "memory_peer (sample_process m) 3 = Some (m\<lparr>nodeId := 3\<rparr>)"
  by (simp_all add: memory_peer_def sample_process_def)

theorem supported_candidate_wins_witness:
  "\<exists>n1 w'. startElection InMemoryRPC 5 (sample_node, sample_process sample_node) =
      sendHeartbeats InMemoryRPC (n1, w') \<and> role n1 = LEADER \<and> currentTerm n1 = 3"
proof -
  obtain args n1 where b: "begin_election 5 sample_node = (Inr args, n1)" "rv_term args = 3"
    "rv_lastLogIndex args = 3" "rv_lastLogTerm args = 2"
    by (cases "begin_election 5 sample_node") (simp add: begin_election_def Let_def)
  have "\<forall>p \<in> set (peerIds sample_node). \<exists>m. memory_peer (sample_process sample_node) p = Some m \<and> supports args m"
    by (simp add: supports_def b isLogUpToDate_def)
  from supported_candidate_wins [OF _ b(1) this] show ?thesis by auto
qed

text \<open>
  C12. A follower that can be reached catches up, as long as no log was compacted. The leader's log is
  intact and applicable; the follower may have any log that satisfies log matching with it, its disk
  can be written, its term is not higher, and neither log reaches the end of the 64-bit range
  (\<open>replicable\<close>). When the leader offers it entries again and again, after at most \<open>nextIndex\<close> rounds the
  follower has exactly the leader's entries up to the end of the leader's log. (After a compaction
  this fails: \<open>handleAppendEntries_keeps_conflict\<close>.)
\<close>

theorem follower_catches_up:
  assumes "peerIdToIndexMap n p = Some i" and "memory_peer w p = Some m" and "replicable i n m"
  shows "\<exists>k n' w' m'. k \<le> unat (nextIndex n ! i) \<and>
    replication_rounds InMemoryRPC p k (n, w) = (Inr (), (n', w')) \<and>
    memory_peer w' p = Some m' \<and> log n' = log n \<and> caught_up n' m'"
  by (rule memory.replication_catches_up [OF assms])

theorem follower_catches_up_witness:
  "\<exists>k n' w' m'. k \<le> 4 \<and>
    replication_rounds InMemoryRPC 2 k (wired_leader, sample_process (sample_node\<lparr>log := short_log\<rparr>)) = (Inr (), (n', w')) \<and>
    memory_peer w' 2 = Some m' \<and> log_map (log m') |` {..3} = log_map sample_log"
proof -
  have "peerIdToIndexMap wired_leader 2 = Some 0" by simp
  from follower_catches_up [OF this _ sample_replicable, of "sample_process (sample_node\<lparr>log := short_log\<rparr>)"]
  obtain k n' w' m' where "k \<le> 4"
    "replication_rounds InMemoryRPC 2 k (wired_leader, sample_process (sample_node\<lparr>log := short_log\<rparr>)) = (Inr (), (n', w'))"
    "memory_peer w' 2 = Some m'" "log n' = sample_log" "caught_up n' m'"
    by auto
  then show ?thesis by (auto simp: caught_up_def)
qed

end
