(* ===== verification/Lock_Order.thy ===== *)
theory Lock_Order
  imports InMemory_RPC
begin

text \<open>
  The mutexes of nodes that share one \<open>InMemoryRPC\<close>. A round of a timer thread locks the
  \<open>stateMutex\<close> of its node and keeps it (\<open>src/raft/RaftNode.cpp\<close>); every call of the transport locks
  \<open>rpcMutex\<close> (\<open>src/raft/InMemoryRPC.cpp\<close>) and runs the handler of the peer, which locks the
  \<open>stateMutex\<close> of the peer. Only the order of these operations is modelled here.
\<close>

section \<open>Threads\<close>

datatype mutex = stateMutex address | rpcMutex

datatype lock_action = Lock mutex | Unlock mutex

text \<open>One call of the transport that reaches the node at address \<open>b\<close>.\<close>

definition call_locks :: "address \<Rightarrow> lock_action list" where
  "call_locks b = [Lock rpcMutex, Lock (stateMutex b), Unlock (stateMutex b), Unlock rpcMutex]"

text \<open>A round of the election or heartbeat timer of the node at address \<open>a\<close> that calls all peers.\<close>

definition round_locks :: "address \<Rightarrow> address list \<Rightarrow> lock_action list" where
  "round_locks a bs = Lock (stateMutex a) # concat (map call_locks bs) @ [Unlock (stateMutex a)]"

type_synonym thread = nat

record threads =
  holder :: "mutex \<Rightarrow> thread option"
  pending :: "thread \<Rightarrow> lock_action list"

inductive lock_step :: "threads \<Rightarrow> threads \<Rightarrow> bool" where
  acquire: "\<lbrakk>pending s t = Lock m # as; holder s m = None\<rbrakk> \<Longrightarrow>
    lock_step s (s\<lparr>holder := (holder s)(m \<mapsto> t), pending := (pending s)(t := as)\<rparr>)"
| release: "\<lbrakk>pending s t = Unlock m # as; holder s m = Some t\<rbrakk> \<Longrightarrow>
    lock_step s (s\<lparr>holder := (holder s)(m := None), pending := (pending s)(t := as)\<rparr>)"

inductive_cases lock_stepE: "lock_step s s'"

abbreviation lock_steps :: "threads \<Rightarrow> threads \<Rightarrow> bool" where
  "lock_steps \<equiv> lock_step\<^sup>*\<^sup>*"

definition deadlocked :: "threads \<Rightarrow> bool" where
  "deadlocked s \<longleftrightarrow> (\<exists>t. pending s t \<noteq> []) \<and> \<not> (\<exists>s'. lock_step s s')"

section \<open>One round alone\<close>

lemma lock_alone:
  assumes "pending s t = Lock m # as" and "holder s m = None"
  shows "lock_steps s (s\<lparr>holder := (holder s)(m \<mapsto> t), pending := (pending s)(t := as)\<rparr>)"
  using lock_step.acquire [OF assms] by (rule r_into_rtranclp)

lemma unlock_alone:
  assumes "pending s t = Unlock m # as" and "holder s m = Some t"
  shows "lock_steps s (s\<lparr>holder := (holder s)(m := None), pending := (pending s)(t := as)\<rparr>)"
  using lock_step.release [OF assms] by (rule r_into_rtranclp)

lemma call_completes:
  assumes "pending s t = call_locks b @ as" and "holder s rpcMutex = None" and "holder s (stateMutex b) = None"
  shows "lock_steps s (s\<lparr>pending := (pending s)(t := as)\<rparr>)"
proof -
  let ?s1 = "s\<lparr>holder := (holder s)(rpcMutex \<mapsto> t),
      pending := (pending s)(t := Lock (stateMutex b) # Unlock (stateMutex b) # Unlock rpcMutex # as)\<rparr>"
  let ?s2 = "?s1\<lparr>holder := (holder ?s1)(stateMutex b \<mapsto> t),
      pending := (pending ?s1)(t := Unlock (stateMutex b) # Unlock rpcMutex # as)\<rparr>"
  let ?s3 = "?s2\<lparr>holder := (holder ?s2)(stateMutex b := None), pending := (pending ?s2)(t := Unlock rpcMutex # as)\<rparr>"
  have "lock_steps s ?s1" using assms by (intro lock_alone) (simp_all add: call_locks_def)
  moreover have "lock_steps ?s1 ?s2" using assms by (intro lock_alone) simp_all
  moreover have "lock_steps ?s2 ?s3" by (rule unlock_alone) simp_all
  moreover have "lock_steps ?s3 (?s3\<lparr>holder := (holder ?s3)(rpcMutex := None), pending := (pending ?s3)(t := as)\<rparr>)"
    by (rule unlock_alone) simp_all
  moreover have "(holder s)(rpcMutex := None, stateMutex b := None) = holder s"
    using assms by (auto simp: fun_eq_iff)
  then have "?s3\<lparr>holder := (holder ?s3)(rpcMutex := None), pending := (pending ?s3)(t := as)\<rparr> =
      s\<lparr>pending := (pending s)(t := as)\<rparr>"
    using assms by (auto simp: fun_eq_iff)
  ultimately show ?thesis by (metis (no_types, lifting) rtranclp_trans)
qed

lemma calls_complete:
  assumes "pending s t = concat (map call_locks bs) @ as" and "holder s rpcMutex = None"
    and "\<forall>b \<in> set bs. holder s (stateMutex b) = None"
  shows "lock_steps s (s\<lparr>pending := (pending s)(t := as)\<rparr>)"
  using assms
proof (induction bs arbitrary: s)
  case Nil
  then have "s\<lparr>pending := (pending s)(t := as)\<rparr> = s" by (simp add: fun_upd_idem)
  then show ?case by (simp only: rtranclp.rtrancl_refl)
next
  case (Cons b bs)
  let ?s = "s\<lparr>pending := (pending s)(t := concat (map call_locks bs) @ as)\<rparr>"
  have "lock_steps s ?s" using Cons.prems by (intro call_completes [where b = b]) simp_all
  moreover have "lock_steps ?s (?s\<lparr>pending := (pending ?s)(t := as)\<rparr>)"
    using Cons.prems by (intro Cons.IH) simp_all
  moreover have "?s\<lparr>pending := (pending ?s)(t := as)\<rparr> = s\<lparr>pending := (pending s)(t := as)\<rparr>" by simp
  ultimately show ?case by (metis (no_types, lifting) rtranclp_trans)
qed

text \<open>
  A timer round that runs alone, on a node that is not its own peer, always gets through: it
  takes and gives back every mutex and ends with nothing held.
\<close>

theorem lone_round_completes:
  assumes "a \<notin> set bs" and "holder s = (\<lambda>_. None)" and "pending s t = round_locks a bs"
  shows "lock_steps s (s\<lparr>pending := (pending s)(t := [])\<rparr>)"
proof -
  let ?s1 = "s\<lparr>holder := (holder s)(stateMutex a \<mapsto> t),
      pending := (pending s)(t := concat (map call_locks bs) @ [Unlock (stateMutex a)])\<rparr>"
  let ?s2 = "?s1\<lparr>pending := (pending ?s1)(t := [Unlock (stateMutex a)])\<rparr>"
  have "lock_steps s ?s1" using assms by (intro lock_alone) (simp_all add: round_locks_def)
  moreover have "lock_steps ?s1 ?s2" using assms(1,2) by (intro calls_complete [where bs = bs]) auto
  moreover have "lock_steps ?s2 (?s2\<lparr>holder := (holder ?s2)(stateMutex a := None), pending := (pending ?s2)(t := [])\<rparr>)"
    by (rule unlock_alone) simp_all
  moreover have "?s2\<lparr>holder := (holder ?s2)(stateMutex a := None), pending := (pending ?s2)(t := [])\<rparr> =
      s\<lparr>pending := (pending s)(t := [])\<rparr>"
    using assms(2) by (simp add: fun_eq_iff)
  ultimately show ?thesis by (metis (no_types, lifting) rtranclp_trans)
qed

theorem lone_round_completes_witness:
  "lock_steps \<lparr>holder = (\<lambda>_. None), pending = (\<lambda>_. [])(7 := round_locks 10 [20, 30])\<rparr>
     \<lparr>holder = (\<lambda>_. None), pending = (\<lambda>_. [])\<rparr>"
  using lone_round_completes [of 10 "[20, 30]"
      "\<lparr>holder = (\<lambda>_. None), pending = (\<lambda>_. [])(7 := round_locks 10 [20, 30])\<rparr>" 7]
  by (simp add: fun_upd_idem)

section \<open>Two rounds at the same time\<close>

definition two_rounds :: "address \<Rightarrow> address list \<Rightarrow> address \<Rightarrow> address list \<Rightarrow> threads" where
  "two_rounds a bs b cs = \<lparr>holder = (\<lambda>_. None), pending = (\<lambda>_. [])(1 := round_locks a bs, 2 := round_locks b cs)\<rparr>"

text \<open>
  C35. Two nodes whose timers fire at about the same time can stop for ever: each thread holds the
  state of its own node, the first one holds the transport and waits for the state of the second,
  the second waits for the transport.
\<close>

theorem crossing_rounds_deadlock:
  assumes "a \<noteq> b"
  shows "\<exists>s. lock_steps (two_rounds a (b # bs) b (a # cs)) s \<and> deadlocked s \<and> pending s 1 \<noteq> [] \<and> pending s 2 \<noteq> []"
proof -
  let ?A = "concat (map call_locks (b # bs)) @ [Unlock (stateMutex a)]"
  let ?B = "concat (map call_locks (a # cs)) @ [Unlock (stateMutex b)]"
  let ?s0 = "two_rounds a (b # bs) b (a # cs)"
  let ?s1 = "?s0\<lparr>holder := (holder ?s0)(stateMutex a \<mapsto> 1), pending := (pending ?s0)(1 := ?A)\<rparr>"
  let ?s2 = "?s1\<lparr>holder := (holder ?s1)(stateMutex b \<mapsto> 2), pending := (pending ?s1)(2 := ?B)\<rparr>"
  let ?s3 = "?s2\<lparr>holder := (holder ?s2)(rpcMutex \<mapsto> 1), pending := (pending ?s2)(1 := tl ?A)\<rparr>"
  have "lock_steps ?s0 ?s1" by (rule lock_alone) (simp_all add: two_rounds_def round_locks_def)
  moreover have "lock_steps ?s1 ?s2"
    using assms by (intro lock_alone) (simp_all add: two_rounds_def round_locks_def)
  moreover have "lock_steps ?s2 ?s3"
    by (rule lock_alone) (simp_all add: two_rounds_def call_locks_def)
  ultimately have "lock_steps ?s0 ?s3" by (meson rtranclp_trans)
  moreover have "\<not> lock_step ?s3 s'" for s'
    using assms by (auto elim!: lock_stepE simp: two_rounds_def call_locks_def split: if_splits)
  moreover have "pending ?s3 1 \<noteq> []" "pending ?s3 2 \<noteq> []"
    by (simp_all add: call_locks_def)
  ultimately show ?thesis unfolding deadlocked_def by blast
qed

theorem crossing_rounds_deadlock_witness:
  "\<exists>s. lock_steps (two_rounds 10 [20, 30] 20 [10, 30]) s \<and> deadlocked s"
  using crossing_rounds_deadlock [of 10 20 "[30]" "[30]"] by auto

end
