(* ===== verification/Grpc_RPC.thy ===== *)
theory Grpc_RPC
  imports Commit_Round
begin

text \<open>
  The transport between processes: the messages of \<open>proto/raft.proto\<close>, the client
  (\<open>src/raft/gRPCRaftClient.cpp\<close>) that turns arguments into messages, the service
  (\<open>src/raft/gRPCRaftService.cpp\<close>) that turns them back and calls the node, and the server around it.
  The gRPC library is a parameter: the record \<open>grpc\<close> of its stub calls and its clock, on a world
  \<open>'w\<close>. \<open>connects\<close> states what the development relies on: a call to an address where a service
  listens returns the response of that service with status OK.
\<close>

section \<open>Messages\<close>

record RequestVoteRequest =
  q_term :: u64
  candidate_id :: u64
  last_log_index :: u64
  last_log_term :: u64

record RequestVoteResponse =
  p_term :: u64
  vote_granted :: bool

record LogEntryMessage =
  l_index :: u64
  l_term :: u64
  l_command_data :: bytes

record AppendEntriesRequest =
  a_term :: u64
  leader_id :: u64
  prev_log_index :: u64
  prev_log_term :: u64
  entries :: "LogEntryMessage list"
  leader_commit :: u64

record AppendEntriesResponse =
  r_term :: u64
  r_success :: bool
  conflict_index :: u64
  conflict_term :: u64

record InstallSnapshotRequest =
  s_term :: u64
  s_leader_id :: u64
  last_included_index :: u64
  last_included_term :: u64
  data :: bytes

record InstallSnapshotResponse =
  i_term :: u64

datatype grpc_status = OK | Failed string

section \<open>Client\<close>

text \<open>The stub calls of the library; a stub is named by the address of its channel.\<close>

record 'w grpc =
  system_now :: "'w \<Rightarrow> int"
  stub_RequestVote :: "string \<Rightarrow> int \<Rightarrow> RequestVoteRequest \<Rightarrow> 'w \<Rightarrow> (grpc_status \<times> RequestVoteResponse) \<times> 'w"
  stub_AppendEntries :: "string \<Rightarrow> int \<Rightarrow> AppendEntriesRequest \<Rightarrow> 'w \<Rightarrow> (grpc_status \<times> AppendEntriesResponse) \<times> 'w"
  stub_InstallSnapshot :: "string \<Rightarrow> int \<Rightarrow> InstallSnapshotRequest \<Rightarrow> 'w \<Rightarrow> (grpc_status \<times> InstallSnapshotResponse) \<times> 'w"

record grpc_client =
  stubs :: "u64 \<rightharpoonup> string"

definition new_client :: grpc_client where
  "new_client = \<lparr>stubs = Map.empty\<rparr>"

definition addPeer :: "u64 \<Rightarrow> string \<Rightarrow> grpc_client \<Rightarrow> grpc_client" where
  "addPeer peerId address c = c\<lparr>stubs := (stubs c)(peerId \<mapsto> address)\<rparr>"

definition getStub :: "u64 \<Rightarrow> grpc_client \<Rightarrow> string option" where
  "getStub peerId c = stubs c peerId"

text \<open>The system clock counts nanoseconds, the timeout milliseconds.\<close>

definition createDeadline :: "int \<Rightarrow> int \<Rightarrow> int" where
  "createDeadline now timeout = now + timeout * 1000000"

definition vote_request :: "request_vote_args \<Rightarrow> RequestVoteRequest" where
  "vote_request args = \<lparr>q_term = rv_term args, candidate_id = rv_candidateId args,
     last_log_index = rv_lastLogIndex args, last_log_term = rv_lastLogTerm args\<rparr>"

definition entry_message :: "log_entry \<Rightarrow> LogEntryMessage" where
  "entry_message e = \<lparr>l_index = e_index e, l_term = e_term e, l_command_data = command_data e\<rparr>"

definition append_request :: "append_entries_args \<Rightarrow> AppendEntriesRequest" where
  "append_request args = \<lparr>a_term = ae_term args, leader_id = ae_leaderId args,
     prev_log_index = ae_prevLogIndex args, prev_log_term = ae_prevLogTerm args,
     entries = map entry_message (ae_entries args), leader_commit = ae_leaderCommit args\<rparr>"

definition snapshot_request :: "install_snapshot_args \<Rightarrow> InstallSnapshotRequest" where
  "snapshot_request args = \<lparr>s_term = is_term args, s_leader_id = is_leaderId args,
     last_included_index = is_lastIncludedIndex args, last_included_term = is_lastIncludedTerm args,
     data = is_data args\<rparr>"

definition vote_reply :: "RequestVoteResponse \<Rightarrow> request_vote_reply" where
  "vote_reply response = \<lparr>rvr_term = p_term response, voteGranted = vote_granted response\<rparr>"

definition append_reply :: "AppendEntriesResponse \<Rightarrow> append_entries_reply" where
  "append_reply response = \<lparr>aer_term = r_term response, aer_success = r_success response,
     conflictIndex = conflict_index response, conflictTerm = conflict_term response\<rparr>"

definition snapshot_reply :: "InstallSnapshotResponse \<Rightarrow> install_snapshot_reply" where
  "snapshot_reply response = \<lparr>isr_term = i_term response\<rparr>"

definition grpc_sendRequestVote ::
  "'w grpc \<Rightarrow> grpc_client \<Rightarrow> u64 \<Rightarrow> request_vote_args \<Rightarrow> int \<Rightarrow> 'w \<Rightarrow> (exn + request_vote_reply) \<times> 'w"
where
  "grpc_sendRequestVote lib c peerId args timeout w =
     (case getStub peerId c of
        None \<Rightarrow> (Inr \<lparr>rvr_term = rv_term args, voteGranted = False\<rparr>, w)
      | Some stub \<Rightarrow>
          (case stub_RequestVote lib stub (createDeadline (system_now lib w) timeout) (vote_request args) w of
             ((OK, response), w) \<Rightarrow> (Inr (vote_reply response), w)
           | ((Failed e, response), w) \<Rightarrow> (Inr \<lparr>rvr_term = rv_term args, voteGranted = False\<rparr>, w)))"

definition grpc_sendAppendEntries ::
  "'w grpc \<Rightarrow> grpc_client \<Rightarrow> u64 \<Rightarrow> append_entries_args \<Rightarrow> int \<Rightarrow> 'w \<Rightarrow> (exn + append_entries_reply) \<times> 'w"
where
  "grpc_sendAppendEntries lib c peerId args timeout w =
     (case getStub peerId c of
        None \<Rightarrow> (Inr \<lparr>aer_term = ae_term args, aer_success = False, conflictIndex = 0, conflictTerm = 0\<rparr>, w)
      | Some stub \<Rightarrow>
          (case stub_AppendEntries lib stub (createDeadline (system_now lib w) timeout) (append_request args) w of
             ((OK, response), w) \<Rightarrow> (Inr (append_reply response), w)
           | ((Failed e, response), w) \<Rightarrow>
               (Inr \<lparr>aer_term = ae_term args, aer_success = False, conflictIndex = 0, conflictTerm = 0\<rparr>, w)))"

definition grpc_sendInstallSnapshot ::
  "'w grpc \<Rightarrow> grpc_client \<Rightarrow> u64 \<Rightarrow> install_snapshot_args \<Rightarrow> int \<Rightarrow> 'w \<Rightarrow> (exn + install_snapshot_reply) \<times> 'w"
where
  "grpc_sendInstallSnapshot lib c peerId args timeout w =
     (case getStub peerId c of
        None \<Rightarrow> (Inr \<lparr>isr_term = is_term args\<rparr>, w)
      | Some stub \<Rightarrow>
          (case stub_InstallSnapshot lib stub (createDeadline (system_now lib w) timeout) (snapshot_request args) w of
             ((OK, response), w) \<Rightarrow> (Inr (snapshot_reply response), w)
           | ((Failed e, response), w) \<Rightarrow> (Inr \<lparr>isr_term = is_term args\<rparr>, w)))"

definition GrpcRaftClient :: "'w grpc \<Rightarrow> grpc_client \<Rightarrow> 'w raft_rpc" where
  "GrpcRaftClient lib c = \<lparr>sendRequestVote = grpc_sendRequestVote lib c,
     sendAppendEntries = grpc_sendAppendEntries lib c, sendInstallSnapshot = grpc_sendInstallSnapshot lib c\<rparr>"

lemma GrpcRaftClient_simps [simp]:
  "sendRequestVote (GrpcRaftClient lib c) = grpc_sendRequestVote lib c"
  "sendAppendEntries (GrpcRaftClient lib c) = grpc_sendAppendEntries lib c"
  "sendInstallSnapshot (GrpcRaftClient lib c) = grpc_sendInstallSnapshot lib c"
  by (simp_all add: GrpcRaftClient_def)

section \<open>Service\<close>

definition vote_args :: "RequestVoteRequest \<Rightarrow> request_vote_args" where
  "vote_args request = \<lparr>rv_term = q_term request, rv_candidateId = candidate_id request,
     rv_lastLogIndex = last_log_index request, rv_lastLogTerm = last_log_term request\<rparr>"

definition message_entry :: "LogEntryMessage \<Rightarrow> log_entry" where
  "message_entry m = \<lparr>e_index = l_index m, e_term = l_term m, command_data = l_command_data m\<rparr>"

definition append_args :: "AppendEntriesRequest \<Rightarrow> append_entries_args" where
  "append_args request = \<lparr>ae_term = a_term request, ae_leaderId = leader_id request,
     ae_prevLogIndex = prev_log_index request, ae_prevLogTerm = prev_log_term request,
     ae_entries = map message_entry (entries request), ae_leaderCommit = leader_commit request\<rparr>"

definition snapshot_args :: "InstallSnapshotRequest \<Rightarrow> install_snapshot_args" where
  "snapshot_args request = \<lparr>is_term = s_term request, is_leaderId = s_leader_id request,
     is_lastIncludedIndex = last_included_index request, is_lastIncludedTerm = last_included_term request,
     is_data = data request\<rparr>"

text \<open>Each method of the service fills the response and returns OK, unless the handler throws.\<close>

definition service_RequestVote ::
  "int \<Rightarrow> RequestVoteRequest \<Rightarrow> raft_node \<Rightarrow> (exn + grpc_status \<times> RequestVoteResponse) \<times> raft_node"
where
  "service_RequestVote now request n =
     andThen (handleRequestVote now (vote_args request) n) (\<lambda>reply n.
       (Inr (OK, \<lparr>p_term = rvr_term reply, vote_granted = voteGranted reply\<rparr>), n))"

definition service_AppendEntries ::
  "int \<Rightarrow> AppendEntriesRequest \<Rightarrow> raft_node \<Rightarrow> (exn + grpc_status \<times> AppendEntriesResponse) \<times> raft_node"
where
  "service_AppendEntries now request n =
     andThen (handleAppendEntries now (append_args request) n) (\<lambda>reply n.
       (Inr (OK, \<lparr>r_term = aer_term reply, r_success = aer_success reply,
                  conflict_index = conflictIndex reply, conflict_term = conflictTerm reply\<rparr>), n))"

definition service_InstallSnapshot ::
  "int \<Rightarrow> InstallSnapshotRequest \<Rightarrow> raft_node \<Rightarrow> (exn + grpc_status \<times> InstallSnapshotResponse) \<times> raft_node"
where
  "service_InstallSnapshot now request n =
     andThen (handleInstallSnapshot now (snapshot_args request) n) (\<lambda>reply n.
       (Inr (OK, \<lparr>i_term = isr_term reply\<rparr>), n))"

section \<open>Server\<close>

text \<open>
  \<open>GrpcRaftServer\<close> starts to listen in its constructor; the library may refuse the address
  (\<open>BuildAndStart\<close> then returns no server). The service keeps the address of the node object.
\<close>

datatype listener = Listening string | Shut_down

record grpc_server =
  grpc_service :: nat
  grpc_listener :: "listener option"

definition GrpcRaftServer :: "(string \<Rightarrow> bool) \<Rightarrow> nat \<Rightarrow> string \<Rightarrow> grpc_server" where
  "GrpcRaftServer can_listen service address = \<lparr>grpc_service = service,
     grpc_listener = (if can_listen address then Some (Listening address) else None)\<rparr>"

definition server_start :: "grpc_server \<Rightarrow> grpc_server" where
  "server_start s = s"

definition server_stop :: "grpc_server \<Rightarrow> grpc_server" where
  "server_stop s = (case grpc_listener s of None \<Rightarrow> s | Some l \<Rightarrow> s\<lparr>grpc_listener := Some Shut_down\<rparr>)"

lemmas [run_simps] =
  new_client_def addPeer_def getStub_def createDeadline_def vote_request_def entry_message_def append_request_def
  snapshot_request_def vote_reply_def append_reply_def snapshot_reply_def grpc_sendRequestVote_def
  grpc_sendAppendEntries_def grpc_sendInstallSnapshot_def vote_args_def message_entry_def append_args_def
  snapshot_args_def service_RequestVote_def service_AppendEntries_def service_InstallSnapshot_def
  GrpcRaftServer_def server_start_def server_stop_def

section \<open>Nothing is lost on the wire\<close>

lemma entry_round_trip [simp]: "message_entry (entry_message e) = e"
  by (simp add: message_entry_def entry_message_def)

lemma message_round_trips [simp]:
  "vote_args (vote_request vargs) = vargs" "append_args (append_request aargs) = aargs"
  "snapshot_args (snapshot_request sargs) = sargs"
  by (simp_all add: vote_args_def vote_request_def append_args_def append_request_def snapshot_args_def
      snapshot_request_def o_def)

text \<open>What the client makes of the outcome of a call, and of a call that the service answers itself.\<close>

definition decoded :: "('p \<Rightarrow> 'r) \<Rightarrow> (exn + grpc_status \<times> 'p) \<times> raft_node \<Rightarrow> (exn + 'r) \<times> raft_node" where
  "decoded f = map_prod (map_sum id (f \<circ> snd)) id"

lemma decoded_simps [simp]:
  "decoded f (Inl e, n) = (Inl e, n)" "decoded f (Inr (s, p), n) = (Inr (f p), n)"
  by (simp_all add: decoded_def)

lemma decoded_andThen:
  assumes "\<And>reply. f (g reply) = reply"
  shows "decoded f (andThen h (\<lambda>reply n. (Inr (OK, g reply), n))) = h"
  using assms by (cases h) (auto simp: andThen_def split: sum.split)

lemma service_handlers:
  "decoded vote_reply (service_RequestVote now (vote_request vargs) n) = handleRequestVote now vargs n"
  "decoded append_reply (service_AppendEntries now (append_request aargs) n) = handleAppendEntries now aargs n"
  "decoded snapshot_reply (service_InstallSnapshot now (snapshot_request sargs) n) = handleInstallSnapshot now sargs n"
  unfolding service_RequestVote_def service_AppendEntries_def service_InstallSnapshot_def message_round_trips
  by (rule decoded_andThen, simp add: vote_reply_def append_reply_def snapshot_reply_def)+

text \<open>
  C18. A remote call computes what a local call computes: when the service is given the message that
  the client makes of some arguments, and the client decodes its response, the result is that of
  the handler on the same node, for all three calls, exceptions included.
\<close>

theorem remote_call_is_local_call:
  "decoded vote_reply (service_RequestVote now (vote_request vargs) n) = handleRequestVote now vargs n \<and>
   decoded append_reply (service_AppendEntries now (append_request aargs) n) = handleAppendEntries now aargs n \<and>
   decoded snapshot_reply (service_InstallSnapshot now (snapshot_request sargs) n) = handleInstallSnapshot now sargs n"
  by (intro conjI service_handlers)

section \<open>The contract\<close>

text \<open>The nodes that are served at addresses, and the ones that a client reaches through its stubs.\<close>

definition grpc_peer :: "('w \<Rightarrow> string \<Rightarrow> raft_node option) \<Rightarrow> grpc_client \<Rightarrow> 'w \<Rightarrow> u64 \<Rightarrow> raft_node option" where
  "grpc_peer served c w p = (case stubs c p of None \<Rightarrow> None | Some address \<Rightarrow> served w address)"

definition stub_delivers ::
  "('w \<Rightarrow> string \<Rightarrow> raft_node option) \<Rightarrow> string \<Rightarrow>
   (int \<Rightarrow> raft_node \<Rightarrow> (exn + grpc_status \<times> 'p) \<times> raft_node) \<Rightarrow> ('w \<Rightarrow> (grpc_status \<times> 'p) \<times> 'w) \<Rightarrow> 'w \<Rightarrow> bool"
where
  "stub_delivers served address service call w = delivers served address service (\<lambda>w. map_prod Inr id (call w)) w"

definition connects :: "'w grpc \<Rightarrow> ('w \<Rightarrow> string \<Rightarrow> raft_node option) \<Rightarrow> bool" where
  "connects lib served \<longleftrightarrow> (\<forall>address deadline w.
     (\<forall>request. stub_delivers served address (\<lambda>now. service_RequestVote now request)
        (stub_RequestVote lib address deadline request) w) \<and>
     (\<forall>request. stub_delivers served address (\<lambda>now. service_AppendEntries now request)
        (stub_AppendEntries lib address deadline request) w) \<and>
     (\<forall>request. stub_delivers served address (\<lambda>now. service_InstallSnapshot now request)
        (stub_InstallSnapshot lib address deadline request) w))"

lemma arrived_grpc:
  assumes "arrived served address m w w'" and "stubs c p = Some address"
  shows "arrived (grpc_peer served c) p m w w'"
  using assms by (auto simp: arrived_def grpc_peer_def split: option.split)

text \<open>A service method always answers OK when it answers, so the client sees the handler's reply.\<close>

lemma delivers_decoded:
  assumes "stub_delivers served address service call w" and "stubs c p = Some address"
    and "\<And>now n. decoded f (service now n) = handler now n"
    and "\<And>now n st q n'. service now n = (Inr (st, q), n') \<Longrightarrow> st = OK"
    and "\<And>q w'. call w = ((OK, q), w') \<Longrightarrow> send w = (Inr (f q), w')"
  shows "delivers (grpc_peer served c) p handler send w"
  unfolding delivers_def
proof (intro allI impI)
  fix m assume "grpc_peer served c w p = Some m"
  then have "served w address = Some m" using assms(2) by (simp add: grpc_peer_def)
  with assms(1) obtain now where now: "service now m = (Inr r, m') \<Longrightarrow>
    \<exists>w'. map_prod Inr id (call w) = ((Inr r :: exn + _), w') \<and> arrived served address m' w w'" for r m'
    unfolding stub_delivers_def delivers_def by metis
  show "\<exists>now. \<forall>reply m'. handler now m = (Inr reply, m') \<longrightarrow>
    (\<exists>w'. send w = (Inr reply, w') \<and> arrived (grpc_peer served c) p m' w w')"
  proof (intro exI [of _ now] allI impI)
    fix reply m' assume h: "handler now m = (Inr reply, m')"
    obtain r k where rk: "service now m = (r, k)" by fastforce
    with h assms(3) [of now m] obtain st q where "r = Inr (st, q)" "f q = reply" "k = m'"
      by (cases r) auto
    with rk assms(4) have q: "service now m = (Inr (OK, q), m')" "f q = reply" by auto
    from now [OF q(1)] obtain w' where w': "call w = ((OK, q), w')" "arrived served address m' w w'"
      by (cases "call w") auto
    from assms(5) [OF w'(1)] q(2) arrived_grpc [OF w'(2) assms(2)]
    show "\<exists>w'. send w = (Inr reply, w') \<and> arrived (grpc_peer served c) p m' w w'" by auto
  qed
qed

lemma service_status:
  "service_RequestVote now vreq n = (Inr (st, vq), n') \<Longrightarrow> st = OK"
  "service_AppendEntries now areq n = (Inr (st, aq), n') \<Longrightarrow> st = OK"
  "service_InstallSnapshot now sreq n = (Inr (st, sq), n') \<Longrightarrow> st = OK"
  by (auto simp: service_RequestVote_def service_AppendEntries_def service_InstallSnapshot_def andThen_Inr_iff)

lemma grpc_delivering:
  assumes "connects lib served"
  shows "delivering (GrpcRaftClient lib c) (grpc_peer served c)"
proof
  fix p t w
  show "delivers (grpc_peer served c) p (\<lambda>now. handleRequestVote now args)
      (sendRequestVote (GrpcRaftClient lib c) p args t) w" for args
  proof (cases "stubs c p")
    case None
    then show ?thesis by (simp add: delivers_unreachable grpc_peer_def)
  next
    case (Some address)
    have "stub_delivers served address (\<lambda>now. service_RequestVote now (vote_request args))
        (stub_RequestVote lib address (createDeadline (system_now lib w) t) (vote_request args)) w"
      using assms by (simp add: connects_def)
    then show ?thesis using Some
      by (rule delivers_decoded [where f = vote_reply])
        (use Some in \<open>simp_all add: service_handlers service_status(1) grpc_sendRequestVote_def getStub_def\<close>)
  qed
  show "delivers (grpc_peer served c) p (\<lambda>now. handleAppendEntries now args)
      (sendAppendEntries (GrpcRaftClient lib c) p args t) w" for args
  proof (cases "stubs c p")
    case None
    then show ?thesis by (simp add: delivers_unreachable grpc_peer_def)
  next
    case (Some address)
    have "stub_delivers served address (\<lambda>now. service_AppendEntries now (append_request args))
        (stub_AppendEntries lib address (createDeadline (system_now lib w) t) (append_request args)) w"
      using assms by (simp add: connects_def)
    then show ?thesis using Some
      by (rule delivers_decoded [where f = append_reply])
        (use Some in \<open>simp_all add: service_handlers service_status(2) grpc_sendAppendEntries_def getStub_def\<close>)
  qed
  show "delivers (grpc_peer served c) p (\<lambda>now. handleInstallSnapshot now args)
      (sendInstallSnapshot (GrpcRaftClient lib c) p args t) w" for args
  proof (cases "stubs c p")
    case None
    then show ?thesis by (simp add: delivers_unreachable grpc_peer_def)
  next
    case (Some address)
    have "stub_delivers served address (\<lambda>now. service_InstallSnapshot now (snapshot_request args))
        (stub_InstallSnapshot lib address (createDeadline (system_now lib w) t) (snapshot_request args)) w"
      using assms by (simp add: connects_def)
    then show ?thesis using Some
      by (rule delivers_decoded [where f = snapshot_reply])
        (use Some in \<open>simp_all add: service_handlers service_status(3) grpc_sendInstallSnapshot_def getStub_def\<close>)
  qed
qed

section \<open>Calls that fail\<close>

text \<open>No stub for the peer, or a status other than OK from every call to its address.\<close>

definition unreachable :: "'w grpc \<Rightarrow> grpc_client \<Rightarrow> u64 \<Rightarrow> bool" where
  "unreachable lib c p \<longleftrightarrow> (\<forall>address deadline w. stubs c p = Some address \<longrightarrow>
     (\<forall>request. fst (fst (stub_RequestVote lib address deadline request w)) \<noteq> OK) \<and>
     (\<forall>request. fst (fst (stub_AppendEntries lib address deadline request w)) \<noteq> OK) \<and>
     (\<forall>request. fst (fst (stub_InstallSnapshot lib address deadline request w)) \<noteq> OK))"

lemma unreachable_calls:
  assumes "unreachable lib c p"
  shows "\<exists>w'. grpc_sendRequestVote lib c p vargs t w = (Inr \<lparr>rvr_term = rv_term vargs, voteGranted = False\<rparr>, w')"
    and "\<exists>w'. grpc_sendAppendEntries lib c p aargs t w =
      (Inr \<lparr>aer_term = ae_term aargs, aer_success = False, conflictIndex = 0, conflictTerm = 0\<rparr>, w')"
    and "\<exists>w'. grpc_sendInstallSnapshot lib c p sargs t w = (Inr \<lparr>isr_term = is_term sargs\<rparr>, w')"
proof -
  show "\<exists>w'. grpc_sendRequestVote lib c p vargs t w = (Inr \<lparr>rvr_term = rv_term vargs, voteGranted = False\<rparr>, w')"
  proof (cases "stubs c p")
    case (Some a)
    let ?call = "stub_RequestVote lib a (createDeadline (system_now lib w) t) (vote_request vargs) w"
    have "fst (fst ?call) \<noteq> OK" using assms Some unfolding unreachable_def by blast
    then obtain e r w' where "?call = ((Failed e, r), w')"
      by (cases ?call) (auto intro: grpc_status.exhaust)
    then show ?thesis using Some by (simp add: grpc_sendRequestVote_def getStub_def)
  qed (simp add: grpc_sendRequestVote_def getStub_def)
  show "\<exists>w'. grpc_sendAppendEntries lib c p aargs t w =
      (Inr \<lparr>aer_term = ae_term aargs, aer_success = False, conflictIndex = 0, conflictTerm = 0\<rparr>, w')"
  proof (cases "stubs c p")
    case (Some a)
    let ?call = "stub_AppendEntries lib a (createDeadline (system_now lib w) t) (append_request aargs) w"
    have "fst (fst ?call) \<noteq> OK" using assms Some unfolding unreachable_def by blast
    then obtain e r w' where "?call = ((Failed e, r), w')"
      by (cases ?call) (auto intro: grpc_status.exhaust)
    then show ?thesis using Some by (simp add: grpc_sendAppendEntries_def getStub_def)
  qed (simp add: grpc_sendAppendEntries_def getStub_def)
  show "\<exists>w'. grpc_sendInstallSnapshot lib c p sargs t w = (Inr \<lparr>isr_term = is_term sargs\<rparr>, w')"
  proof (cases "stubs c p")
    case (Some a)
    let ?call = "stub_InstallSnapshot lib a (createDeadline (system_now lib w) t) (snapshot_request sargs) w"
    have "fst (fst ?call) \<noteq> OK" using assms Some unfolding unreachable_def by blast
    then obtain e r w' where "?call = ((Failed e, r), w')"
      by (cases ?call) (auto intro: grpc_status.exhaust)
    then show ?thesis using Some by (simp add: grpc_sendInstallSnapshot_def getStub_def)
  qed (simp add: grpc_sendInstallSnapshot_def getStub_def)
qed

lemma prepare_terms:
  "prepare_replication i n = Inr (Send_append args) \<Longrightarrow> ae_term args = currentTerm n"
  "prepare_replication i n = Inr (Send_snapshot sargs) \<Longrightarrow> is_term sargs = currentTerm n"
  by (auto simp: prepare_replication_def Let_def bindE_def split: if_splits sum.splits)

lemma lost_append:
  assumes "unreachable lib c p" and "peerIdToIndexMap n p = Some i" and "prepare_replication i n = Inr (Send_append args)"
  shows "\<exists>w'. replicateToFollower (GrpcRaftClient lib c) p (n, w) = (Inr (), (n\<lparr>nextIndex := (nextIndex n)[i := 1]\<rparr>, w'))"
proof -
  from unreachable_calls(2) [OF assms(1)] obtain w' where
    "grpc_sendAppendEntries lib c p args 100 w =
      (Inr \<lparr>aer_term = ae_term args, aer_success = False, conflictIndex = 0, conflictTerm = 0\<rparr>, w')" by metis
  moreover have "max 1 (0 :: u64) = 1" by (simp add: max_def)
  then have "on_append_reply i args \<lparr>aer_term = ae_term args, aer_success = False, conflictIndex = 0, conflictTerm = 0\<rparr> n =
      (Inr (), n\<lparr>nextIndex := (nextIndex n)[i := 1]\<rparr>)"
    by (simp only: on_append_reply_def append_entries_reply.simps prepare_terms(1) [OF assms(3)] less_irrefl if_False)
  ultimately show ?thesis
    using assms(2,3) by (simp add: replicateToFollower_def lift_world_def lift_node_def)
qed

lemma lost_snapshot:
  assumes "unreachable lib c p" and "peerIdToIndexMap n p = Some i" and "prepare_replication i n = Inr (Send_snapshot args)"
  shows "\<exists>w'. replicateToFollower (GrpcRaftClient lib c) p (n, w) =
    (Inr (), (n\<lparr>nextIndex := (nextIndex n)[i := snapshotIndex n + 1], matchIndex := (matchIndex n)[i := snapshotIndex n]\<rparr>, w'))"
proof -
  from unreachable_calls(3) [OF assms(1)] obtain w' where
    "grpc_sendInstallSnapshot lib c p args 1000 w = (Inr \<lparr>isr_term = is_term args\<rparr>, w')" by metis
  moreover have "on_snapshot_reply i \<lparr>isr_term = is_term args\<rparr> n = (Inr (),
      n\<lparr>nextIndex := (nextIndex n)[i := snapshotIndex n + 1], matchIndex := (matchIndex n)[i := snapshotIndex n]\<rparr>)"
    by (simp only: on_snapshot_reply_def install_snapshot_reply.simps prepare_terms(2) [OF assms(3)] less_irrefl if_False)
  ultimately show ?thesis
    using assms(2,3) by (simp add: replicateToFollower_def lift_world_def lift_node_def)
qed

text \<open>
  C36. A follower that cannot be reached is taken for one that has the snapshot: the first lost
  \<open>AppendEntries\<close> sends the leader back to index 1, on a compacted log the next call is therefore an
  \<open>InstallSnapshot\<close>, and its failure reply carries the leader's own term, which the leader takes for
  success.
\<close>

theorem unreachable_follower_acknowledges:
  assumes "unreachable lib c p" and "peerIdToIndexMap n p = Some i" and "i < length (nextIndex n)"
    and "prepare_replication i n = Inr (Send_append args)" and "0 < getSnapshotIndex (log n)"
  shows "\<exists>w'. replication_rounds (GrpcRaftClient lib c) p 2 (n, w) =
    (Inr (), (n\<lparr>nextIndex := (nextIndex n)[i := snapshotIndex n + 1], matchIndex := (matchIndex n)[i := snapshotIndex n]\<rparr>, w'))"
proof -
  let ?n = "n\<lparr>nextIndex := (nextIndex n)[i := 1]\<rparr>"
  from lost_append [OF assms(1,2,4)] obtain w1 where
    first: "replicateToFollower (GrpcRaftClient lib c) p (n, w) = (Inr (), (?n, w1))" by metis
  have "1 \<le> getSnapshotIndex (log n)"
    using assms(5) by (simp add: word_le_nat_alt word_less_nat_alt)
  then obtain a where "prepare_replication i ?n = Inr (Send_snapshot a)"
    using assms(3) by (simp add: prepare_replication_def Let_def)
  from lost_snapshot [OF assms(1) _ this, of w1] assms(2) obtain w2 where
    "replicateToFollower (GrpcRaftClient lib c) p (?n, w1) =
      (Inr (), (?n\<lparr>nextIndex := (nextIndex ?n)[i := snapshotIndex ?n + 1], matchIndex := (matchIndex ?n)[i := snapshotIndex ?n]\<rparr>, w2))"
    by auto
  with first show ?thesis by (simp add: numeral_2_eq_2)
qed

definition dead_network :: "unit grpc" where
  "dead_network = \<lparr>system_now = (\<lambda>_. 0),
     stub_RequestVote = (\<lambda>a d q w. ((Failed ''unavailable'', \<lparr>p_term = 0, vote_granted = False\<rparr>), w)),
     stub_AppendEntries = (\<lambda>a d q w. ((Failed ''unavailable'',
       \<lparr>r_term = 0, r_success = False, conflict_index = 0, conflict_term = 0\<rparr>), w)),
     stub_InstallSnapshot = (\<lambda>a d q w. ((Failed ''unavailable'', \<lparr>i_term = 0\<rparr>), w))\<rparr>"

theorem unreachable_follower_acknowledges_witness:
  "\<exists>n' w'. replication_rounds (GrpcRaftClient dead_network (addPeer 2 ''b:1'' new_client)) 2 2
      (wired_leader\<lparr>log := discardEntriesUpTo 2 1 sample_log, snapshotIndex := 2\<rparr>, ()) = (Inr (), (n', w')) \<and>
    matchIndex n' = [2, 1]"
proof -
  let ?n = "wired_leader\<lparr>log := discardEntriesUpTo 2 1 sample_log, snapshotIndex := 2\<rparr>"
  have u: "unreachable dead_network (addPeer 2 ''b:1'' new_client) 2"
    by (simp add: unreachable_def dead_network_def)
  have "collect_entries (log ?n) 4 = Inr (drop (unat (4 :: u64) - unat (2 :: u64)) (Entries (log ?n)))"
    using collect_entries_drop [of "log ?n" 4] by (simp add: sample_compacted)
  then obtain a where a: "prepare_replication 0 ?n = Inr (Send_append a)"
    by (simp add: prepare_replication_def Let_def getSnapshotIndex_def sample_compacted)
  have "\<exists>w'. replication_rounds (GrpcRaftClient dead_network (addPeer 2 ''b:1'' new_client)) 2 2 (?n, ()) =
    (Inr (), (?n\<lparr>nextIndex := (nextIndex ?n)[0 := snapshotIndex ?n + 1],
       matchIndex := (matchIndex ?n)[0 := snapshotIndex ?n]\<rparr>, w'))"
    by (rule unreachable_follower_acknowledges [OF u _ _ a]) (simp_all add: getSnapshotIndex_def sample_compacted)
  then show ?thesis by auto
qed

section \<open>A request over the network\<close>

text \<open>
  A client request goes the whole way: on a leader that has committed its whole log and whose
  followers, reached over a working network, have the same log, a new request is accepted, and the
  next heartbeat round replicates it to every follower, commits it and executes it exactly once on
  the service, for any number of peers.
\<close>

theorem request_is_committed:
  assumes "connects lib served"
    and "disk_ok n" and "leading n n" and "peerIds n \<noteq> []" and "commitIndex n = getLastIndex (log n)"
    and "\<not> already_applied request n" and "command_ok (req_command request)"
    and "Suc (last_nat (log n)) < 18446744073709551615"
    and "\<forall>k < length (peerIds n). nextIndex n ! k = getLastIndex (log n) + 1 \<and>
      (\<exists>m. grpc_peer served c w (peerIds n ! k) = Some m \<and> in_sync n m)"
  shows "\<exists>reply n1 n' w'. handleClientRequest request n = (Inr reply, n1) \<and> cr_success reply \<and>
    sendHeartbeats (GrpcRaftClient lib c) (n1, w) = (Inr (), (n', w')) \<and> role n' = LEADER \<and>
    commitIndex n' = getLastIndex (log n) + 1 \<and> lastApplied n' = commitIndex n' \<and>
    service_of n' = exec_once (req_command request) (service_of n) \<and>
    (\<forall>k < length (peerIds n). \<exists>m. grpc_peer served c w' (peerIds n ! k) = Some m \<and> caught_up n1 m)"
  by (rule delivering.request_commits [OF grpc_delivering [OF assms(1)] assms(2-)])

text \<open>A network without delay: a call to an address runs the service of the node there.\<close>

definition served_call ::
  "(raft_node \<Rightarrow> (exn + grpc_status \<times> 'p) \<times> raft_node) \<Rightarrow> 'p \<Rightarrow> string \<Rightarrow> (string \<rightharpoonup> raft_node) \<Rightarrow>
   (grpc_status \<times> 'p) \<times> (string \<rightharpoonup> raft_node)"
where
  "served_call service blank address w =
     (case w address of
        None \<Rightarrow> ((Failed ''unavailable'', blank), w)
      | Some n \<Rightarrow>
          (case service n of
             (Inl e, n') \<Rightarrow> ((Failed ''unknown'', blank), w(address \<mapsto> n'))
           | (Inr r, n') \<Rightarrow> (r, w(address \<mapsto> n'))))"

definition direct_network :: "(string \<rightharpoonup> raft_node) grpc" where
  "direct_network = \<lparr>system_now = (\<lambda>_. 0),
     stub_RequestVote = (\<lambda>a d q. served_call (service_RequestVote 0 q) \<lparr>p_term = 0, vote_granted = False\<rparr> a),
     stub_AppendEntries = (\<lambda>a d q. served_call (service_AppendEntries 0 q)
       \<lparr>r_term = 0, r_success = False, conflict_index = 0, conflict_term = 0\<rparr> a),
     stub_InstallSnapshot = (\<lambda>a d q. served_call (service_InstallSnapshot 0 q) \<lparr>i_term = 0\<rparr> a)\<rparr>"

lemma served_call_delivers: "stub_delivers (\<lambda>w. w) a service (served_call (service 0) blank a) w"
  unfolding stub_delivers_def delivers_def
proof (intro allI impI exI [of _ 0])
  fix m r m' assume "w a = Some m" and "service 0 m = (Inr r, m')"
  then have "map_prod Inr id (served_call (service 0) blank a w) = (Inr r :: exn + _, w(a \<mapsto> m'))"
    by (simp add: served_call_def)
  moreover have "arrived (\<lambda>w. w) a m' w (w(a \<mapsto> m'))" by (simp add: arrived_def)
  ultimately show "\<exists>w'. map_prod Inr id (served_call (service 0) blank a w) = (Inr r :: exn + _, w') \<and>
      arrived (\<lambda>w. w) a m' w w'"
    by blast
qed

lemma direct_network_connects: "connects direct_network (\<lambda>w. w)"
  unfolding connects_def direct_network_def grpc.simps
  by (intro allI conjI) (rule served_call_delivers)+

definition empty_leader :: raft_node where
  "empty_leader = wired_leader\<lparr>log := new_log, nextIndex := [1, 1], matchIndex := [0, 0]\<rparr>"

lemma wired_leader_ready: "disk_ok wired_leader" "lastAppliedSeq wired_leader = Map.empty"
  by (simp_all add: wired_leader_def disk_ok_def) (simp add: sample_leader_def)

definition empty_cluster :: "string \<rightharpoonup> raft_node" where
  "empty_cluster = [''b:1'' \<mapsto> sample_node\<lparr>log := new_log, nodeId := 2\<rparr>,
     ''c:1'' \<mapsto> sample_node\<lparr>log := new_log, nodeId := 3\<rparr>]"

theorem request_is_committed_witness:
  "\<exists>reply n1 n' w'. handleClientRequest sample_request empty_leader = (Inr reply, n1) \<and>
    sendHeartbeats (GrpcRaftClient direct_network (addPeer 3 ''c:1'' (addPeer 2 ''b:1'' new_client)))
      (n1, empty_cluster) = (Inr (), (n', w')) \<and> commitIndex n' = 1 \<and> snd (service_of n') ''k'' = Some ''v''"
proof -
  let ?c = "addPeer 3 ''c:1'' (addPeer 2 ''b:1'' new_client)"
  have last: "getLastIndex new_log = 0" "last_nat new_log = 0" "uncompacted new_log"
    by (simp_all add: new_log_def getLastIndex_def dummy_entry_def last_nat_def uncompacted_def)
  have lead: "leading empty_leader empty_leader"
    using service_at_here [of empty_leader] last
    by (simp add: leading_def empty_leader_def applicable_def less_Suc_eq numeral_2_eq_2 nth_Cons')
  have sync: "in_sync empty_leader (sample_node\<lparr>log := new_log, nodeId := i\<rparr>)" for i
    using last by (simp add: in_sync_def whole_follower_def caught_up_def empty_leader_def
        restrict_map_def log_map_def fun_eq_iff neq0_conv [symmetric] del: neq0_conv)
  have "\<exists>reply n1 n' w'. handleClientRequest sample_request empty_leader = (Inr reply, n1) \<and> cr_success reply \<and>
    sendHeartbeats (GrpcRaftClient direct_network ?c) (n1, empty_cluster) = (Inr (), (n', w')) \<and> role n' = LEADER \<and>
    commitIndex n' = getLastIndex (log empty_leader) + 1 \<and> lastApplied n' = commitIndex n' \<and>
    service_of n' = exec_once (req_command sample_request) (service_of empty_leader) \<and>
    (\<forall>k < length (peerIds empty_leader). \<exists>m. grpc_peer (\<lambda>w. w) ?c w' (peerIds empty_leader ! k) = Some m \<and> caught_up n1 m)"
  proof (rule request_is_committed [OF direct_network_connects _ lead])
    show "\<forall>k < length (peerIds empty_leader). nextIndex empty_leader ! k = getLastIndex (log empty_leader) + 1 \<and>
      (\<exists>m. grpc_peer (\<lambda>w. w) ?c empty_cluster (peerIds empty_leader ! k) = Some m \<and> in_sync empty_leader m)"
      using sync last by (auto simp: less_Suc_eq empty_leader_def grpc_peer_def addPeer_def new_client_def empty_cluster_def)
  qed (simp_all add: last wired_leader_ready empty_leader_def sample_request_def already_applied_def string_ok_def)
  then obtain reply n1 n' w' where run: "handleClientRequest sample_request empty_leader = (Inr reply, n1)"
    "sendHeartbeats (GrpcRaftClient direct_network ?c) (n1, empty_cluster) = (Inr (), (n', w'))"
    "commitIndex n' = getLastIndex (log empty_leader) + 1"
    "service_of n' = exec_once (req_command sample_request) (service_of empty_leader)"
    by blast
  have "snd (exec_once (req_command sample_request) (service_of empty_leader)) ''k'' = Some ''v''"
    by (simp add: exec_once_def service_of_def empty_leader_def wired_leader_ready sample_request_def upd_put_def)
  moreover have "getLastIndex (log empty_leader) + 1 = 1" by (simp add: empty_leader_def last)
  ultimately show ?thesis using run by (intro exI [of _ reply] exI [of _ n1] exI [of _ n'] exI [of _ w']) simp
qed

end
