(* ===== verification/Raft_Programs.thy ===== *)
theory Raft_Programs
  imports Grpc_RPC
begin

text \<open>
  The two executables: the server (\<open>src/raft_main.cpp\<close>), which turns its command line into a node,
  a client with stubs for the peers and a listening server, and the command line client
  (\<open>src/raft_client.cpp\<close>), which builds one command. \<open>argv\<close> is the argument vector with the name of
  the program. What is printed is left out, but for the status line.
\<close>

section \<open>Numbers on the command line\<close>

text \<open>\<open>std::stoull\<close> in base 10: blanks, a sign, digits; what follows is ignored, a minus sign wraps.\<close>

definition is_blank :: "char \<Rightarrow> bool" where
  "is_blank c \<longleftrightarrow> of_char c \<in> {32 :: nat, 9, 10, 11, 12, 13}"

definition is_digit :: "char \<Rightarrow> bool" where
  "is_digit c \<longleftrightarrow> 48 \<le> (of_char c :: nat) \<and> (of_char c :: nat) \<le> 57"

definition digits_value :: "string \<Rightarrow> nat" where
  "digits_value ds = fold (\<lambda>c v. 10 * v + (of_char c - 48)) ds 0"

definition stoull :: "string \<Rightarrow> exn + u64" where
  "stoull s =
     (let s = dropWhile is_blank s;
          (negative, s) = (case s of [] \<Rightarrow> (False, s)
            | c # cs \<Rightarrow> if c = CHR ''-'' then (True, cs) else if c = CHR ''+'' then (False, cs) else (False, s));
          ds = takeWhile is_digit s
      in if ds = [] then Inl (Invalid_argument ''stoull'')
         else if digits_value ds \<ge> 2 ^ 64 then Inl (Out_of_range ''stoull'')
         else Inr (if negative then - of_nat (digits_value ds) else of_nat (digits_value ds)))"

section \<open>The server\<close>

text \<open>Peer \<open>i\<close> of the command line is peer \<open>i - 2\<close> of the node, whatever ids the others run under.\<close>

definition main_peerIds :: "string list \<Rightarrow> u64 list" where
  "main_peerIds argv = map (\<lambda>i. of_nat (i - 2)) [3..<length argv]"

definition main_peerAddresses :: "string list \<Rightarrow> string list" where
  "main_peerAddresses argv = drop 3 argv"

definition add_peers :: "(u64 \<times> string) list \<Rightarrow> grpc_client \<Rightarrow> grpc_client" where
  "add_peers = fold (\<lambda>(p, address). addPeer p address)"

definition main_stateDir :: "u64 \<Rightarrow> string" where
  "main_stateDir nid = ''raft_data_node_'' @ to_string nid"

text \<open>
  \<open>main\<close> returns, ends with an exception, or serves until a signal. The node object lives at address
  \<open>object\<close>; the disk, the random numbers, uninitialised memory, the clock and whether the library can
  listen are parameters.
\<close>

datatype server_run =
    Exited int
  | Uncaught exn
  | Serving raft_node grpc_client grpc_server

definition raft_main ::
  "nat \<Rightarrow> (string \<Rightarrow> file_system) \<Rightarrow> nat stream \<Rightarrow> u64 \<Rightarrow> u64 \<Rightarrow> int \<Rightarrow> (string \<Rightarrow> bool) \<Rightarrow> string list \<Rightarrow> server_run"
where
  "raft_main object disk rng junkIndex junkTerm now can_listen argv =
     (if length argv < 4 then Exited 1
      else case stoull (argv ! 1) of
             Inl e \<Rightarrow> Uncaught e
           | Inr nid \<Rightarrow>
               (let ids = main_peerIds argv;
                    rpcClient = add_peers (zip ids (main_peerAddresses argv)) new_client;
                    dir = main_stateDir nid
                in case RaftNode nid ids empty_kvstore 10000 dir (disk dir) rng junkIndex junkTerm now of
                     (Inl e, n) \<Rightarrow> Uncaught e
                   | (Inr _, n) \<Rightarrow> Serving n rpcClient (server_start (GrpcRaftServer can_listen object (argv ! 2)))))"

definition signalHandler :: "grpc_server option \<Rightarrow> grpc_server option \<times> int" where
  "signalHandler server = (map_option server_stop server, 0)"

definition role_string :: "role \<Rightarrow> string" where
  "role_string r = (if r = LEADER then ''LEADER'' else if r = CANDIDATE then ''CANDIDATE'' else ''FOLLOWER'')"

text \<open>The status line, every fifth round of the loop; \<open>counter\<close> is the number of rounds before.\<close>

definition status_line :: "nat \<Rightarrow> u64 \<Rightarrow> raft_node \<Rightarrow> string option" where
  "status_line counter nid n =
     (if (counter + 1) mod 5 = 0 then
        Some (''Node '' @ to_string nid @ '' | Role: '' @ role_string (getCurrentRole n) @
          '' | Term: '' @ to_string (getCurrentTerm n) @ '' | Commit: '' @ to_string (getCommitIndex n) @
          '' | Log Size: '' @ to_string (getLogSize n))
      else None)"

section \<open>The client\<close>

definition client_meta :: client_request_meta where
  "client_meta = \<lparr>clientId = 100, sequenceNum = 1\<rparr>"

definition client_takes_value :: "string \<Rightarrow> bool" where
  "client_takes_value cmd \<longleftrightarrow> cmd = ''put'' \<or> cmd = ''append''"

definition client_command :: "string \<Rightarrow> string \<Rightarrow> string \<Rightarrow> command option" where
  "client_command cmd key value =
     (if cmd = ''put'' then Some (PutCommand client_meta key value)
      else if cmd = ''append'' then Some (AppendCommand client_meta key value)
      else if cmd = ''get'' then Some (GetCommand client_meta key)
      else None)"

text \<open>The exit status, and the command and stubs if it got as far as the first node; it sends nothing.\<close>

definition raft_client :: "string list \<Rightarrow> int \<times> (command \<times> grpc_client) option" where
  "raft_client argv =
     (if length argv < 3 then (1, None)
      else if client_takes_value (argv ! 1) \<and> length argv < 4 then (1, None)
      else let value = (if client_takes_value (argv ! 1) then argv ! 3 else []);
               addresses = drop (if client_takes_value (argv ! 1) then 4 else 3) argv
           in if addresses = [] then (1, None)
              else let rpcClient = add_peers (zip (map (\<lambda>i. of_nat (i + 1)) [0..<length addresses]) addresses) new_client
                   in case client_command (argv ! 1) (argv ! 2) value of
                        None \<Rightarrow> (1, None)
                      | Some c \<Rightarrow> (0, Some (c, rpcClient)))"

lemmas [run_simps] =
  is_blank_def is_digit_def digits_value_def stoull_def main_peerIds_def main_peerAddresses_def add_peers_def
  main_stateDir_def raft_main_def signalHandler_def role_string_def status_line_def client_meta_def
  client_takes_value_def client_command_def raft_client_def

section \<open>The server's configuration\<close>

lemma nat_to_string_digits: "nat_to_string k \<noteq> [] \<and> list_all is_digit (nat_to_string k)"
proof (induction k rule: nat_to_string.induct)
  case (1 k)
  have "is_digit (char_of (48 + d))" if "d < 10" for d :: nat
    using that by (simp add: is_digit_def)
  with 1 show ?case by (subst (1 2) nat_to_string.simps) simp
qed

lemma digits_value_snoc: "digits_value (ds @ [c]) = 10 * digits_value ds + (of_char c - 48)"
  by (simp add: digits_value_def)

lemma digits_value_nat_to_string: "digits_value (nat_to_string k) = k"
proof (induction k rule: nat_to_string.induct)
  case (1 k)
  show ?case
  proof (cases "k < 10")
    case True
    then show ?thesis by (simp add: nat_to_string.simps [of k] digits_value_def)
  next
    case False
    with 1 show ?thesis by (simp add: nat_to_string.simps [of k] digits_value_snoc)
  qed
qed

lemma stoull_to_string: "stoull (to_string (x :: u64)) = Inr x"
proof -
  obtain c cs where ds: "nat_to_string (unat x) = c # cs" "is_digit c" "list_all is_digit (c # cs)"
    using nat_to_string_digits [of "unat x"] by (cases "nat_to_string (unat x)") auto
  have "\<not> is_blank c" "c \<noteq> CHR ''-''" "c \<noteq> CHR ''+''"
    using ds(2) by (auto simp: is_digit_def is_blank_def)
  moreover have "takeWhile is_digit (c # cs) = c # cs"
    using ds(3) by (simp add: takeWhile_eq_all_conv list_all_iff)
  moreover have "digits_value (c # cs) = unat x" using digits_value_nat_to_string [of "unat x"] ds(1) by simp
  moreover have "\<not> 18446744073709551616 \<le> unat x" using unat_less_u64 [of x] by linarith
  ultimately show ?thesis using ds(1) by (simp add: stoull_def to_string_def Let_def)
qed

lemma stubs_add_peers:
  assumes "distinct ks" and "length ks = length as"
  shows "p \<notin> set ks \<Longrightarrow> stubs (add_peers (zip ks as) c) p = stubs c p"
    and "k < length ks \<Longrightarrow> stubs (add_peers (zip ks as) c) (ks ! k) = Some (as ! k)"
proof -
  show none: "stubs (add_peers (zip ks as) c) p = stubs c p" if "p \<notin> set ks" for ks as c p
    using that by (induction ks as arbitrary: c rule: list_induct2') (auto simp: add_peers_def addPeer_def)
  show "stubs (add_peers (zip ks as) c) (ks ! k) = Some (as ! k)" if "k < length ks"
    using assms(2,1) that
  proof (induction ks as arbitrary: c k rule: list_induct2)
    case (Cons q ks a as)
    show ?case
    proof (cases k)
      case 0
      with Cons.prems none [of q ks as "addPeer q a c"] show ?thesis by (simp add: add_peers_def addPeer_def)
    next
      case (Suc j)
      with Cons.prems Cons.IH [of j "addPeer q a c"] show ?thesis by (simp add: add_peers_def)
    qed
  qed simp
qed

lemma main_peerIds_props:
  assumes "length argv < 18446744073709551616"
  shows "length (main_peerIds argv) = length argv - 3" and "distinct (main_peerIds argv)"
    and "k < length argv - 3 \<Longrightarrow> main_peerIds argv ! k = of_nat (k + 1)"
proof -
  show "length (main_peerIds argv) = length argv - 3" by (simp add: main_peerIds_def)
  show "k < length argv - 3 \<Longrightarrow> main_peerIds argv ! k = of_nat (k + 1)" by (simp add: main_peerIds_def)
  have "inj_on (\<lambda>i. of_nat (i - 2) :: u64) {3..<length argv}"
  proof (rule inj_onI)
    fix i j assume ij: "i \<in> {3..<length argv}" "j \<in> {3..<length argv}" "(of_nat (i - 2) :: u64) = of_nat (j - 2)"
    have "unat (of_nat (k - 2) :: u64) = k - 2" if "k < length argv" for k
      using assms that by (simp add: unat_of_nat del: of_nat_diff)
    with ij have "i - 2 = j - 2" by (metis atLeastLessThan_iff)
    with ij(1,2) show "i = j" by (simp only: atLeastLessThan_iff) linarith
  qed
  then show "distinct (main_peerIds argv)" by (simp add: main_peerIds_def distinct_map)
qed

text \<open>
  C34. With at least one peer on its command line, a decimal node id and no state file, the server
  serves: its node is a follower with that id and the snapshot threshold of 10000, its \<open>k\<close>-th peer is
  named \<open>k + 1\<close> in the node and in the client, whose stub leads to the \<open>k\<close>-th peer address, and the
  server listens on the listen address if the library lets it.
\<close>

theorem raft_main_serves:
  assumes "4 \<le> length argv" and "length argv < 18446744073709551616" and "argv ! 1 = to_string nid"
    and "files (disk (main_stateDir nid)) (main_stateDir nid @ ''/raft_state.dat'') = None"
  shows "\<exists>n client server. raft_main object disk rng j1 j2 now can_listen argv = Serving n client server \<and>
    nodeId n = nid \<and> role n = FOLLOWER \<and> snapshotThreshold n = 10000 \<and> length (peerIds n) = length argv - 3 \<and>
    (\<forall>k < length argv - 3. peerIds n ! k = of_nat (k + 1) \<and> peerIdToIndexMap n (of_nat (k + 1)) = Some k \<and>
       getStub (of_nat (k + 1)) client = Some (argv ! (k + 3))) \<and>
    grpc_listener server = (if can_listen (argv ! 2) then Some (Listening (argv ! 2)) else None)"
proof -
  let ?ids = "main_peerIds argv" and ?dir = "main_stateDir nid"
  let ?n = "(resetElectionTimer now (initial_node nid ?ids empty_kvstore 10000 rng j1 j2 now))
      \<lparr>persistence := (if ?dir = [] then None else Some (new_persistence ?dir (disk ?dir))),
       nextIndex := replicate (length ?ids) 1, matchIndex := replicate (length ?ids) 0,
       peerIdToIndexMap := index_peers 0 ?ids Map.empty, running := True\<rparr>"
  let ?c = "add_peers (zip ?ids (main_peerAddresses argv)) new_client"
  note ids = main_peerIds_props [OF assms(2)]
  define n where "n = ?n"
  have node: "RaftNode nid ?ids empty_kvstore 10000 ?dir (disk ?dir) rng j1 j2 now = (Inr (), n)"
    unfolding n_def by (rule RaftNode_fresh [OF assms(4)])
  have "stoull (argv ! Suc 0) = Inr nid" using assms(3) by (simp add: stoull_to_string)
  with node assms(1) have "raft_main object disk rng j1 j2 now can_listen argv =
      Serving n ?c (server_start (GrpcRaftServer can_listen object (argv ! 2)))"
    by (simp add: raft_main_def Let_def)
  moreover have "peerIds n ! k = of_nat (k + 1) \<and> peerIdToIndexMap n (of_nat (k + 1)) = Some k \<and>
      getStub (of_nat (k + 1)) ?c = Some (argv ! (k + 3))" if "k < length argv - 3" for k
  proof -
    have "index_peers 0 ?ids Map.empty (?ids ! k) = Some k"
      using index_peers_nth [OF ids(2), of k 0] that ids(1) by simp
    moreover have "stubs ?c (?ids ! k) = Some (main_peerAddresses argv ! k)"
      using stubs_add_peers(2) [OF ids(2), of "main_peerAddresses argv" k] that ids(1)
      by (simp add: main_peerAddresses_def)
    ultimately show ?thesis
      using ids(3) [OF that] that
      by (simp add: n_def getStub_def main_peerAddresses_def resetElectionTimer_def initial_node_def add.commute)
  qed
  moreover have "nodeId n = nid" "role n = FOLLOWER" "snapshotThreshold n = 10000" "length (peerIds n) = length argv - 3"
    by (simp_all add: n_def ids(1) resetElectionTimer_def initial_node_def)
  ultimately show ?thesis by (simp add: server_start_def GrpcRaftServer_def)
qed

theorem raft_main_serves_witness:
  "\<exists>n client server.
    raft_main 0 (\<lambda>_. \<lparr>files = Map.empty, writable = (\<lambda>_. True), readable = (\<lambda>_. True)\<rparr>) (sconst 0) 0 0 0 (\<lambda>_. True)
      [''raft_server'', ''1'', ''a:1'', ''b:1'', ''c:1''] = Serving n client server \<and>
    nodeId n = 1 \<and> peerIds n ! 0 = 1 \<and> getStub 2 client = Some ''c:1''"
proof -
  let ?argv = "[''raft_server'', ''1'', ''a:1'', ''b:1'', ''c:1'']"
  have "?argv ! 1 = to_string (1 :: u64)" by (simp add: to_string_def nat_to_string.simps char_of_def)
  from raft_main_serves [OF _ _ this, of "\<lambda>_. \<lparr>files = Map.empty, writable = (\<lambda>_. True), readable = (\<lambda>_. True)\<rparr>"
      0 "sconst 0" 0 0 0 "\<lambda>_. True"]
  obtain n client server where
    "raft_main 0 (\<lambda>_. \<lparr>files = Map.empty, writable = (\<lambda>_. True), readable = (\<lambda>_. True)\<rparr>) (sconst 0) 0 0 0 (\<lambda>_. True)
      ?argv = Serving n client server" "nodeId n = 1"
    "\<forall>k < 2. peerIds n ! k = of_nat (k + 1) \<and> getStub (of_nat (k + 1)) client = Some (?argv ! (k + 3))"
    by auto
  then show ?thesis by (auto dest!: spec [of _ 0] spec [of _ "Suc 0"])
qed

section \<open>The client's commands\<close>

lemma client_command_meta: "client_command cmd key value = Some c \<Longrightarrow> command_meta c = client_meta"
  by (auto simp: client_command_def split: if_splits)

text \<open>
  All runs of the client speak with the same client id and sequence number: whatever two command
  lines ask for, once the first command was executed the service ignores the second as a retry.
\<close>

theorem client_runs_collide:
  assumes "raft_client argv = (status, Some (c, s))" and "raft_client argv' = (status', Some (c', s'))"
  shows "status = 0 \<and> status' = 0 \<and> exec_once c' (exec_once c service) = exec_once c service"
proof -
  have "command_meta c = client_meta \<and> status = 0" "command_meta c' = client_meta \<and> status' = 0"
    using assms by (auto simp: raft_client_def Let_def client_command_meta split: if_splits option.splits)
  then show ?thesis
    by (cases service) (auto simp: exec_once_def client_meta_def Let_def split: option.splits if_splits)
qed

theorem client_runs_collide_witness:
  "exec_once (AppendCommand client_meta ''k'' ''w'') (exec_once (PutCommand client_meta ''k'' ''v'') (Map.empty, Map.empty)) =
   exec_once (PutCommand client_meta ''k'' ''v'') (Map.empty, Map.empty)"
proof -
  obtain s s' where "raft_client [''raft_client'', ''put'', ''k'', ''v'', ''a:1''] = (0, Some (PutCommand client_meta ''k'' ''v'', s))"
    "raft_client [''raft_client'', ''append'', ''k'', ''w'', ''a:1''] = (0, Some (AppendCommand client_meta ''k'' ''w'', s'))"
    by (simp add: raft_client_def client_takes_value_def client_command_def Let_def)
  from client_runs_collide [OF this] show ?thesis by blast
qed

end
