(* ===== verification/Node_Type.thy ===== *)
theory Node_Type
  imports Commit_Round
begin

text \<open>
  The type invariant of a node: the log vector holds a first element (the code calls \<open>back\<close> on it)
  that stands for the snapshot, and behind it entries whose indices count up one by one; no key is
  stored twice, the leader arrays have one place per peer and the index map points into them, and
  the election timeout is one that \<open>resetElectionTimer\<close> draws. Every operation of the node keeps it,
  whatever the messages, the transport and the disk do.
\<close>

text \<open>The indices count up in 64-bit arithmetic; without a wrap-around this is \<open>log_wf\<close>.\<close>

definition in_sequence :: "raft_log \<Rightarrow> bool" where
  "in_sequence l \<longleftrightarrow> Entries l \<noteq> [] \<and>
     (\<forall>k < length (Entries l). e_index (Entries l ! k) = log_snapshotIndex l + of_nat k)"

lemma unat_plus_of_nat:
  "unat (a :: u64) + k < 18446744073709551616 \<Longrightarrow> unat (a + of_nat k) = unat a + k"
  by (simp add: unat_word_ariths unat_of_nat_small)

lemma log_wf_in_sequence:
  "log_wf l \<longleftrightarrow> in_sequence l \<and> unat (log_snapshotIndex l) + length (Entries l) \<le> 18446744073709551616"
  by (auto simp: log_wf_def in_sequence_def word_unat_eq_iff [where 'a = 64] unat_plus_of_nat)

definition well_typed :: "raft_node \<Rightarrow> bool" where
  "well_typed n \<longleftrightarrow> in_sequence (log n) \<and> kv_wf (kvStore n) \<and>
     length (nextIndex n) = length (peerIds n) \<and> length (matchIndex n) = length (peerIds n) \<and>
     (\<forall>p i. peerIdToIndexMap n p = Some i \<longrightarrow> i < length (peerIds n)) \<and>
     150 \<le> electionTimeout n \<and> electionTimeout n \<le> 300"

section \<open>Updates that the invariant does not see\<close>

lemma well_typed_update [simp]:
  "well_typed (n\<lparr>currentTerm := a\<rparr>) = well_typed n" "well_typed (n\<lparr>votedFor := b\<rparr>) = well_typed n"
  "well_typed (n\<lparr>role := c\<rparr>) = well_typed n" "well_typed (n\<lparr>currentLeaderId := d\<rparr>) = well_typed n"
  "well_typed (n\<lparr>persistence := p\<rparr>) = well_typed n" "well_typed (n\<lparr>commitIndex := e\<rparr>) = well_typed n"
  "well_typed (n\<lparr>lastApplied := f\<rparr>) = well_typed n" "well_typed (n\<lparr>snapshotData := g\<rparr>) = well_typed n"
  "well_typed (n\<lparr>snapshotIndex := h\<rparr>) = well_typed n" "well_typed (n\<lparr>snapshotTerm := i\<rparr>) = well_typed n"
  "well_typed (n\<lparr>running := j\<rparr>) = well_typed n" "well_typed (n\<lparr>lastAppliedSeq := q\<rparr>) = well_typed n"
  by (simp_all add: well_typed_def)

lemma well_typed_log: "well_typed n \<Longrightarrow> in_sequence l \<Longrightarrow> well_typed (n\<lparr>log := l\<rparr>)"
  by (simp add: well_typed_def)

lemma well_typed_store: "well_typed n \<Longrightarrow> kv_wf kv \<Longrightarrow> well_typed (n\<lparr>kvStore := kv\<rparr>)"
  by (simp add: well_typed_def)

lemma well_typed_indices [simp]:
  "well_typed n \<Longrightarrow> well_typed (n\<lparr>nextIndex := (nextIndex n)[i := x]\<rparr>)"
  "well_typed n \<Longrightarrow> well_typed (n\<lparr>nextIndex := (nextIndex n)[i := x], matchIndex := (matchIndex n)[i := y]\<rparr>)"
  "well_typed n \<Longrightarrow> well_typed (n\<lparr>matchIndex := (matchIndex n)[i := y], nextIndex := (nextIndex n)[i := x]\<rparr>)"
  by (simp_all add: well_typed_def)

section \<open>Helpers\<close>

lemma well_typed_persistState [simp]: "well_typed (snd (persistState n)) = well_typed n"
  by (simp add: persistState_def split: option.split prod.split)

lemma well_typed_resetElectionTimer [simp]: "well_typed n \<Longrightarrow> well_typed (resetElectionTimer now n)"
  using uniform_int_range [of 150 300 "shd (randomGenerator n)"]
  by (simp add: resetElectionTimer_def well_typed_def)

lemma well_typed_becomeFollower [simp]: "well_typed (snd (becomeFollower t n)) = well_typed n"
  by (simp add: becomeFollower_def)

lemma well_typed_becomeCandidate [simp]: "well_typed (snd (becomeCandidate n)) = well_typed n"
  by (simp add: becomeCandidate_def)

lemma well_typed_becomeLeader [simp]: "well_typed n \<Longrightarrow> well_typed (becomeLeader n)"
  by (simp add: becomeLeader_def Let_def well_typed_def)

lemma well_typed_apply_command: "well_typed n \<Longrightarrow> well_typed (apply_command c n)"
  using exec_command_refines by (auto simp: apply_command_def Let_def intro: well_typed_store simp: well_typed_def)

lemma well_typed_apply_entry: "well_typed n \<Longrightarrow> well_typed (apply_entry e n)"
  by (simp add: apply_entry_def well_typed_apply_command split: sum.split)

lemma well_typed_applyCommittedEntries [simp]: "well_typed n \<Longrightarrow> well_typed (snd (applyCommittedEntries n))"
proof (induction n rule: applyCommittedEntries.induct)
  case (1 n)
  then show ?case
    by (subst applyCommittedEntries.simps) (auto simp: Let_def well_typed_apply_entry split: sum.split)
qed

text \<open>The operations of the log keep its indices in sequence.\<close>

lemma in_sequence_append: "log_append e l = Inr l' \<Longrightarrow> in_sequence l \<Longrightarrow> in_sequence l'"
proof -
  assume app: "log_append e l = Inr l'" and seq: "in_sequence l"
  then obtain m where m: "length (Entries l) = Suc m" by (cases "Entries l") (auto simp: in_sequence_def)
  then have "last (Entries l) = Entries l ! m" by (cases "Entries l") (auto simp: last_conv_nth)
  with app seq m show ?thesis
    by (auto simp: log_append_def Let_def in_sequence_def nth_append less_Suc_eq add_ac split: if_splits)
qed

lemma in_sequence_truncate: "log_truncate i l = Inr l' \<Longrightarrow> in_sequence l \<Longrightarrow> in_sequence l'"
  by (auto simp: log_truncate_def Let_def unat_eq_0 in_sequence_def split: if_splits)

lemma in_sequence_discard: "in_sequence l \<Longrightarrow> in_sequence (discardEntriesUpTo i t l)"
  by (auto simp: discardEntriesUpTo_def Let_def in_sequence_def nth_Cons' split: if_splits)

lemma in_sequence_append_entries_loop:
  "in_sequence l \<Longrightarrow> in_sequence (snd (append_entries_loop i es lst l))"
proof (induction i es lst l rule: append_entries_loop.induct)
  case (2 i e es lst l)
  then show ?case
    by (auto simp: snd_andThen in_sequence_append in_sequence_truncate split: sum.split)
qed simp

lemma install_entries_distinct:
  "install_entries k bs pos m = Inr m' \<Longrightarrow> distinct (map fst m) \<Longrightarrow> distinct (map fst m')"
  by (induction k bs pos m rule: install_entries.induct)
    (auto simp: bindE_def distinct_update split: sum.splits)

lemma installSnapshot_kv_wf: "installSnapshot bs kv = Inr kv' \<Longrightarrow> kv_wf kv'"
  using install_entries_distinct [of _ bs _ "[]"]
  by (auto simp: installSnapshot_def bindE_def kv_wf_def split: sum.splits)

section \<open>Operations\<close>

lemma well_typed_handleRequestVote: "well_typed n \<Longrightarrow> well_typed (snd (handleRequestVote now args n))"
  by (simp add: handleRequestVote_def consider_vote_def Let_def snd_andThen split: sum.split)

lemma well_typed_advance_commit: "well_typed n \<Longrightarrow> well_typed (snd (advance_commit args n))"
  by (simp add: advance_commit_def)

lemma well_typed_store_entries: "well_typed n \<Longrightarrow> well_typed (snd (store_entries args n))"
  using in_sequence_append_entries_loop [of "log n" "ae_prevLogIndex args + 1" "ae_entries args" "getLastIndex (log n)"]
  by (cases "append_entries_loop (ae_prevLogIndex args + 1) (ae_entries args) (getLastIndex (log n)) (log n)")
    (auto simp: store_entries_def snd_andThen well_typed_def [of n] intro!: well_typed_log split: sum.split)

lemma well_typed_handleAppendEntries: "well_typed n \<Longrightarrow> well_typed (snd (handleAppendEntries now args n))"
  by (simp add: handleAppendEntries_def process_entries_def Let_def snd_andThen well_typed_store_entries
      well_typed_advance_commit split: sum.split option.split)

lemma well_typed_receive_snapshot:
  assumes "well_typed n"
  shows "well_typed (snd (receive_snapshot now args n))"
proof -
  have "in_sequence (log n)" using assms by (simp add: well_typed_def)
  with assms show ?thesis
    by (auto simp: receive_snapshot_def Let_def snd_andThen in_sequence_discard split: sum.split
        intro!: well_typed_log well_typed_store dest: installSnapshot_kv_wf)
qed

lemma well_typed_handleInstallSnapshot: "well_typed n \<Longrightarrow> well_typed (snd (handleInstallSnapshot now args n))"
  by (simp add: handleInstallSnapshot_def snd_andThen well_typed_receive_snapshot split: sum.split)

lemma well_typed_handleClientRequest: "well_typed n \<Longrightarrow> well_typed (snd (handleClientRequest request n))"
proof -
  assume n: "well_typed n"
  have p: "well_typed m" if "log_append e (log n) = Inr l" "persistState (n\<lparr>log := l\<rparr>) = (r, m)" for e l m
      and r :: "exn + unit"
  proof -
    have "in_sequence (log n)" using n by (simp add: well_typed_def)
    then have "well_typed (n\<lparr>log := l\<rparr>)" by (rule well_typed_log [OF n in_sequence_append [OF that(1)]])
    then show ?thesis using well_typed_persistState [of "n\<lparr>log := l\<rparr>"] that(2) by simp
  qed
  show ?thesis using n
    by (auto simp: handleClientRequest_def Let_def split: sum.split prod.split unit.split dest: p)
qed

lemma well_typed_takeNodeSnapshot [simp]: "well_typed n \<Longrightarrow> well_typed (snd (takeNodeSnapshot i n))"
proof -
  assume n: "well_typed n"
  then have "in_sequence (log n)" by (simp add: well_typed_def)
  with n show ?thesis by (simp add: takeNodeSnapshot_def Let_def well_typed_log in_sequence_discard)
qed

lemma well_typed_updateCommitIndex [simp]: "well_typed n \<Longrightarrow> well_typed (snd (updateCommitIndex n))"
proof -
  have "well_typed n \<longrightarrow> well_typed (snd r)" if "commit_loop i lst n = Some r" for i lst n r
    by (rule commit_loop_relates [OF _ _ _ that]) simp_all
  then show "well_typed n \<Longrightarrow> well_typed (snd (updateCommitIndex n))"
    by (auto simp: updateCommitIndex_def split: option.split)
qed

lemma well_typed_on_append_reply: "well_typed n \<Longrightarrow> well_typed (snd (on_append_reply i args reply n))"
  by (simp add: on_append_reply_def Let_def)

lemma well_typed_on_snapshot_reply: "well_typed n \<Longrightarrow> well_typed (snd (on_snapshot_reply i reply n))"
  by (simp add: on_snapshot_reply_def)

lemma well_typed_replicateToFollower:
  "well_typed (fst s) \<Longrightarrow> well_typed (fst (snd (replicateToFollower rpc p s)))"
  using well_typed_on_append_reply [of "fst s"] well_typed_on_snapshot_reply [of "fst s"]
  by (auto simp: replicateToFollower_def snd_andThen lift_world_def lift_node_def split: option.split sum.split
      outgoing.split prod.split) (metis snd_conv)+

lemma well_typed_heartbeat_loop: "well_typed (fst s) \<Longrightarrow> well_typed (fst (snd (heartbeat_loop rpc ps s)))"
  by (induction ps arbitrary: s) (simp_all add: snd_andThen well_typed_replicateToFollower split: sum.split)

lemma well_typed_on_vote_result: "well_typed n \<Longrightarrow> well_typed (snd (on_vote_result r v n))"
proof -
  assume n: "well_typed n"
  have "well_typed m" if "becomeFollower t n = (e, m)" for t m and e :: "exn + unit"
    using well_typed_becomeFollower [of t n] n that by simp
  with n show ?thesis
    by (auto simp: on_vote_result_def Let_def split: sum.split prod.split)
qed

lemma well_typed_vote_loop: "well_typed (fst s) \<Longrightarrow> well_typed (fst (snd (vote_loop rpc args ps v s)))"
proof (induction ps arbitrary: v s)
  case (Cons p ps)
  then show ?case
    using well_typed_on_vote_result [of "fst s"]
    by (auto simp: snd_andThen lift_node_def split: prod.split sum.split option.split) (metis fst_conv snd_conv)+
qed simp

lemma well_typed_startElection:
  fixes rpc :: "'w raft_rpc" and s :: "raft_node \<times> 'w"
  assumes "well_typed (fst s)"
  shows "well_typed (fst (snd (startElection rpc now s)))"
proof -
  have started: "well_typed (snd (begin_election now (fst s)))"
    using assms by (simp add: begin_election_def Let_def snd_andThen split: sum.split)
  have finish: "well_typed (finish_election v n)" if "well_typed n" for v n
    using that by (simp add: finish_election_def)
  have hb: "well_typed (fst (snd (sendHeartbeats rpc t)))" if "well_typed (fst t)" for t :: "raft_node \<times> 'w"
    using that by (simp add: sendHeartbeats_def well_typed_heartbeat_loop)
  show ?thesis
    unfolding startElection_def
  proof (rule andThen_post)
    show "well_typed (fst (snd (lift_node (begin_election now) s)))"
      using started by (simp add: lift_node_def case_prod_beta)
  next
    fix args and t :: "raft_node \<times> 'w"
    assume t: "well_typed (fst t)"
    show "well_typed (fst (snd (andThen (vote_loop rpc args (peerIds (fst t)) 1 t) (\<lambda>outcome s.
       case outcome of
         None \<Rightarrow> (Inr (), s)
       | Some votesReceived \<Rightarrow>
           (let s' = (finish_election votesReceived (fst s), snd s)
            in if votesReceived \<ge> majority (fst s) then sendHeartbeats rpc s' else (Inr (), s'))))))"
    proof (rule andThen_post)
      show "well_typed (fst (snd (vote_loop rpc args (peerIds (fst t)) 1 t)))"
        by (rule well_typed_vote_loop [OF t])
    qed (auto simp: Let_def finish hb split: option.split)
  qed
qed

lemma snapshotTimer_tick_type: "well_typed n \<Longrightarrow> well_typed (snd (snapshotTimer_tick n))"
  using snapshotTimer_tick_snd [of n] by auto

text \<open>
  C15. Every operation of a node keeps its type invariant: the handlers, the client request, the
  snapshot operations, the shutdown, and a round of each timer thread over any transport, whatever it
  returns and throws. So the log always has a last entry and its indices count up one by one from the
  snapshot index (modulo \<open>2 ^ 64\<close>), no key is stored twice, and the leader arrays have the places that
  the index map leads to.
\<close>

theorem operations_keep_type:
  assumes "well_typed n"
  shows "well_typed (snd (handleRequestVote now vargs n)) \<and> well_typed (snd (handleAppendEntries now aargs n)) \<and>
    well_typed (snd (handleInstallSnapshot now sargs n)) \<and> well_typed (snd (handleClientRequest request n)) \<and>
    well_typed (snd (triggerSnapshot n)) \<and> well_typed (snd (snapshotTimer_tick n)) \<and>
    well_typed (snd (destroy_node n)) \<and>
    well_typed (fst (snd (electionTimer_tick rpc now now' (n, w)))) \<and>
    well_typed (fst (snd (heartbeatTimer_tick rpc (n, w))))"
  using assms well_typed_startElection [of "(n, w)" rpc now'] well_typed_heartbeat_loop [of "(n, w)" rpc "peerIds n"]
  by (simp add: well_typed_handleRequestVote well_typed_handleAppendEntries well_typed_handleInstallSnapshot
      well_typed_handleClientRequest snapshotTimer_tick_type triggerSnapshot_def destroy_node_def
      electionTimer_tick_def heartbeatTimer_tick_def sendHeartbeats_def)

lemma RaftNode_well_typed:
  assumes "files disk (dir @ ''/raft_state.dat'') = None" and "kv_wf kv"
    and "RaftNode nid peers kv threshold dir disk rng j1 j2 now = (r, n)"
  shows "well_typed n"
proof -
  have "i < k + length ps" if "index_peers k ps m p = Some i" "\<And>q i. m q = Some i \<Longrightarrow> i < k" for k ps m p i
    using that
  proof (induction k ps m rule: index_peers.induct)
    case (2 k q ps m)
    have "i < Suc k + length ps"
    proof (rule "2.IH")
      show "index_peers (Suc k) ps (m(q \<mapsto> k)) p = Some i" using "2.prems"(1) unfolding index_peers.simps .
    qed (auto split: if_splits intro: less_SucI dest: "2.prems"(2))
    then show ?case by simp
  qed simp
  from this [of 0 peers Map.empty] show ?thesis
    using assms(2,3) uniform_int_range [of 150 300 "shd rng"]
    by (auto simp: RaftNode_fresh [OF assms(1)] well_typed_def resetElectionTimer_def initial_node_def
        new_log_def in_sequence_def dummy_entry_def split: if_splits)
qed

lemma sample_node_well_typed: "well_typed (resetElectionTimer 0 sample_node)"
  using uniform_int_range [of 150 300 0]
    log_wf_in_sequence [of sample_log]
  by (simp add: well_typed_def resetElectionTimer_def) (simp add: sample_node_def initial_node_def)

theorem operations_keep_type_witness:
  "well_typed (snd (handleClientRequest sample_request (resetElectionTimer 0 sample_node))) \<and>
   well_typed (fst (snd (electionTimer_tick sample_rpc 999000000 5 (resetElectionTimer 0 sample_node, ()))))"
  using operations_keep_type [OF sample_node_well_typed, where request = sample_request and rpc = sample_rpc
      and now = 999000000 and now' = 5 and w = "()"]
  by simp

section \<open>When elections start\<close>

lemma to_milliseconds_mono: "a \<le> b \<Longrightarrow> to_milliseconds a \<le> to_milliseconds b"
  by (auto simp: to_milliseconds_def zdiv_mono1 intro: order_trans [of _ 0] div_int_pos_iff [THEN iffD2])

text \<open>
  C33. The election timeout bounds: a node that is not leader never starts an election within 151 ms
  of the last heartbeat it saw, and a round of its timer 301 ms or more after it always does. The
  elapsed nanoseconds are truncated to milliseconds before the comparison.
\<close>

theorem election_timing:
  assumes "well_typed n" and "running n" and "role n \<noteq> LEADER"
  shows "(now - lastHeartbeat n < 151000000 \<longrightarrow> electionTimer_tick rpc now now' (n, w) = (Inr (), (n, w))) \<and>
    (301000000 \<le> now - lastHeartbeat n \<longrightarrow> electionTimer_tick rpc now now' (n, w) = startElection rpc now' (n, w))"
proof -
  let ?e = "now - lastHeartbeat n"
  have t: "150 \<le> electionTimeout n" "electionTimeout n \<le> 300" using assms(1) by (simp_all add: well_typed_def)
  have "to_milliseconds ?e \<le> 150" if "?e < 151000000"
    using to_milliseconds_mono [of ?e 150999999] that by (simp add: to_milliseconds_def)
  moreover have "301 \<le> to_milliseconds ?e" if "301000000 \<le> ?e"
    using to_milliseconds_mono [of 301000000 ?e] that by (simp add: to_milliseconds_def)
  ultimately show ?thesis using t assms(2,3) by (auto simp: electionTimer_tick_def)
qed

theorem election_timing_witness:
  "electionTimer_tick sample_rpc 150999999 5 ((resetElectionTimer 0 sample_node)\<lparr>running := True\<rparr>, ()) =
    (Inr (), ((resetElectionTimer 0 sample_node)\<lparr>running := True\<rparr>, ()))"
  using election_timing [of "(resetElectionTimer 0 sample_node)\<lparr>running := True\<rparr>" 150999999]
  by (simp add: sample_node_well_typed) (simp add: resetElectionTimer_def)

end
