(* ===== verification/Leader_Log.thy ===== *)
theory Leader_Log
  imports Commit_Round
begin

text \<open>
  The log of a leader (\<open>src/raft/RaftNode.cpp\<close>): as long as a node stays leader, no operation of it
  overwrites or drops an entry that is not covered by a snapshot, the append-only rule that the
  README names among the properties of the protocol.
\<close>

text \<open>Every entry of the old log that the snapshot of the new one does not cover is still there.\<close>

definition extends :: "raft_log \<Rightarrow> raft_log \<Rightarrow> bool" where
  "extends l l' \<longleftrightarrow> log_map l |` {unat (log_snapshotIndex l')<..} \<subseteq>\<^sub>m log_map l'"

lemma extends_refl [simp]: "extends l l"
  by (simp add: extends_def map_le_def)

lemma extends_append:
  assumes "log_append e l = Inr l'" and "Entries l \<noteq> []"
  shows "extends l l'"
proof -
  from assms(1) have "Entries l' = Entries l @ [e]" "log_snapshotIndex l' = log_snapshotIndex l"
    by (auto simp: log_append_def Let_def split: if_splits)
  with assms(2) show ?thesis
    by (cases "Entries l") (auto simp: extends_def map_le_def log_map_def last_nat_def restrict_map_def nth_append split: if_splits)
qed

lemma extends_discard: "log_wf l \<Longrightarrow> extends l (discardEntriesUpTo i t l)"
  using discardEntriesUpTo_wf [of l i t]
  by (auto simp: extends_def map_le_def restrict_map_def word_le_nat_alt max_def split: if_splits)

lemma extends_client:
  assumes "log_wf (log n)"
  shows "extends (log n) (log (snd (handleClientRequest request n)))"
proof -
  have p: "extends (log n) (log m)" if "log_append e (log n) = Inr l" "persistState (n\<lparr>log := l\<rparr>) = (r, m)"
    for e l m and r :: "exn + unit"
    using extends_append [OF that(1) log_wf_nonempty [OF assms]] persistState_frame [of "n\<lparr>log := l\<rparr>"] that(2) by simp
  then show ?thesis
    by (auto simp: handleClientRequest_def Let_def split: sum.split prod.split unit.split)
qed

lemma extends_takeNodeSnapshot: "log_wf (log n) \<Longrightarrow> extends (log n) (log (snd (takeNodeSnapshot i n)))"
  by (simp add: takeNodeSnapshot_def Let_def extends_discard)

lemma extends_handleInstallSnapshot:
  "log_wf (log n) \<Longrightarrow> extends (log n) (log (snd (handleInstallSnapshot now args n)))"
  by (simp add: handleInstallSnapshot_def receive_snapshot_def Let_def snd_andThen extends_discard split: sum.split)

section \<open>A heartbeat round leaves the log alone\<close>

lemma log_on_append_reply: "log (snd (on_append_reply i args reply n)) = log n"
  using updateCommitIndex_same_indices by (simp add: on_append_reply_def Let_def same_indices_def)

lemma log_on_snapshot_reply: "log (snd (on_snapshot_reply i reply n)) = log n"
  by (simp add: on_snapshot_reply_def)

lemma log_replicateToFollower: "log (fst (snd (replicateToFollower rpc p s))) = log (fst s)"
  using log_on_append_reply [of _ _ _ "fst s"] log_on_snapshot_reply [of _ _ "fst s"]
  by (auto simp: replicateToFollower_def snd_andThen lift_world_def lift_node_def split: option.split sum.split
      outgoing.split prod.split) (metis snd_conv)+

lemma log_heartbeat_loop: "log (fst (snd (heartbeat_loop rpc ps s))) = log (fst s)"
  by (induction ps arbitrary: s) (simp_all add: snd_andThen log_replicateToFollower split: sum.split)

text \<open>
  C17. Leader append-only: an operation after which a leader is still leader keeps every entry of its
  log that the snapshot does not cover: the handlers of requests, the client request, the snapshot
  operations and the rounds of the timer threads over any transport.
\<close>

theorem leader_append_only:
  assumes "log_wf (log n)" and "role n = LEADER"
    and "n' \<in> {snd (handleRequestVote now vargs n), snd (handleAppendEntries now aargs n),
      snd (handleInstallSnapshot now sargs n), snd (handleClientRequest request n), snd (triggerSnapshot n),
      snd (snapshotTimer_tick n), fst (snd (electionTimer_tick rpc now now' (n, w))),
      fst (snd (heartbeatTimer_tick rpc (n, w)))}"
    and "role n' = LEADER"
  shows "extends (log n) (log n')"
proof -
  have "log (snd (handleRequestVote now vargs n)) = log n"
    by (simp add: handleRequestVote_def snd_andThen split: sum.split)
  moreover have "log (snd (handleAppendEntries now aargs n)) = log n" if "role (snd (handleAppendEntries now aargs n)) = LEADER"
    using handleAppendEntries_cases [of aargs n now] that by (cases "ae_term aargs < currentTerm n") simp_all
  moreover have "extends (log n) (log (snd (triggerSnapshot n)))"
    by (simp add: triggerSnapshot_def extends_takeNodeSnapshot [OF assms(1)])
  moreover have "extends (log n) (log (snd (snapshotTimer_tick n)))"
    using snapshotTimer_tick_snd [of n] extends_takeNodeSnapshot [OF assms(1)] by auto
  moreover have "log (fst (snd (electionTimer_tick rpc now now' (n, w)))) = log n"
    using assms(2) by (simp add: electionTimer_tick_def)
  moreover have "log (fst (snd (heartbeatTimer_tick rpc (n, w)))) = log n"
    by (simp add: heartbeatTimer_tick_def sendHeartbeats_def log_heartbeat_loop)
  ultimately show ?thesis
    using assms(3,4) extends_client [OF assms(1)] extends_handleInstallSnapshot [OF assms(1)] by auto
qed

theorem leader_append_only_witness:
  "extends (log sample_leader) (log (snd (handleClientRequest sample_request sample_leader)))"
proof -
  have wf: "log_wf (log sample_leader)" by simp
  have leader: "role sample_leader = LEADER" by simp
  have still: "role (snd (handleClientRequest sample_request sample_leader)) = LEADER" by simp
  show ?thesis
    by (rule leader_append_only [where request = sample_request and rpc = sample_rpc and w = "()",
      OF wf leader _ still]) blast
qed

section \<open>A former leader\<close>

text \<open>
  A committed entry can be overwritten: the \<open>AppendEntries\<close> of a node that has just stepped down in
  the middle of \<open>sendHeartbeats\<close> goes out in the name of the new term, and a node of that term which
  has committed an entry at an index where the former leader has another one accepts the former
  leader's entry in its place, its commit index staying at or above that index.
  \<open>Overwriting_Run\<close> shows a run of the program that comes to this.
\<close>

theorem former_leader_replaces:
  assumes "disk_ok n" and "currentTerm n < aer_term reply" and "on_append_reply i args reply n = (r, n1)"
    and "log_wf (log n)" and "uncompacted (log n)" and "last_nat (log n) < 18446744073709551615" and "0 < nextIndex n ! j"
    and "disk_ok m" and "log_wf (log m)" and "uncompacted (log m)" and "currentTerm m = aer_term reply"
    and "prepare_replication j n1 = Inr (Send_append a)" and "matches_previous a m"
    and "unat (nextIndex n ! j) \<le> k" and "k \<le> unat (commitIndex m)"
    and "log_map (log n) k = Some x" and "log_map (log m) k = Some y" and "e_term x \<noteq> e_term y"
  shows "role n1 = FOLLOWER \<and> (\<exists>reply' m' z. handleAppendEntries now a m = (Inr reply', m') \<and> aer_success reply' \<and>
    k \<le> unat (commitIndex m') \<and> log_map (log m') k = Some z \<and> e_term z = e_term x)"
proof -
  have n1: "n1 = snd (becomeFollower (aer_term reply) n)" using assms(2,3) by (auto simp: on_append_reply_def)
  then have f: "role n1 = FOLLOWER" "currentTerm n1 = aer_term reply" "log n1 = log n" "nextIndex n1 = nextIndex n" by simp_all
  have a: "a = append_message j n1"
    using prepare_uncompacted [of n1 j] assms(4-7,12) f by simp
  let ?q = "unat (ae_prevLogIndex a)" and ?es = "ae_entries a"
  note um = uncompacted_message [of n1 j, unfolded f(3,4), folded a, OF assms(4,5,7)]
  have kn: "0 < k" "k \<le> length (tl (Entries (log n)))" "x = tl (Entries (log n)) ! (k - 1)"
    using assms(16) uncompacted_log_map [OF assms(4,5)] by (simp_all split: if_splits)
  have "0 < unat (nextIndex n ! j)" using assms(7) by (simp add: word_less_nat_alt)
  then have len: "?q + length ?es = length (tl (Entries (log n)))" "?q < k"
    using um(1,2) assms(14) kn(2) by simp_all
  have bound: "?q + length ?es < 18446744073709551615"
    using len(1) assms(6) uncompacted_log_map(1) [OF assms(4,5)] by simp
  have le: "currentTerm m \<le> ae_term a" using f(2) assms(11) by (simp add: a append_message_def)
  note merge = handleAppendEntries_merge [OF assms(8-10) le um(3) bound, of now]
  then obtain reply' m' where r: "handleAppendEntries now a m = (Inr reply', m')" by blast
  from merge [unfolded r] have h: "aer_success reply'" "log_wf (log m')" "uncompacted (log m')"
    and tl': "tl (Entries (log m')) = take ?q (tl (Entries (log m))) @ merge_entries (drop ?q (tl (Entries (log m)))) ?es"
    and ci: "commitIndex m' = (if ae_leaderCommit a > commitIndex m then min (ae_leaderCommit a) (getLastIndex (log m')) else commitIndex m)"
    by (simp_all add: assms(13))
  let ?xs = "tl (Entries (log m))"
  have "?q \<le> length ?xs"
    using assms(13) getLastIndex_nat [OF assms(9)] uncompacted_log_map(1) [OF assms(9,10)]
    by (simp add: matches_previous_def word_le_nat_alt)
  then have lq: "length (take ?q ?xs) = ?q" by (simp only: length_take min.absorb2)
  have "\<not> k - 1 < ?q" using len(2) by linarith
  then have nth: "tl (Entries (log m')) ! (k - 1) = merge_entries (drop ?q ?xs) ?es ! (k - 1 - ?q)"
    "length (tl (Entries (log m'))) = ?q + length (merge_entries (drop ?q ?xs) ?es)"
    unfolding tl' by (simp_all only: nth_append lq if_False length_append)
  have j: "k - 1 - ?q < length (ae_entries a)" using len kn(1,2) by linarith
  note mt = merge_entries_terms [OF this, of "drop ?q (tl (Entries (log m)))"]
  have "?es = drop ?q (tl (Entries (log n)))" unfolding um(1) by (rule um(2))
  moreover have "?q + (k - 1 - ?q) = k - 1" using len(2) by linarith
  ultimately have "ae_entries a ! (k - 1 - ?q) = x" using kn(3) len(1) by simp
  with mt nth have "e_term (tl (Entries (log m')) ! (k - 1)) = e_term x" by simp
  moreover have kl: "k \<le> length (tl (Entries (log m')))" using mt nth(2) kn(1) len(2) by linarith
  ultimately have "\<exists>z. log_map (log m') k = Some z \<and> e_term z = e_term x"
    using uncompacted_log_map(2) [OF h(2,3), of k] kn(1) by simp
  moreover have "k \<le> unat (commitIndex m')"
    using ci assms(15) kl getLastIndex_nat [OF h(2)] uncompacted_log_map(1) [OF h(2,3)]
    by (simp add: word_less_nat_alt min_def)
  ultimately show ?thesis using f(1) h(1) r by blast
qed

definition committed_log :: raft_log where
  "committed_log = \<lparr>Entries = [dummy_entry, sample_entry 1 1, sample_entry 2 5], log_snapshotIndex = 0, log_snapshotTerm = 0\<rparr>"

lemma committed_log_simps [simp]: "log_wf committed_log" "last_nat committed_log = 2" "uncompacted committed_log"
  "log_map committed_log 2 = Some (sample_entry 2 5)" "getLastIndex committed_log = 2" "getTerm committed_log 1 = 1"
  by (simp_all add: committed_log_def log_wf_consecutive last_nat_def dummy_entry_def uncompacted_def log_map_def
      sample_entry_def getLastIndex_def getTerm_def)

theorem former_leader_replaces_witness:
  "\<exists>n1 a reply' m' z. snd (on_append_reply 0 \<lparr>ae_term = 2, ae_leaderId = 1, ae_prevLogIndex = 3, ae_prevLogTerm = 2,
      ae_entries = [], ae_leaderCommit = 0\<rparr> \<lparr>aer_term = 7, aer_success = False, conflictIndex = 0, conflictTerm = 0\<rparr>
      sample_leader) = n1 \<and> role n1 = FOLLOWER \<and> prepare_replication 1 n1 = Inr (Send_append a) \<and>
    handleAppendEntries 5 a (sample_node\<lparr>log := committed_log, currentTerm := 7, commitIndex := 2\<rparr>) = (Inr reply', m') \<and>
    aer_success reply' \<and> 2 \<le> unat (commitIndex m') \<and> log_map (log m') 2 = Some z \<and> e_term z \<noteq> 5"
proof -
  let ?args = "\<lparr>ae_term = 2, ae_leaderId = 1, ae_prevLogIndex = 3, ae_prevLogTerm = 2, ae_entries = [], ae_leaderCommit = 0\<rparr>"
  let ?reply = "\<lparr>aer_term = 7, aer_success = False, conflictIndex = 0, conflictTerm = 0\<rparr>"
  let ?m = "sample_node\<lparr>log := committed_log, currentTerm := 7, commitIndex := 2\<rparr>"
  obtain r n1 where n1: "on_append_reply 0 ?args ?reply sample_leader = (r, n1)" by fastforce
  then have f: "n1 = snd (becomeFollower 7 sample_leader)" by (auto simp: on_append_reply_def)
  have a: "prepare_replication 1 n1 = Inr (Send_append (append_message 1 n1))"
    by (rule prepare_uncompacted) (simp_all add: f uncompacted_def)
  have "matches_previous (append_message 1 n1) ?m"
    by (simp add: matches_previous_def append_message_def f) (simp add: getTerm_def sample_log_entries)
  moreover have "log_map (log sample_leader) 2 = Some \<lparr>e_index = 2, e_term = 1, command_data = []\<rparr>"
    "log_map (log ?m) 2 = Some (sample_entry 2 5)" "e_term (sample_entry 2 5) = 5"
    by (simp add: log_map_def sample_log_entries last_nat_def, simp, simp add: sample_entry_def)
  ultimately show ?thesis
    using former_leader_replaces [OF _ _ n1 _ _ _ _ _ _ _ _ a, of ?m 2 \<open>\<lparr>e_index = 2, e_term = 1, command_data = []\<rparr>\<close> \<open>sample_entry 2 5\<close> 5] n1 a
    by (auto simp: uncompacted_def [of sample_log])
qed

end
