(* ===== verification/Overwriting_Run.thy ===== *)
theory Overwriting_Run
  imports InMemory_RPC
begin

text \<open>
  A run of three nodes in one process (\<open>src/raft/RaftNode.cpp\<close>, \<open>src/raft/InMemoryRPC.cpp\<close>), from
  their constructors to the loss of a committed entry. All of it are operations of the model: rounds
  of the timer threads over the in-memory transport, requests of clients, and a node that leaves the
  transport. The defect it shows is the loop of \<open>sendHeartbeats\<close>, which goes on after the node has
  stepped down.
\<close>

section \<open>Operations of the process\<close>

datatype operation =
    Election_timer address
  | Heartbeat_timer address
  | Client address client_request
  | Unregister u64

definition lift_request :: "client_request \<Rightarrow> raft_node \<times> 'w \<Rightarrow> (exn + unit) \<times> (raft_node \<times> 'w)" where
  "lift_request request s = andThen (lift_node (handleClientRequest request) s) (\<lambda>_ s. (Inr (), s))"

text \<open>The election timer reads the clock of the process twice, in its loop and in \<open>startElection\<close>.\<close>

fun perform :: "operation \<Rightarrow> process \<Rightarrow> (exn + unit) \<times> process" where
  "perform (Election_timer a) w =
     run_at a (electionTimer_tick InMemoryRPC (shd (clock w)) (shd (stl (clock w)))) (w\<lparr>clock := stl (stl (clock w))\<rparr>)"
| "perform (Heartbeat_timer a) w = run_at a (heartbeatTimer_tick InMemoryRPC) w"
| "perform (Client a request) w = run_at a (lift_request request) w"
| "perform (Unregister i) w = (Inr (), unregisterNode i w)"

fun perform_all :: "operation list \<Rightarrow> process \<Rightarrow> (exn + unit) \<times> process" where
  "perform_all [] w = (Inr (), w)"
| "perform_all (op # ops) w = andThen (perform op w) (\<lambda>_. perform_all ops)"

section \<open>The process\<close>

text \<open>Three nodes without a state directory; every reading of the clock is 200 ms after the last.\<close>

definition clock_from :: "int \<Rightarrow> int stream" where
  "clock_from t = siterate (\<lambda>t. t + 200000000) t"

definition new_node :: "u64 \<Rightarrow> u64 list \<Rightarrow> raft_node" where
  "new_node i peers = snd (RaftNode i peers empty_kvstore 10000 [] (fs sample_disk) (sconst 0) 0 0 0)"

definition three_nodes :: process where
  "three_nodes = \<lparr>nodes = [1 \<mapsto> 10, 2 \<mapsto> 20, 3 \<mapsto> 30], partitions = Map.empty,
     objects = [10 \<mapsto> new_node 1 [2, 3], 20 \<mapsto> new_node 2 [1, 3], 30 \<mapsto> new_node 3 [1, 2]], clock = clock_from 200000000\<rparr>"

text \<open>The two commands, of two clients.\<close>

definition lost_request :: client_request where
  "lost_request = \<lparr>req_command = PutCommand \<lparr>clientId = 7, sequenceNum = 1\<rparr> ''k'' ''v'',
     req_clientId = 7, req_sequenceNum = 1\<rparr>"

definition kept_request :: client_request where
  "kept_request = \<lparr>req_command = PutCommand \<lparr>clientId = 8, sequenceNum = 1\<rparr> ''k'' ''w'',
     req_clientId = 8, req_sequenceNum = 1\<rparr>"

definition lost_entry :: log_entry where
  "lost_entry = \<lparr>e_index = 1, e_term = 1, command_data = command_image (PutCommand \<lparr>clientId = 7, sequenceNum = 1\<rparr> ''k'' ''v'')\<rparr>"

definition kept_entry :: log_entry where
  "kept_entry = \<lparr>e_index = 1, e_term = 2, command_data = command_image (PutCommand \<lparr>clientId = 8, sequenceNum = 1\<rparr> ''k'' ''w'')\<rparr>"

definition log_of :: "log_entry \<Rightarrow> raft_log" where
  "log_of e = \<lparr>Entries = [dummy_entry, e], log_snapshotIndex = 0, log_snapshotTerm = 0\<rparr>"

text \<open>
  Node 1 is elected and takes a command that it never sends. It leaves the transport, node 2 is
  elected, takes a command, replicates it to node 3, commits it, and tells node 3 so.
\<close>

definition committing_run :: "operation list" where
  "committing_run = [Election_timer 10, Client 10 lost_request, Unregister 1, Election_timer 20,
     Client 20 kept_request, Heartbeat_timer 20, Heartbeat_timer 20]"

section \<open>Evaluation\<close>

text \<open>The process by its parts: who is registered, the objects, the clock.\<close>

definition process_of :: "(u64 \<rightharpoonup> address) \<Rightarrow> raft_node option \<Rightarrow> raft_node option \<Rightarrow> raft_node option \<Rightarrow> int \<Rightarrow> process" where
  "process_of reg a b c t = \<lparr>nodes = reg, partitions = Map.empty,
     objects = (\<lambda>k. if k = 10 then a else if k = 20 then b else if k = 30 then c else None), clock = clock_from t\<rparr>"

lemma process_of_simps [simp]:
  "nodes (process_of reg a b c t) = reg" "clock (process_of reg a b c t) = clock_from t"
  "objects (process_of reg a b c t) 10 = a" "objects (process_of reg a b c t) 20 = b" "objects (process_of reg a b c t) 30 = c"
  "process_of reg a b c t\<lparr>clock := clock_from t'\<rparr> = process_of reg a b c t'"
  "shd (clock_from t) = t" "stl (clock_from t) = clock_from (t + 200000000)"
  by (simp_all add: process_of_def clock_from_def)

lemma process_of_update [simp]:
  "process_of reg a b c t\<lparr>objects := (objects (process_of reg a b c t))(10 := x)\<rparr> = process_of reg x b c t"
  "process_of reg a b c t\<lparr>objects := (objects (process_of reg a b c t))(20 := x)\<rparr> = process_of reg a x c t"
  "process_of reg a b c t\<lparr>objects := (objects (process_of reg a b c t))(30 := x)\<rparr> = process_of reg a b x t"
  by (simp_all add: process_of_def fun_eq_iff)

lemma process_of_call [simp]:
  "process_of reg a b c t\<lparr>objects := (objects (process_of reg a b c t))(10 := x), clock := clock_from t'\<rparr> = process_of reg x b c t'"
  "process_of reg a b c t\<lparr>objects := (objects (process_of reg a b c t))(20 := x), clock := clock_from t'\<rparr> = process_of reg a x c t'"
  "process_of reg a b c t\<lparr>objects := (objects (process_of reg a b c t))(30 := x), clock := clock_from t'\<rparr> = process_of reg a b x t'"
  by (simp_all add: process_of_def fun_eq_iff)

lemma three_nodes: "three_nodes = process_of [1 \<mapsto> 10, 2 \<mapsto> 20, 3 \<mapsto> 30] (Some (new_node 1 [2, 3]))
    (Some (new_node 2 [1, 3])) (Some (new_node 3 [1, 2])) 200000000"
  by (simp add: three_nodes_def process_of_def fun_eq_iff)

text \<open>
  The nodes by the fields that the run changes; \<open>x\<close> says whether the first entry was executed, which
  is the kept one.
\<close>

definition kept_store :: kvstore where
  "kept_store = exec_command (req_command kept_request) empty_kvstore"

definition node_state ::
  "u64 \<Rightarrow> u64 list \<Rightarrow> int \<Rightarrow> u64 \<Rightarrow> u64 \<Rightarrow> role \<Rightarrow> u64 \<Rightarrow> raft_log \<Rightarrow> u64 list \<Rightarrow> u64 list \<Rightarrow> bool \<Rightarrow> raft_node"
where
  "node_state i peers heard t vote r leader l next match x =
     (initial_node i peers (if x then kept_store else empty_kvstore) 10000 (sconst 0) 0 0 heard)
       \<lparr>electionTimeout := 150, nextIndex := next, matchIndex := match, peerIdToIndexMap := index_peers 0 peers Map.empty,
        running := True, currentTerm := t, votedFor := vote, role := r, currentLeaderId := leader, log := l,
        commitIndex := (if x then 1 else 0), lastApplied := (if x then 1 else 0),
        lastAppliedSeq := (if x then [8 \<mapsto> 1] else Map.empty)\<rparr>"

lemma node_state_simps [simp]:
  "nodeId (node_state i ps h t v r ld l nx mt x) = i" "peerIds (node_state i ps h t v r ld l nx mt x) = ps"
  "currentTerm (node_state i ps h t v r ld l nx mt x) = t" "votedFor (node_state i ps h t v r ld l nx mt x) = v"
  "role (node_state i ps h t v r ld l nx mt x) = r" "log (node_state i ps h t v r ld l nx mt x) = l"
  "nextIndex (node_state i ps h t v r ld l nx mt x) = nx" "matchIndex (node_state i ps h t v r ld l nx mt x) = mt"
  "commitIndex (node_state i ps h t v r ld l nx mt x) = (if x then 1 else 0)"
  "lastApplied (node_state i ps h t v r ld l nx mt x) = (if x then 1 else 0)"
  "running (node_state i ps h t v r ld l nx mt x)" "persistence (node_state i ps h t v r ld l nx mt x) = None"
  "lastHeartbeat (node_state i ps h t v r ld l nx mt x) = h" "electionTimeout (node_state i ps h t v r ld l nx mt x) = 150"
  "lastAppliedSeq (node_state i ps h t v r ld l nx mt x) = (if x then [8 \<mapsto> 1] else Map.empty)"
  "peerIdToIndexMap (node_state i ps h t v r ld l nx mt x) = index_peers 0 ps Map.empty"
  "currentLeaderId (node_state i ps h t v r ld l nx mt x) = ld"
  by (simp_all add: node_state_def initial_node_def)

lemma node_state_update [simp]:
  "node_state i ps h t v r ld l nx mt x\<lparr>currentTerm := t'\<rparr> = node_state i ps h t' v r ld l nx mt x"
  "node_state i ps h t v r ld l nx mt x\<lparr>votedFor := v'\<rparr> = node_state i ps h t v' r ld l nx mt x"
  "node_state i ps h t v r ld l nx mt x\<lparr>role := r'\<rparr> = node_state i ps h t v r' ld l nx mt x"
  "node_state i ps h t v r ld l nx mt x\<lparr>currentLeaderId := ld'\<rparr> = node_state i ps h t v r ld' l nx mt x"
  "node_state i ps h t v r ld l nx mt x\<lparr>log := l'\<rparr> = node_state i ps h t v r ld l' nx mt x"
  "node_state i ps h t v r ld l nx mt x\<lparr>nextIndex := nx'\<rparr> = node_state i ps h t v r ld l nx' mt x"
  "node_state i ps h t v r ld l nx mt x\<lparr>matchIndex := mt'\<rparr> = node_state i ps h t v r ld l nx mt' x"
  "resetElectionTimer h' (node_state i ps h t v r ld l nx mt x) = node_state i ps h' t v r ld l nx mt x"
  by (simp_all add: node_state_def initial_node_def resetElectionTimer_def uniform_int_def)

lemma new_node: "new_node i [p, q] = node_state i [p, q] 0 0 0 FOLLOWER 0 new_log [1, 1] [0, 0] False"
proof -
  have "RaftNode i [p, q] empty_kvstore 10000 [] (fs sample_disk) (sconst 0) 0 0 0 =
      (Inr (), node_state i [p, q] 0 0 0 FOLLOWER 0 new_log [1, 1] [0, 0] False)"
    by (simp add: RaftNode_def Let_def restoreState_def initial_node_def node_state_def resetElectionTimer_def uniform_int_def
        numeral_2_eq_2)
  then show ?thesis by (simp add: new_node_def)
qed

lemma persist_state [simp]: "persistence n = None \<Longrightarrow> persistState n = (Inr (), n)"
  by (simp add: persistState_def)

lemma shown_logs [simp]:
  "getLastIndex new_log = 0" "getLastTerm new_log = 0" "log_wf (log_of lost_entry)" "log_wf (log_of kept_entry)"
  "uncompacted (log_of e)" "uncompacted new_log" "last_nat (log_of e) = 1" "last_nat new_log = 0"
  "getLastIndex (log_of lost_entry) = 1" "getLastIndex (log_of kept_entry) = 1"
  "getTerm (log_of lost_entry) 1 = 1" "getTerm (log_of kept_entry) 1 = 2" "getTerm (log_of e) 0 = 0" "getTerm new_log 0 = 0"
  "Entries new_log = [dummy_entry]" "Entries (log_of e) = [dummy_entry, e]" "getEntry (log_of e) 1 = Inr e"
  "e_index lost_entry = 1" "e_index kept_entry = 1" "e_term lost_entry = 1" "e_term kept_entry = 2"
  by (simp_all add: getLastIndex_def getLastTerm_def new_log_def log_of_def dummy_entry_def lost_entry_def kept_entry_def
      log_wf_def uncompacted_def last_nat_def getTerm_def getEntry_def getFirstIndex_def less_Suc_eq)

lemma shown_logs_change [simp]:
  "log_append kept_entry new_log = Inr (log_of kept_entry)" "log_append lost_entry new_log = Inr (log_of lost_entry)"
  "log_truncate 1 (log_of e) = Inr new_log"
  by (simp_all add: log_append_def log_truncate_def new_log_def log_of_def dummy_entry_def lost_entry_def kept_entry_def)

section \<open>What the nodes do in the run\<close>

definition sent_args :: "u64 \<Rightarrow> u64 \<Rightarrow> u64 \<Rightarrow> u64 \<Rightarrow> log_entry list \<Rightarrow> u64 \<Rightarrow> append_entries_args" where
  "sent_args t l p pt es c = \<lparr>ae_term = t, ae_leaderId = l, ae_prevLogIndex = p, ae_prevLogTerm = pt, ae_entries = es,
     ae_leaderCommit = c\<rparr>"

definition answer :: "u64 \<Rightarrow> bool \<Rightarrow> append_entries_reply" where
  "answer t b = \<lparr>aer_term = t, aer_success = b, conflictIndex = 0, conflictTerm = 0\<rparr>"

lemma vote_for:
  assumes "t < t'" and "getLastIndex l = 0" and "getLastTerm l = 0"
  shows "handleRequestVote now \<lparr>rv_term = t', rv_candidateId = c, rv_lastLogIndex = 0, rv_lastLogTerm = 0\<rparr>
      (node_state i ps h t v r ld l nx mt x) =
    (Inr \<lparr>rvr_term = t', voteGranted = True\<rparr>, node_state i ps now t' c FOLLOWER 0 l nx mt x)"
proof -
  have "\<not> t' < t" using assms(1) by (rule less_not_sym)
  then show ?thesis using assms(2,3)
    by (simp add: handleRequestVote_def becomeFollower_def consider_vote_def Let_def isLogUpToDate_def assms(1))
qed

lemma hears_heartbeat:
  "handleAppendEntries now (sent_args t ld' 0 0 [] 0) (node_state i ps h t v FOLLOWER ld new_log nx mt False) =
     (Inr (answer t True), node_state i ps now t v FOLLOWER ld' new_log nx mt False)"
  by (simp add: handleAppendEntries_def process_entries_def check_previous_def Let_def store_entries_def advance_commit_def
      sent_args_def answer_def)

lemma takes_entry:
  "handleAppendEntries now (sent_args t ld' 0 0 [kept_entry] 0) (node_state i ps h t v FOLLOWER ld new_log nx mt False) =
     (Inr (answer t True), node_state i ps now t v FOLLOWER ld' (log_of kept_entry) nx mt False)"
  by (simp add: handleAppendEntries_def process_entries_def check_previous_def Let_def store_entries_def advance_commit_def
      sent_args_def answer_def)

lemma refuses_old_term:
  assumes "t < t'"
  shows "handleAppendEntries now (sent_args t ld' p pt es c) (node_state i ps h t' v r ld l nx mt x) =
     (Inr (answer t' False), node_state i ps h t' v r ld l nx mt x)"
  using assms by (simp add: handleAppendEntries_def sent_args_def answer_def)

text \<open>The entry of the old leader replaces the one that was executed.\<close>

lemma loses_entry:
  "handleAppendEntries now (sent_args 2 ld' 0 0 [lost_entry] 0) (node_state i ps h 2 v FOLLOWER ld (log_of kept_entry) nx mt True) =
     (Inr (answer 2 True), node_state i ps now 2 v FOLLOWER ld' (log_of lost_entry) nx mt True)"
  by (simp add: handleAppendEntries_def process_entries_def check_previous_def Let_def store_entries_def advance_commit_def
      sent_args_def answer_def)

lemma no_commit [simp]:
  "updateCommitIndex (node_state i ps h t v LEADER ld new_log nx mt x) = (Inr (), node_state i ps h t v LEADER ld new_log nx mt x)"
proof -
  have "\<not> (if x then 1 else 0) + 1 \<le> (0 :: u64)" by (simp add: word_le_nat_alt)
  then show ?thesis by (simp only: updateCommitIndex_def node_state_simps shown_logs) (subst commit_loop.simps, simp)
qed

lemma executes_kept:
  "applyCommittedEntries (node_state i ps h t v r ld (log_of kept_entry) nx mt False\<lparr>commitIndex := 1\<rparr>) =
     (Inr (), node_state i ps h t v r ld (log_of kept_entry) nx mt True)"
  (is "applyCommittedEntries ?n = (_, ?m)")
proof -
  have "deserialize (command_data kept_entry) = Inr (req_command kept_request)"
    using deserialize_image [of "req_command kept_request" "[]"] by (simp add: kept_entry_def kept_request_def string_ok_def)
  then have "apply_entry kept_entry (?n\<lparr>lastApplied := 1\<rparr>) = ?m"
    by (simp add: apply_entry_def apply_command_def Let_def)
      (simp add: node_state_def initial_node_def kept_store_def kept_request_def)
  moreover have "applyCommittedEntries ?m = (Inr (), ?m)" by (subst applyCommittedEntries.simps) simp
  ultimately show ?thesis by (subst applyCommittedEntries.simps) (simp add: Let_def)
qed

lemma commits_kept:
  "updateCommitIndex (node_state i [p, q] h 2 v LEADER ld (log_of kept_entry) nx [0, 1] False) =
     (Inr (), node_state i [p, q] h 2 v LEADER ld (log_of kept_entry) nx [0, 1] True)"
  (is "updateCommitIndex ?n = (_, ?m)")
proof -
  have "\<not> (2 :: u64) \<le> 1" by (simp add: word_le_nat_alt)
  then have "commit_loop 2 1 ?m = Some (Inr (), ?m)" by (subst commit_loop.simps) simp
  then have "commit_loop 1 1 ?n = Some (Inr (), ?m)"
    by (subst commit_loop.simps) (simp add: executes_kept majority_def replicationCount_def)
  then show ?thesis by (simp add: updateCommitIndex_def)
qed

lemma hears_commit:
  "handleAppendEntries now (sent_args t ld' 1 2 [] 1) (node_state i ps h t v FOLLOWER ld (log_of kept_entry) nx mt False) =
     (Inr (answer t True), node_state i ps now t v FOLLOWER ld' (log_of kept_entry) nx mt True)"
  by (simp add: handleAppendEntries_def process_entries_def check_previous_def Let_def store_entries_def advance_commit_def
      sent_args_def answer_def executes_kept)

lemma no_more_commits [simp]:
  "updateCommitIndex (node_state i ps h t v LEADER ld (log_of kept_entry) nx mt True) =
     (Inr (), node_state i ps h t v LEADER ld (log_of kept_entry) nx mt True)"
proof -
  have "\<not> (2 :: u64) \<le> 1" by (simp add: word_le_nat_alt)
  then show ?thesis by (simp add: updateCommitIndex_def) (subst commit_loop.simps, simp)
qed

lemma leads [simp]:
  "becomeLeader (node_state i [p, q] h t v r ld l nx mt x) =
     node_state i [p, q] h t v LEADER i l ([getLastIndex l + 1, getLastIndex l + 1] @ drop 2 nx) ([0, 0] @ drop 2 mt) x"
  by (simp add: becomeLeader_def Let_def numeral_2_eq_2)

lemma stands [simp]:
  "snd (becomeCandidate (node_state i ps h t v r ld l nx mt x)) = node_state i ps h (t + 1) i CANDIDATE 0 l nx mt x"
  by (simp add: becomeCandidate_def)

lemma first_message [simp]:
  "nx ! k = 1 \<Longrightarrow> append_message k (node_state i ps h t v r ld new_log nx mt False) = sent_args t i 0 0 [] 0"
  "nx ! k = 1 \<Longrightarrow> append_message k (node_state i ps h t v r ld (log_of e) nx mt False) = sent_args t i 0 0 [e] 0"
  "nx ! k = 2 \<Longrightarrow> append_message k (node_state i ps h t v r ld (log_of kept_entry) nx mt True) = sent_args t i 1 2 [] 1"
  by (simp_all add: append_message_def sent_args_def)

section \<open>Rounds\<close>

text \<open>One message of a heartbeat round, arrived or lost.\<close>

lemma replicate_arrives:
  assumes "peerIdToIndexMap n p = Some i" and "log_wf (log n)" and "uncompacted (log n)"
    and "last_nat (log n) < 18446744073709551615" and "0 < nextIndex n ! i"
    and "nodes w p = Some b" and "objects w b = Some m" and "append_message i n = args"
    and "handleAppendEntries (shd (clock w)) args m = (Inr reply, m')"
    and "on_append_reply i args reply n = (Inr (), n')"
    and "w\<lparr>objects := (objects w)(b := Some m'), clock := stl (clock w)\<rparr> = w'"
  shows "replicateToFollower InMemoryRPC p (n, w) = (Inr (), (n', w'))"
  using assms prepare_uncompacted [of n i]
  by (simp add: replicateToFollower_def memory_sendAppendEntries_def call_object_def lift_world_def lift_node_def)

lemma replicate_lost:
  assumes "peerIdToIndexMap n p = Some i" and "log_wf (log n)" and "uncompacted (log n)"
    and "last_nat (log n) < 18446744073709551615" and "nextIndex n ! i = 1" and "nodes w p = None"
  shows "replicateToFollower InMemoryRPC p (n, w) = (Inr (), (n, w))"
proof -
  have "(nextIndex n)[i := 1] = nextIndex n" using assms(5) by (metis list_update_id)
  then show ?thesis using assms prepare_uncompacted [of n i]
    by (simp add: replicateToFollower_def memory_sendAppendEntries_def lift_world_def lift_node_def on_append_reply_def)
qed

lemma run_at_process:
  "f (a, process_of reg None b c t) = (r, (n, process_of reg None b' c' t')) \<Longrightarrow>
     run_at 10 f (process_of reg (Some a) b c t) = (r, process_of reg (Some n) b' c' t')"
  "f (d, process_of reg a' None c t) = (r, (n, process_of reg b' None c' t')) \<Longrightarrow>
     run_at 20 f (process_of reg a' (Some d) c t) = (r, process_of reg b' (Some n) c' t')"
  by (simp_all add: run_at_def)

text \<open>Rounds of a node with two peers.\<close>

lemma heartbeat_round:
  assumes "peerIds n = [p, q]" and "replicateToFollower rpc p (n, w) = (Inr (), s)"
    and "replicateToFollower rpc q s = (Inr (), s')"
  shows "sendHeartbeats rpc (n, w) = (Inr (), s')"
  using assms by (simp add: sendHeartbeats_def)

lemma won_election:
  assumes "peerIds n = [p, q]" and "nodeId n = i" and "persistence n = None"
    and "n1 = resetElectionTimer now (snd (becomeCandidate n))"
    and "args = \<lparr>rv_term = currentTerm n + 1, rv_candidateId = i, rv_lastLogIndex = getLastIndex (log n),
      rv_lastLogTerm = getLastTerm (log n)\<rparr>"
    and "sendRequestVote rpc p args 100 w = (Inr r1, w1)" and "rvr_term r1 \<le> currentTerm n + 1"
    and "sendRequestVote rpc q args 100 w1 = (Inr r2, w2)" and "rvr_term r2 \<le> currentTerm n + 1"
    and "voteGranted r1 \<or> voteGranted r2" and "sendHeartbeats rpc (becomeLeader n1, w2) = s"
  shows "startElection rpc now (n, w) = s"
proof -
  have n1: "peerIds n1 = [p, q]" "currentTerm n1 = currentTerm n + 1" "nodeId n1 = i" "log n1 = log n"
    using assms(1,2,4) by simp_all
  have "begin_election now n = (Inr args, n1)"
    using assms(3) n1 by (simp add: begin_election_def becomeCandidate_def persistState_def assms(2,4,5) Let_def)
  moreover have "on_vote_result (Inr r) v n1 = (Inr (Some (if voteGranted r then v + 1 else v)), n1)"
    if "rvr_term r \<le> currentTerm n + 1" for r v
    using that n1(2) by (simp add: on_vote_result_def not_less [symmetric])
  then have "vote_loop rpc args [p, q] 1 (n1, w) =
      (Inr (Some (1 + (if voteGranted r1 then 1 else 0) + (if voteGranted r2 then 1 else 0))), (n1, w2))"
    using assms(6-9) by (simp add: lift_node_def)
  moreover have "majority n1 = 2" using n1(1) by (simp add: majority_def)
  ultimately show ?thesis using n1(1) assms(10,11)
    by (auto simp: startElection_def lift_node_def finish_election_def simp del: vote_loop.simps)
qed

section \<open>The run\<close>

lemma node_1_elected:
  "perform (Election_timer 10) three_nodes = (Inr (), process_of [1 \<mapsto> 10, 2 \<mapsto> 20, 3 \<mapsto> 30]
     (Some (node_state 1 [2, 3] 400000000 1 1 LEADER 1 new_log [1, 1] [0, 0] False))
     (Some (node_state 2 [1, 3] 1000000000 1 1 FOLLOWER 1 new_log [1, 1] [0, 0] False))
     (Some (node_state 3 [1, 2] 1200000000 1 1 FOLLOWER 1 new_log [1, 1] [0, 0] False)) 1400000000)"
proof -
  let ?reg = "[1 \<mapsto> 10, 2 \<mapsto> 20, 3 \<mapsto> 30]"
  let ?n = "node_state 1 [2, 3] 0 0 0 FOLLOWER 0 new_log [1, 1] [0, 0] False"
  let ?l = "node_state 1 [2, 3] 400000000 1 1 LEADER 1 new_log [1, 1] [0, 0] False"
  let ?b = "\<lambda>h t v ld. Some (node_state 2 [1, 3] h t v FOLLOWER ld new_log [1, 1] [0, 0] False)"
  let ?c = "\<lambda>h t v ld. Some (node_state 3 [1, 2] h t v FOLLOWER ld new_log [1, 1] [0, 0] False)"
  let ?w = "\<lambda>b c t. process_of ?reg None b c t"
  let ?args = "\<lparr>rv_term = 1, rv_candidateId = 1, rv_lastLogIndex = 0, rv_lastLogTerm = 0\<rparr>"
  have vote2: "sendRequestVote InMemoryRPC 2 ?args 100 (?w (?b 0 0 0 0) (?c 0 0 0 0) 600000000) =
      (Inr \<lparr>rvr_term = 1, voteGranted = True\<rparr>, ?w (?b 600000000 1 1 0) (?c 0 0 0 0) 800000000)"
    by (simp add: memory_sendRequestVote_def call_object_def vote_for)
  have vote3: "sendRequestVote InMemoryRPC 3 ?args 100 (?w (?b 600000000 1 1 0) (?c 0 0 0 0) 800000000) =
      (Inr \<lparr>rvr_term = 1, voteGranted = True\<rparr>, ?w (?b 600000000 1 1 0) (?c 800000000 1 1 0) 1000000000)"
    by (simp add: memory_sendRequestVote_def call_object_def vote_for)
  have "replicateToFollower InMemoryRPC 2 (?l, ?w (?b 600000000 1 1 0) (?c 800000000 1 1 0) 1000000000) =
      (Inr (), (?l, ?w (?b 1000000000 1 1 1) (?c 800000000 1 1 0) 1200000000))"
    by (rule replicate_arrives [where i = 0 and b = 20 and args = "sent_args 1 1 0 0 [] 0", OF _ _ _ _ _ _ _ _ hears_heartbeat])
      (simp_all add: on_append_reply_def answer_def, simp_all add: sent_args_def)
  moreover have "replicateToFollower InMemoryRPC 3 (?l, ?w (?b 1000000000 1 1 1) (?c 800000000 1 1 0) 1200000000) =
      (Inr (), (?l, ?w (?b 1000000000 1 1 1) (?c 1200000000 1 1 1) 1400000000))"
    by (rule replicate_arrives [where i = 1 and b = 30 and args = "sent_args 1 1 0 0 [] 0", OF _ _ _ _ _ _ _ _ hears_heartbeat])
      (simp_all add: on_append_reply_def answer_def, simp_all add: sent_args_def)
  ultimately have "sendHeartbeats InMemoryRPC (?l, ?w (?b 600000000 1 1 0) (?c 800000000 1 1 0) 1000000000) =
      (Inr (), (?l, ?w (?b 1000000000 1 1 1) (?c 1200000000 1 1 1) 1400000000))"
    by (rule heartbeat_round [rotated]) simp
  then have "startElection InMemoryRPC 400000000 (?n, ?w (?b 0 0 0 0) (?c 0 0 0 0) 600000000) =
      (Inr (), (?l, ?w (?b 1000000000 1 1 1) (?c 1200000000 1 1 1) 1400000000))"
    by (intro won_election [OF _ _ _ refl _ vote2 _ vote3]) simp_all
  then show ?thesis
    unfolding three_nodes new_node perform.simps process_of_simps
    by (intro run_at_process) (simp add: electionTimer_tick_def to_milliseconds_def)
qed

lemma takes_request:
  assumes "req_command request = c" and "command_ok c" and "e_index e = 1" and "e_term e = t" and "command_data e = command_image c"
    and "log_append e new_log = Inr (log_of e)"
  shows "lift_request request (node_state i ps h t v LEADER ld new_log nx mt False, w) =
    (Inr (), (node_state i ps h t v LEADER ld (log_of e) nx mt False, w))"
proof -
  have "\<lparr>e_index = 1, e_term = t, command_data = command_image c\<rparr> = e" using assms(3-5) by simp
  then show ?thesis
    using assms(1,2,6) by (simp add: lift_request_def lift_node_def handleClientRequest_def already_applied_def Let_def serialize_image
        split: unit.split)
qed

lemma lost_command:
  "perform (Client 10 lost_request) (process_of reg (Some (node_state 1 ps h 1 v LEADER ld new_log nx mt False)) b c t) =
     (Inr (), process_of reg (Some (node_state 1 ps h 1 v LEADER ld (log_of lost_entry) nx mt False)) b c t)"
  unfolding perform.simps
  by (intro run_at_process takes_request [OF refl]) (simp_all add: lost_request_def string_ok_def, simp add: lost_entry_def)

lemma kept_command:
  "perform (Client 20 kept_request) (process_of reg a (Some (node_state 2 ps h 2 v LEADER ld new_log nx mt False)) c t) =
     (Inr (), process_of reg a (Some (node_state 2 ps h 2 v LEADER ld (log_of kept_entry) nx mt False)) c t)"
  unfolding perform.simps
  by (intro run_at_process takes_request [OF refl]) (simp_all add: kept_request_def string_ok_def, simp add: kept_entry_def)

text \<open>From here on node 1 is not registered.\<close>

abbreviation two_registered :: "u64 \<rightharpoonup> address" where
  "two_registered \<equiv> [2 \<mapsto> 20, 3 \<mapsto> 30]"

lemma node_1_leaves:
  "perform (Unregister 1) (process_of [1 \<mapsto> 10, 2 \<mapsto> 20, 3 \<mapsto> 30] a b c t) = (Inr (), process_of two_registered a b c t)"
  by (simp add: unregisterNode_def process_of_def fun_upd_def fun_eq_iff)

lemma node_2_elected:
  "perform (Election_timer 20) (process_of two_registered a
     (Some (node_state 2 [1, 3] 1000000000 1 1 FOLLOWER 1 new_log [1, 1] [0, 0] False))
     (Some (node_state 3 [1, 2] 1200000000 1 1 FOLLOWER 1 new_log [1, 1] [0, 0] False)) 1400000000) =
   (Inr (), process_of two_registered a
     (Some (node_state 2 [1, 3] 1600000000 2 2 LEADER 2 new_log [1, 1] [0, 0] False))
     (Some (node_state 3 [1, 2] 2000000000 2 2 FOLLOWER 2 new_log [1, 1] [0, 0] False)) 2200000000)"
proof -
  let ?n = "node_state 2 [1, 3] 1000000000 1 1 FOLLOWER 1 new_log [1, 1] [0, 0] False"
  let ?l = "node_state 2 [1, 3] 1600000000 2 2 LEADER 2 new_log [1, 1] [0, 0] False"
  let ?c = "\<lambda>h t v ld. Some (node_state 3 [1, 2] h t v FOLLOWER ld new_log [1, 1] [0, 0] False)"
  let ?w = "\<lambda>c t. process_of two_registered a None c t"
  let ?args = "\<lparr>rv_term = 2, rv_candidateId = 2, rv_lastLogIndex = 0, rv_lastLogTerm = 0\<rparr>"
  have vote1: "sendRequestVote InMemoryRPC 1 ?args 100 (?w (?c 1200000000 1 1 1) 1800000000) =
      (Inr \<lparr>rvr_term = 0, voteGranted = False\<rparr>, ?w (?c 1200000000 1 1 1) 1800000000)"
    by (simp add: memory_sendRequestVote_def)
  have vote3: "sendRequestVote InMemoryRPC 3 ?args 100 (?w (?c 1200000000 1 1 1) 1800000000) =
      (Inr \<lparr>rvr_term = 2, voteGranted = True\<rparr>, ?w (?c 1800000000 2 2 0) 2000000000)"
    by (simp add: memory_sendRequestVote_def call_object_def vote_for)
  have "replicateToFollower InMemoryRPC 1 (?l, ?w (?c 1800000000 2 2 0) 2000000000) = (Inr (), (?l, ?w (?c 1800000000 2 2 0) 2000000000))"
    by (rule replicate_lost [where i = 0]) simp_all
  moreover have "replicateToFollower InMemoryRPC 3 (?l, ?w (?c 1800000000 2 2 0) 2000000000) =
      (Inr (), (?l, ?w (?c 2000000000 2 2 2) 2200000000))"
    by (rule replicate_arrives [where i = 1 and b = 30 and args = "sent_args 2 2 0 0 [] 0", OF _ _ _ _ _ _ _ _ hears_heartbeat])
      (simp_all add: on_append_reply_def answer_def, simp_all add: sent_args_def)
  ultimately have "sendHeartbeats InMemoryRPC (?l, ?w (?c 1800000000 2 2 0) 2000000000) =
      (Inr (), (?l, ?w (?c 2000000000 2 2 2) 2200000000))"
    by (rule heartbeat_round [rotated]) simp
  then have "startElection InMemoryRPC 1600000000 (?n, ?w (?c 1200000000 1 1 1) 1800000000) =
      (Inr (), (?l, ?w (?c 2000000000 2 2 2) 2200000000))"
    by (intro won_election [OF _ _ _ refl _ vote1 _ vote3]) simp_all
  then show ?thesis
    unfolding perform.simps process_of_simps
    by (intro run_at_process) (simp add: electionTimer_tick_def to_milliseconds_def)
qed

lemma kept_replicated:
  "perform (Heartbeat_timer 20) (process_of two_registered a
     (Some (node_state 2 [1, 3] h 2 2 LEADER 2 (log_of kept_entry) [1, 1] [0, 0] False))
     (Some (node_state 3 [1, 2] h' 2 2 FOLLOWER 2 new_log [1, 1] [0, 0] False)) t) =
   (Inr (), process_of two_registered a
     (Some (node_state 2 [1, 3] h 2 2 LEADER 2 (log_of kept_entry) [1, 2] [0, 1] True))
     (Some (node_state 3 [1, 2] t 2 2 FOLLOWER 2 (log_of kept_entry) [1, 1] [0, 0] False)) (t + 200000000))"
proof -
  let ?n = "node_state 2 [1, 3] h 2 2 LEADER 2 (log_of kept_entry) [1, 1] [0, 0] False"
  let ?n' = "node_state 2 [1, 3] h 2 2 LEADER 2 (log_of kept_entry) [1, 2] [0, 1] True"
  let ?c = "Some (node_state 3 [1, 2] h' 2 2 FOLLOWER 2 new_log [1, 1] [0, 0] False)"
  let ?c' = "Some (node_state 3 [1, 2] t 2 2 FOLLOWER 2 (log_of kept_entry) [1, 1] [0, 0] False)"
  let ?w = "\<lambda>c t. process_of two_registered a None c t"
  have "replicateToFollower InMemoryRPC 1 (?n, ?w ?c t) = (Inr (), (?n, ?w ?c t))"
    by (rule replicate_lost [where i = 0]) simp_all
  moreover have "replicateToFollower InMemoryRPC 3 (?n, ?w ?c t) = (Inr (), (?n', ?w ?c' (t + 200000000)))"
    by (rule replicate_arrives [where i = 1 and b = 30 and args = "sent_args 2 2 0 0 [kept_entry] 0", OF _ _ _ _ _ _ _ _ takes_entry])
      (simp_all add: on_append_reply_def answer_def, simp_all add: sent_args_def commits_kept)
  ultimately have "sendHeartbeats InMemoryRPC (?n, ?w ?c t) = (Inr (), (?n', ?w ?c' (t + 200000000)))"
    by (rule heartbeat_round [rotated]) simp
  then show ?thesis
    unfolding perform.simps by (intro run_at_process) (simp add: heartbeatTimer_tick_def)
qed

lemma kept_confirmed:
  "perform (Heartbeat_timer 20) (process_of two_registered a
     (Some (node_state 2 [1, 3] h 2 2 LEADER 2 (log_of kept_entry) [1, 2] [0, 1] True))
     (Some (node_state 3 [1, 2] h' 2 2 FOLLOWER 2 (log_of kept_entry) [1, 1] [0, 0] False)) t) =
   (Inr (), process_of two_registered a
     (Some (node_state 2 [1, 3] h 2 2 LEADER 2 (log_of kept_entry) [1, 2] [0, 1] True))
     (Some (node_state 3 [1, 2] t 2 2 FOLLOWER 2 (log_of kept_entry) [1, 1] [0, 0] True)) (t + 200000000))"
proof -
  let ?n = "node_state 2 [1, 3] h 2 2 LEADER 2 (log_of kept_entry) [1, 2] [0, 1] True"
  let ?c = "Some (node_state 3 [1, 2] h' 2 2 FOLLOWER 2 (log_of kept_entry) [1, 1] [0, 0] False)"
  let ?c' = "Some (node_state 3 [1, 2] t 2 2 FOLLOWER 2 (log_of kept_entry) [1, 1] [0, 0] True)"
  let ?w = "\<lambda>c t. process_of two_registered a None c t"
  have "replicateToFollower InMemoryRPC 1 (?n, ?w ?c t) = (Inr (), (?n, ?w ?c t))"
    by (rule replicate_lost [where i = 0]) simp_all
  moreover have "replicateToFollower InMemoryRPC 3 (?n, ?w ?c t) = (Inr (), (?n, ?w ?c' (t + 200000000)))"
    by (rule replicate_arrives [where i = 1 and b = 30 and args = "sent_args 2 2 1 2 [] 1", OF _ _ _ _ _ _ _ _ hears_commit])
      (simp_all add: on_append_reply_def answer_def, simp_all add: sent_args_def)
  ultimately have "sendHeartbeats InMemoryRPC (?n, ?w ?c t) = (Inr (), (?n, ?w ?c' (t + 200000000)))"
    by (rule heartbeat_round [rotated]) simp
  then show ?thesis
    unfolding perform.simps by (intro run_at_process) (simp add: heartbeatTimer_tick_def)
qed

lemma kept_overwritten:
  "perform (Heartbeat_timer 10) (process_of two_registered
     (Some (node_state 1 [2, 3] h 1 1 LEADER 1 (log_of lost_entry) [1, 1] [0, 0] False))
     (Some (node_state 2 ps h' 2 2 LEADER 2 l nx mt x))
     (Some (node_state 3 [1, 2] h'' 2 2 FOLLOWER 2 (log_of kept_entry) [1, 1] [0, 0] True)) t) =
   (Inr (), process_of two_registered
     (Some (node_state 1 [2, 3] h 2 0 FOLLOWER 0 (log_of lost_entry) [1, 2] [0, 1] False))
     (Some (node_state 2 ps h' 2 2 LEADER 2 l nx mt x))
     (Some (node_state 3 [1, 2] (t + 200000000) 2 2 FOLLOWER 1 (log_of lost_entry) [1, 1] [0, 0] True)) (t + 400000000))"
proof -
  let ?n = "node_state 1 [2, 3] h 1 1 LEADER 1 (log_of lost_entry) [1, 1] [0, 0] False"
  let ?former = "node_state 1 [2, 3] h 2 0 FOLLOWER 0 (log_of lost_entry) [1, 1] [0, 0] False"
  let ?n' = "node_state 1 [2, 3] h 2 0 FOLLOWER 0 (log_of lost_entry) [1, 2] [0, 1] False"
  let ?b = "Some (node_state 2 ps h' 2 2 LEADER 2 l nx mt x)"
  let ?c = "Some (node_state 3 [1, 2] h'' 2 2 FOLLOWER 2 (log_of kept_entry) [1, 1] [0, 0] True)"
  let ?c' = "Some (node_state 3 [1, 2] (t + 200000000) 2 2 FOLLOWER 1 (log_of lost_entry) [1, 1] [0, 0] True)"
  let ?w = "\<lambda>c t. process_of two_registered None ?b c t"
  have old: "(1 :: u64) < 2" by (simp add: word_less_nat_alt)
  have "replicateToFollower InMemoryRPC 2 (?n, ?w ?c t) = (Inr (), (?former, ?w ?c (t + 200000000)))"
    by (rule replicate_arrives [where i = 0 and b = 20 and args = "sent_args 1 1 0 0 [lost_entry] 0",
        OF _ _ _ _ _ _ _ _ refuses_old_term [OF old]])
      (simp_all add: on_append_reply_def answer_def becomeFollower_def)
  moreover have "replicateToFollower InMemoryRPC 3 (?former, ?w ?c (t + 200000000)) = (Inr (), (?n', ?w ?c' (t + 400000000)))"
    by (rule replicate_arrives [where i = 1 and b = 30 and args = "sent_args 2 1 0 0 [lost_entry] 0",
        OF _ _ _ _ _ _ _ _ loses_entry])
      (simp_all add: on_append_reply_def answer_def, simp_all add: sent_args_def updateCommitIndex_def add.commute)
  ultimately have "sendHeartbeats InMemoryRPC (?n, ?w ?c t) = (Inr (), (?n', ?w ?c' (t + 400000000)))"
    by (rule heartbeat_round [rotated]) simp
  then show ?thesis
    unfolding perform.simps by (intro run_at_process) (simp add: heartbeatTimer_tick_def)
qed

lemma committing_run:
  "perform_all committing_run three_nodes = (Inr (), process_of two_registered
     (Some (node_state 1 [2, 3] 400000000 1 1 LEADER 1 (log_of lost_entry) [1, 1] [0, 0] False))
     (Some (node_state 2 [1, 3] 1600000000 2 2 LEADER 2 (log_of kept_entry) [1, 2] [0, 1] True))
     (Some (node_state 3 [1, 2] 2400000000 2 2 FOLLOWER 2 (log_of kept_entry) [1, 1] [0, 0] True)) 2600000000)"
  unfolding committing_run_def
  by (simp add: node_1_elected lost_command node_1_leaves node_2_elected kept_command kept_replicated kept_confirmed
      del: perform.simps)

text \<open>
  C38. A committed entry can be overwritten, for \<open>sendHeartbeats\<close> goes on after its node has stepped
  down. Three nodes come from their constructors and run over the in-memory transport. Node 1 wins
  term 1 and takes a command that it sends to nobody; it leaves the transport, so that no message
  reaches it; node 2 wins term 2 and takes a command; nodes 2 and 3 commit and execute it, while node
  1 is still leader of term 1. With the next round of its heartbeat timer node 1 learns from node 2
  of term 2, becomes a follower, and still sends its own entry to node 3 in the name of term 2; node
  3 puts it in the place of the entry that it has committed and executed. In the end nodes 2 and 3
  have both committed index 1 and hold different entries there.
\<close>

theorem stepped_down_leader_overwrites:
  "\<exists>w w' n l m n' l' m'. perform_all committing_run three_nodes = (Inr (), w) \<and>
     objects w 10 = Some n \<and> objects w 20 = Some l \<and> objects w 30 = Some m \<and>
     role n = LEADER \<and> currentTerm n = 1 \<and> role l = LEADER \<and> currentTerm l = 2 \<and>
     commitIndex l = 1 \<and> lastApplied l = 1 \<and> getEntry (log l) 1 = Inr kept_entry \<and>
     commitIndex m = 1 \<and> lastApplied m = 1 \<and> getEntry (log m) 1 = Inr kept_entry \<and>
     run_at 10 (heartbeatTimer_tick InMemoryRPC) w = (Inr (), w') \<and>
     run_at 10 (sendHeartbeats InMemoryRPC) w = (Inr (), w') \<and>
     objects w' 10 = Some n' \<and> objects w' 20 = Some l' \<and> objects w' 30 = Some m' \<and>
     role n' = FOLLOWER \<and> currentTerm n' = 2 \<and>
     commitIndex l' = 1 \<and> getEntry (log l') 1 = Inr kept_entry \<and>
     commitIndex m' = 1 \<and> lastApplied m' = 1 \<and> getEntry (log m') 1 = Inr lost_entry \<and> lost_entry \<noteq> kept_entry"
proof -
  have "run_at 10 (sendHeartbeats InMemoryRPC) w = run_at 10 (heartbeatTimer_tick InMemoryRPC) w"
    if "objects w 10 = Some n" "running n" "role n = LEADER" for w n
    using that by (simp add: run_at_def heartbeatTimer_tick_def)
  moreover have "lost_entry \<noteq> kept_entry" by (simp add: lost_entry_def kept_entry_def)
  ultimately show ?thesis
    using committing_run kept_overwritten [of 400000000] by (simp del: perform_all.simps)
qed

end
