(* ===== verification/Replicated_Service.thy ===== *)
theory Replicated_Service
  imports Commit_Round
begin

text \<open>
  The cluster as one service: while its leader is not disturbed and its followers can be reached,
  each client request takes effect exactly once, on every replica, as on a single copy of the
  service.
\<close>

section \<open>A follower executes what the leader committed\<close>

text \<open>A node with the parts that execution reads as they were.\<close>

definition same_service :: "raft_node \<Rightarrow> raft_node \<Rightarrow> bool" where
  "same_service n m \<longleftrightarrow> commitIndex m = commitIndex n \<and> lastApplied m = lastApplied n \<and>
     kvStore m = kvStore n \<and> lastAppliedSeq m = lastAppliedSeq n"

lemma same_service_store_entries: "same_service n (snd (store_entries args n))"
  by (simp add: same_service_def store_entries_def snd_andThen persistState_def
      split: prod.split sum.split option.split)

lemma same_service_becomeFollower: "same_service n (snd (becomeFollower t n))"
  by (simp add: same_service_def)

lemma same_service_trans: "same_service a b \<Longrightarrow> same_service b c \<Longrightarrow> same_service a c"
  by (simp add: same_service_def)

text \<open>An \<open>AppendEntries\<close> executes nothing, or the entries of the new log up to its commit index.\<close>

definition executes :: "append_entries_args \<Rightarrow> append_entries_reply \<Rightarrow> raft_node \<Rightarrow> raft_node \<Rightarrow> bool" where
  "executes args reply n n' \<longleftrightarrow>
     same_service n n' \<and> (aer_success reply \<longrightarrow> ae_leaderCommit args \<le> commitIndex n) \<or>
     (\<exists>n1. same_service n n1 \<and> log n1 = log n' \<and> commitIndex n < ae_leaderCommit args \<and>
        applyCommittedEntries (n1\<lparr>commitIndex := min (ae_leaderCommit args) (getLastIndex (log n'))\<rparr>) = (Inr (), n'))"

lemma process_entries_executes:
  assumes "process_entries now args n = (Inr reply, n')"
  shows "executes args reply n n'"
proof -
  let ?m = "resetElectionTimer now (n\<lparr>currentLeaderId := ae_leaderId args\<rparr>)"
  have m: "same_service n ?m" by (simp add: same_service_def)
  show ?thesis
  proof (cases "check_previous args ?m")
    case (Some r)
    with assms m check_previous_Some [OF Some] show ?thesis by (auto simp: process_entries_def Let_def executes_def)
  next
    case None
    with assms obtain n1 where n1: "store_entries args ?m = (Inr (), n1)" "advance_commit args n1 = (Inr (), n')"
      by (auto simp: process_entries_def Let_def andThen_Inr_iff)
    have s: "same_service n n1" using same_service_trans [OF m same_service_store_entries [of ?m args]] n1(1) by simp
    show ?thesis
    proof (cases "commitIndex n1 < ae_leaderCommit args")
      case True
      then have "applyCommittedEntries (n1\<lparr>commitIndex := min (ae_leaderCommit args) (getLastIndex (log n1))\<rparr>) = (Inr (), n')"
        using n1(2) by (simp add: advance_commit_def)
      moreover from this have "log n' = log n1"
        using applyCommittedEntries_frame(1) [of "n1\<lparr>commitIndex := min (ae_leaderCommit args) (getLastIndex (log n1))\<rparr>"]
        by simp
      ultimately show ?thesis using s True by (auto simp: executes_def same_service_def)
    next
      case False
      with n1(2) s show ?thesis by (auto simp: advance_commit_def executes_def same_service_def)
    qed
  qed
qed

lemma handleAppendEntries_executes:
  assumes "handleAppendEntries now args n = (Inr reply, n')"
  shows "executes args reply n n'"
proof -
  have bf: "same_service n m" if "becomeFollower t n = (r, m)" for t r m
    using same_service_becomeFollower [of n t] that by simp
  consider "n' = n" "\<not> aer_success reply" | m where "process_entries now args m = (Inr reply, n')" "same_service n m"
  proof (cases "ae_term args < currentTerm n")
    case True
    with assms that(1) show ?thesis by (simp add: handleAppendEntries_def) force
  next
    case False
    with assms obtain m where "process_entries now args m = (Inr reply, n')" "m = n \<or> (\<exists>t r. becomeFollower t n = (r, m))"
      by (auto simp: handleAppendEntries_def andThen_Inr_iff split: if_splits)
    with bf that(2) [of m] show ?thesis by (auto simp: same_service_def)
  qed
  then show ?thesis
  proof cases
    case 1
    then show ?thesis by (simp add: executes_def same_service_def)
  next
    case 2
    from process_entries_executes [OF 2(1)] 2(2) show ?thesis
      unfolding executes_def same_service_def by metis
  qed
qed

section \<open>Replicas\<close>

lemma entries_between_cong:
  "(\<And>j. a < j \<Longrightarrow> j \<le> b \<Longrightarrow> log_map l j = log_map l' j) \<Longrightarrow> entries_between l a b = entries_between l' a b"
  by (simp add: entries_between_def Suc_le_eq less_Suc_eq_le del: upt_Suc)

text \<open>
  A follower whose log ends with the leader's, which has executed what it has committed, and which
  comes to the service of the leader's whole log by executing the rest.
\<close>

definition follows :: "raft_node \<Rightarrow> raft_node \<Rightarrow> bool" where
  "follows n m \<longleftrightarrow> kv_wf (kvStore m) \<and> lastApplied m = commitIndex m \<and> commitIndex m \<le> getLastIndex (log n) \<and>
     last_nat (log m) \<le> last_nat (log n) \<and>
     fold exec_once (decode_commands (entries_between (log n) (unat (lastApplied m)) (last_nat (log n)))) (service_of m) =
       service_at n (getLastIndex (log n))"

lemma same_service_of: "same_service n m \<Longrightarrow> service_of m = service_of n"
  by (simp add: same_service_def service_of_def)

lemma follows_executes:
  assumes "follows n m" and "whole_follower n m'" and "executes args reply m m'" and "last_nat (log m') \<le> last_nat (log n)"
    and "ae_leaderCommit args \<le> getLastIndex (log n)" and "log_wf (log n)" and "uncompacted (log n)"
  shows "follows n m' \<and>
    (aer_success reply \<and> ae_leaderCommit args = getLastIndex (log n) \<longrightarrow> commitIndex m' = getLastIndex (log n))"
proof -
  let ?lst = "getLastIndex (log n)"
  have m: "kv_wf (kvStore m)" "lastApplied m = commitIndex m" "commitIndex m \<le> ?lst"
    "fold exec_once (decode_commands (entries_between (log n) (unat (lastApplied m)) (last_nat (log n)))) (service_of m) =
       service_at n ?lst"
    using assms(1) unfolding follows_def by blast+
  have w: "log_wf (log m')" "uncompacted (log m')" using assms(2) by (simp_all add: whole_follower_def)
  note map = whole_follower_agrees(1) [OF assms(2,6,7)]
  have lastn: "unat ?lst = last_nat (log n)" by (rule getLastIndex_nat [OF assms(6)])
  from assms(4) whole_follower_agrees(2) [OF assms(2,6,7)] have last: "getLastIndex (log m') = ?lst"
    using getLastIndex_nat [OF w(1)] lastn by (simp add: word_unat_eq_iff)
  show ?thesis
  proof (cases "same_service m m' \<and> (aer_success reply \<longrightarrow> ae_leaderCommit args \<le> commitIndex m)")
    case True
    then have "follows n m'"
      using m assms(4) same_service_of [of m m'] by (simp add: follows_def same_service_def)
    with True m(3) show ?thesis by (auto simp: same_service_def)
  next
    case False
    let ?c = "min (ae_leaderCommit args) ?lst"
    have c: "?c = ae_leaderCommit args" using assms(5) by (simp add: min_def)
    from False assms(3) obtain n1 where n1: "same_service m n1" "log n1 = log m'" "commitIndex m < ae_leaderCommit args"
      "applyCommittedEntries (n1\<lparr>commitIndex := ?c\<rparr>) = (Inr (), m')"
      unfolding executes_def last by blast
    have le: "lastApplied n1 = lastApplied m" "lastApplied m \<le> ?c" "?c \<le> ?lst"
      using n1(1,3) m(2) c assms(5) by (simp_all add: same_service_def less_imp_le)
    have "applicable n1 ?c"
      using n1(1-3) w(1,2) m(1,2) c last assms(5) by (simp add: applicable_def same_service_def uncompacted_def less_imp_le)
    from apply_to [OF this] n1(4) have r: "commitIndex m' = ?c" "lastApplied m' = ?c" "service_of m' = service_at n1 ?c"
      "kv_wf (kvStore m')" by simp_all
    have "entries_between (log m') a b = entries_between (log n) a b" if "b \<le> last_nat (log n)" for a b
      by (rule entries_between_cong) (use map that in auto)
    then have "service_of m' = fold exec_once (decode_commands (entries_between (log n) (unat (lastApplied m)) (unat ?c))) (service_of m)"
      using r(3) le n1(2) same_service_of [OF n1(1)] lastn by (simp add: service_at_def word_le_nat_alt)
    then have "fold exec_once (decode_commands (entries_between (log n) (unat ?c) (last_nat (log n)))) (service_of m') =
        service_at n ?lst"
      using m(4) entries_between_split [of "unat (lastApplied m)" "unat ?c" "last_nat (log n)" "log n"] le lastn
      by (simp add: decode_commands_append word_le_nat_alt)
    then have "follows n m'" using r le(3) assms(4) by (simp add: follows_def)
    moreover have "commitIndex m' = ?lst" if "ae_leaderCommit args = ?lst" using r(1) that by simp
    ultimately show ?thesis by blast
  qed
qed

lemma follows_kept:
  assumes "log_wf (log n)" and "uncompacted (log n)"
  shows "kept_in_round (follows n) n"
  unfolding kept_in_round_def
proof (intro allI impI, elim conjE)
  fix n' m i now reply m'
  assume lead: "leading n n'" and step: "in_step i n' m" and fol: "follows n m"
    and h: "handleAppendEntries now (append_message i n') m = (Inr reply, m')"
  have n': "log n' = log n" "currentTerm n' = currentTerm n" "commitIndex n' \<le> getLastIndex (log n)"
    using lead by (simp_all add: leading_def applicable_def)
  from append_accepted [OF step, of now] h have w: "whole_follower n' m'"
    "last_nat (log m') \<le> max (last_nat (log m)) (last_nat (log n))" by (simp_all add: n'(1))
  have "whole_follower n m'" by (rule whole_follower_frame [OF w(1)]) (simp_all add: n')
  moreover have "last_nat (log m') \<le> last_nat (log n)" using w(2) fol by (simp add: follows_def)
  moreover have "ae_leaderCommit (append_message i n') \<le> getLastIndex (log n)" using n'(3) by (simp add: append_message_def)
  ultimately show "follows n m'"
    using follows_executes [OF fol _ handleAppendEntries_executes [OF h] _ _ assms] by blast
qed

section \<open>A round without new entries\<close>

lemma nothing_to_commit:
  assumes "commitIndex n = getLastIndex (log n)" and "unat (getLastIndex (log n)) < 18446744073709551615"
  shows "updateCommitIndex n = (Inr (), n)"
proof -
  have "\<not> getLastIndex (log n) + 1 \<le> getLastIndex (log n)"
    using less_max_plus1 [OF order_refl assms(2)] by (simp add: word_le_nat_alt)
  then show ?thesis by (simp add: updateCommitIndex_def assms(1) commit_loop.simps [of "getLastIndex (log n) + 1"])
qed

text \<open>The leader has committed everything and offers a follower that has everything the end of its log.\<close>

lemma idle_offer:
  assumes "leading n n" and "commitIndex n = getLastIndex (log n)" and "nextIndex n ! k = getLastIndex (log n) + 1"
    and "whole_follower n m" and "follows n m"
  shows "\<exists>reply m'. handleAppendEntries now (append_message k n) m = (Inr reply, m') \<and>
    (whole_follower n m' \<and> follows n m' \<and> commitIndex m' = getLastIndex (log n)) \<and>
    on_append_reply k (append_message k n) reply n = (Inr (), n)"
proof -
  let ?a = "append_message k n" and ?lst = "getLastIndex (log n)"
  have n: "log_wf (log n)" "uncompacted (log n)" "last_nat (log n) < 18446744073709551615"
    using assms(1) by (auto simp: leading_def applicable_def)
  have m: "disk_ok m" "log_wf (log m)" "uncompacted (log m)" "currentTerm m = currentTerm n"
    "last_nat (log m) < 18446744073709551615"
    using assms(4) by (simp_all add: whole_follower_def caught_up_def)
  have lastn: "unat ?lst = last_nat (log n)" by (rule getLastIndex_nat [OF n(1)])
  have nxt: "unat (nextIndex n ! k) = Suc (last_nat (log n))"
    using lastn n(3) by (simp add: assms(3) unat_u64_plus1)
  have "length (Entries (log n)) = Suc (last_nat (log n))"
    using uncompacted_log_map(1) [OF n(1,2)] log_wf_nonempty [OF n(1)] by (cases "Entries (log n)") simp_all
  with nxt have a: "ae_entries ?a = []" "ae_prevLogIndex ?a = ?lst" "ae_term ?a = currentTerm m" "ae_leaderCommit ?a = ?lst"
    "ae_prevLogTerm ?a = getTerm (log n) ?lst"
    using assms(2,3) m(4) by (simp_all add: append_message_def)
  have mp: "matches_previous ?a m"
    by (rule whole_follower_matches [OF assms(4) n(1,2)]) (simp_all add: a lastn)
  note merge = handleAppendEntries_merge [OF m(1-3), of ?a now]
  from merge mp obtain reply m' where h: "handleAppendEntries now ?a m = (Inr reply, m')"
    using a lastn n(3) by auto
  from merge [unfolded h] mp have r: "aer_term reply = currentTerm n" "aer_success reply" "currentTerm m' = currentTerm n"
    "log_wf (log m')" "uncompacted (log m')" "tl (Entries (log m')) = tl (Entries (log m))"
    using a lastn n(3) m(4) by simp_all
  note same = tail_map_eq [OF r(4,5) m(2,3) r(6)]
  have "disk_ok m'" using disk_ok_handlers(2) [OF m(1), of now ?a] h by simp
  then have w: "whole_follower n m'"
    using assms(4) r same by (simp add: whole_follower_def caught_up_def)
  have "last_nat (log m') \<le> last_nat (log n)" using assms(5) same by (simp add: follows_def)
  from follows_executes [OF assms(5) w handleAppendEntries_executes [OF h] this _ n(1,2)] a(4) r(2)
  have "follows n m' \<and> commitIndex m' = ?lst" by simp
  moreover have "on_append_reply k ?a reply n = (Inr (), n)"
    using r(1,2) a(1) nothing_to_commit [OF assms(2)] lastn n(3) by (simp add: on_append_reply_def)
  ultimately show ?thesis using h w by blast
qed

text \<open>A follower that has everything and has executed it.\<close>

definition replica :: "raft_node \<Rightarrow> raft_node \<Rightarrow> bool" where
  "replica n m \<longleftrightarrow> whole_follower n m \<and> follows n m \<and> commitIndex m = getLastIndex (log n)"

lemma replica_service:
  assumes "replica n m" and "log_wf (log n)" and "lastApplied n = getLastIndex (log n)"
  shows "service_of m = service_of n" and "lastApplied m = getLastIndex (log n)"
proof -
  show l: "lastApplied m = getLastIndex (log n)" using assms(1) by (simp add: replica_def follows_def)
  have "service_at n (getLastIndex (log n)) = service_of n" using service_at_here [of n] assms(3) by simp
  moreover have "fold exec_once (decode_commands (entries_between (log n) (unat (lastApplied m)) (last_nat (log n))))
      (service_of m) = service_at n (getLastIndex (log n))"
    using assms(1) unfolding replica_def follows_def by blast
  moreover have "entries_between (log n) (unat (lastApplied m)) (last_nat (log n)) = []"
    unfolding l getLastIndex_nat [OF assms(2)] by (simp add: entries_between_def)
  ultimately show "service_of m = service_of n"
    by (simp only: decode_commands_def list.map concat.simps fold_simps)
qed

lemma replica_in_sync:
  assumes "replica n m" and "log_wf (log n)" and "uncompacted (log n)"
  shows "in_sync n m"
proof -
  have m: "whole_follower n m" "last_nat (log m) \<le> last_nat (log n)" using assms(1) by (simp_all add: replica_def follows_def)
  have "log_map (log m) j = log_map (log n) j" for j
  proof (cases "j \<le> last_nat (log n)")
    case True
    then show ?thesis by (rule whole_follower_agrees(1) [OF m(1) assms(2,3)])
  next
    case False
    with m(2) show ?thesis by (simp add: log_map_def)
  qed
  then have "log_map (log m) = log_map (log n)" by (rule ext)
  with m(1) show ?thesis by (simp add: in_sync_def)
qed

context delivering
begin

lemma idle_round:
  assumes "leading n n" and "commitIndex n = getLastIndex (log n)"
    and "\<forall>j < length (peerIds n). nextIndex n ! j = getLastIndex (log n) + 1"
    and "k \<le> length (peerIds n)"
    and "\<forall>j < length (peerIds n). \<exists>m. peer w (peerIds n ! j) = Some m \<and> whole_follower n m \<and> follows n m"
    and "\<forall>j < k. \<exists>m. peer w (peerIds n ! j) = Some m \<and> replica n m"
  shows "\<exists>w'. heartbeat_loop rpc (drop k (peerIds n)) (n, w) = (Inr (), (n, w')) \<and>
    (\<forall>j < length (peerIds n). \<exists>m. peer w' (peerIds n ! j) = Some m \<and> replica n m)"
  using assms(4-6)
proof (induction "length (peerIds n) - k" arbitrary: k w)
  case 0
  then show ?case by (intro exI [of _ w]) simp
next
  case (Suc d)
  then have lt: "k < length (peerIds n)" by simp
  let ?p = "peerIds n ! k"
  obtain m where m: "peer w ?p = Some m" "whole_follower n m" "follows n m" using Suc.prems(2) lt by blast
  have "\<exists>reply m'. handleAppendEntries now (append_message k n) m = (Inr reply, m') \<and> replica n m' \<and>
      on_append_reply k (append_message k n) reply n = (Inr (), n)" for now
    using idle_offer [OF assms(1,2) _ m(2,3), of k now] assms(3) lt unfolding replica_def by blast
  from deliversE [OF deliver_append [where t = 100 and args = "append_message k n"] m(1) this]
  obtain reply m' w1 where r: "sendAppendEntries rpc ?p (append_message k n) 100 w = (Inr reply, w1)"
    "arrived peer ?p m' w w1" "replica n m'" "on_append_reply k (append_message k n) reply n = (Inr (), n)"
    by metis
  have n: "log_wf (log n)" "uncompacted (log n)" "last_nat (log n) < 18446744073709551615" "peerIdToIndexMap n ?p = Some k"
    using assms(1) lt by (auto simp: leading_def applicable_def)
  have "0 < getLastIndex (log n) + 1"
    using getLastIndex_nat [OF n(1)] n(3) by (simp add: word_less_nat_alt unat_u64_plus1)
  then have "prepare_replication k n = Inr (Send_append (append_message k n))"
    using prepare_uncompacted [OF n(1-3), of k] assms(3) lt by simp
  then have step: "replicateToFollower rpc ?p (n, w) = (Inr (), (n, w1))"
    using r n(4) by (simp add: replicateToFollower_def lift_world_def lift_node_def)
  have m': "whole_follower n m'" "follows n m'" using r(3) by (simp_all add: replica_def)
  have other: "peer w1 q = peer w q \<or> peer w1 q = Some m'" for q using r(2) unfolding arrived_def by metis
  have "d = length (peerIds n) - Suc k" "Suc k \<le> length (peerIds n)" using Suc.hyps(2) lt by simp_all
  moreover have "\<forall>j < length (peerIds n). \<exists>m. peer w1 (peerIds n ! j) = Some m \<and> whole_follower n m \<and> follows n m"
    using Suc.prems(2) other m' by metis
  moreover have "\<forall>j < Suc k. \<exists>m. peer w1 (peerIds n ! j) = Some m \<and> replica n m"
    using Suc.prems(3) other r(2,3) unfolding arrived_def less_Suc_eq by metis
  ultimately obtain w' where "heartbeat_loop rpc (drop (Suc k) (peerIds n)) (n, w1) = (Inr (), (n, w'))"
    "\<forall>j < length (peerIds n). \<exists>m. peer w' (peerIds n ! j) = Some m \<and> replica n m"
    using Suc.hyps(1) by blast
  with step show ?case by (intro exI [of _ w']) (simp add: Cons_nth_drop_Suc [OF lt, symmetric])
qed

end

section \<open>Between requests\<close>

text \<open>The leader has committed and executed its whole log, and so has every follower.\<close>

definition settled :: "('w \<Rightarrow> u64 \<Rightarrow> raft_node option) \<Rightarrow> raft_node \<Rightarrow> 'w \<Rightarrow> bool" where
  "settled peer n w \<longleftrightarrow> disk_ok n \<and> leading n n \<and> peerIds n \<noteq> [] \<and> commitIndex n = getLastIndex (log n) \<and>
     (\<forall>k < length (peerIds n). nextIndex n ! k = getLastIndex (log n) + 1 \<and>
        (\<exists>m. peer w (peerIds n ! k) = Some m \<and> replica n m))"

text \<open>A client request is answered, and the heartbeat timer fires twice.\<close>

definition serve :: "'w raft_rpc \<Rightarrow> client_request \<Rightarrow> raft_node \<times> 'w \<Rightarrow> (exn + client_reply) \<times> (raft_node \<times> 'w)" where
  "serve rpc request s =
     andThen (lift_node (handleClientRequest request) s) (\<lambda>reply s.
     andThen (sendHeartbeats rpc s) (\<lambda>_ s.
     andThen (sendHeartbeats rpc s) (\<lambda>_ s. (Inr reply, s))))"

fun serve_all :: "'w raft_rpc \<Rightarrow> client_request list \<Rightarrow> raft_node \<times> 'w \<Rightarrow> (exn + client_reply list) \<times> (raft_node \<times> 'w)" where
  "serve_all rpc [] s = (Inr [], s)"
| "serve_all rpc (r # rs) s =
     andThen (serve rpc r s) (\<lambda>reply s. andThen (serve_all rpc rs s) (\<lambda>replies s. (Inr (reply # replies), s)))"

text \<open>A request carries the client id and sequence number of its command, and its strings can be encoded.\<close>

definition request_ok :: "client_request \<Rightarrow> bool" where
  "request_ok r \<longleftrightarrow> command_ok (req_command r) \<and> req_clientId r = clientId (command_meta (req_command r)) \<and>
     req_sequenceNum r = sequenceNum (command_meta (req_command r))"

lemma already_applied_once:
  assumes "request_ok r" and "already_applied r n"
  shows "exec_once (req_command r) (service_of n) = service_of n"
proof -
  let ?meta = "command_meta (req_command r)"
  obtain s where "lastAppliedSeq n (clientId ?meta) = Some s" "sequenceNum ?meta \<le> s"
    using assms by (cases "lastAppliedSeq n (clientId ?meta)") (simp_all add: request_ok_def already_applied_def)
  then show ?thesis by (simp add: exec_once_def service_of_def)
qed

lemma already_applied_reply:
  assumes "role n = LEADER" and "already_applied r n"
  shows "\<exists>reply. handleClientRequest r n = (Inr reply, n) \<and> cr_success reply"
  unfolding handleClientRequest_def Let_def by (simp only: assms simp_thms if_False if_True) (intro exI conjI, rule refl, simp)

lemma leading_self: "leading n0 n \<Longrightarrow> leading n n"
proof -
  assume lead: "leading n0 n"
  then have "lastApplied n = commitIndex n" unfolding leading_def by blast
  then have "service_of n = service_at n (commitIndex n)" using service_at_here [of n] by simp
  with lead show "leading n n" unfolding leading_def by (elim conjE, intro conjI) (simp_all only: order_refl)
qed

lemma replica_follows_append:
  assumes "replica n m" and "leading n n" and "commitIndex n = getLastIndex (log n)"
    and "n1 = n\<lparr>log := log n1, persistence := persistence n1\<rparr>" and "last_nat (log n1) = Suc (last_nat (log n))"
    and "log_wf (log n1)"
  shows "follows n1 m"
proof -
  have n: "log_wf (log n)" "lastApplied n = getLastIndex (log n)" "unat (getLastIndex (log n)) = last_nat (log n)"
    using assms(2,3) getLastIndex_nat [of "log n"] by (auto simp: leading_def applicable_def)
  have n1: "lastApplied n1 = getLastIndex (log n)" "service_of n1 = service_of n"
    using n(2) assms(4) by (cases n, cases n1, simp add: service_of_def)+
  note s = replica_service [OF assms(1) n(1,2)]
  have last1: "unat (getLastIndex (log n1)) = last_nat (log n1)" by (rule getLastIndex_nat [OF assms(6)])
  have m: "kv_wf (kvStore m)" "lastApplied m = commitIndex m" "last_nat (log m) \<le> last_nat (log n)"
    using assms(1) by (simp_all add: replica_def follows_def)
  have "commitIndex m \<le> getLastIndex (log n1)"
    using m(2) s(2) n(3) last1 assms(5) by (simp add: word_le_nat_alt)
  moreover have "service_at n1 (getLastIndex (log n1)) =
      fold exec_once (decode_commands (entries_between (log n1) (unat (lastApplied m)) (last_nat (log n1)))) (service_of m)"
    by (simp only: service_at_def n1 s last1)
  ultimately show ?thesis using m assms(5) unfolding follows_def by (simp only: le_SucI simp_thms)
qed

context delivering
begin

lemma idle_heartbeat:
  assumes "leading n n" and "commitIndex n = getLastIndex (log n)"
    and "\<forall>j < length (peerIds n). nextIndex n ! j = getLastIndex (log n) + 1 \<and>
      (\<exists>m. peer w (peerIds n ! j) = Some m \<and> whole_follower n m \<and> follows n m)"
  shows "\<exists>w'. sendHeartbeats rpc (n, w) = (Inr (), (n, w')) \<and>
    (\<forall>j < length (peerIds n). \<exists>m. peer w' (peerIds n ! j) = Some m \<and> replica n m)"
  using idle_round [OF assms(1,2), of 0 w] assms(3) by (simp add: sendHeartbeats_def)

text \<open>One request, and the cluster is settled again.\<close>

lemma settled_serve:
  assumes "settled peer n w" and "request_ok r" and "Suc (last_nat (log n)) < 18446744073709551615"
  shows "\<exists>reply n' w'. serve rpc r (n, w) = (Inr reply, (n', w')) \<and> cr_success reply \<and> settled peer n' w' \<and>
    service_of n' = exec_once (req_command r) (service_of n) \<and> last_nat (log n') \<le> Suc (last_nat (log n)) \<and>
    peerIds n' = peerIds n"
proof -
  have n: "disk_ok n" "leading n n" "peerIds n \<noteq> []" "commitIndex n = getLastIndex (log n)"
    "\<forall>k < length (peerIds n). nextIndex n ! k = getLastIndex (log n) + 1 \<and>
        (\<exists>m. peer w (peerIds n ! k) = Some m \<and> replica n m)"
    using assms(1) by (simp_all add: settled_def)
  have wf: "log_wf (log n)" "uncompacted (log n)" "role n = LEADER" using n(2) by (auto simp: leading_def applicable_def)
  show ?thesis
  proof (cases "already_applied r n")
    case True
    from already_applied_reply [OF wf(3) True] obtain reply where h: "handleClientRequest r n = (Inr reply, n)" "cr_success reply"
      by blast
    define all_replicas where "all_replicas v \<longleftrightarrow>
        (\<forall>j < length (peerIds n). \<exists>m. peer v (peerIds n ! j) = Some m \<and> replica n m)" for v
    have idle: "\<exists>w'. sendHeartbeats rpc (n, v) = (Inr (), (n, w')) \<and> all_replicas w'" if "all_replicas v" for v
      unfolding all_replicas_def
      by (rule idle_heartbeat [OF n(2,4)]) (use that n(5) in \<open>auto simp: replica_def all_replicas_def\<close>)
    have "all_replicas w" using n(5) unfolding all_replicas_def by blast
    from idle [OF this] obtain w1 where w1: "sendHeartbeats rpc (n, w) = (Inr (), (n, w1))" "all_replicas w1" by blast
    from idle [OF w1(2)] obtain w2 where w2: "sendHeartbeats rpc (n, w1) = (Inr (), (n, w2))" "all_replicas w2" by blast
    have "settled peer n w2" using n w2(2) unfolding settled_def all_replicas_def by blast
    moreover have "serve rpc r (n, w) = (Inr reply, (n, w2))" using h w1(1) w2(1) by (simp add: serve_def lift_node_def)
    ultimately show ?thesis using h(2) already_applied_once [OF assms(2) True] by auto
  next
    case False
    have "command_ok (req_command r)" using assms(2) by (simp add: request_ok_def)
    from request_accepted [OF n(1,2) False this assms(3)] obtain reply n1 where
      r: "handleClientRequest r n = (Inr reply, n1)" "cr_success reply" "n1 = n\<lparr>log := log n1, persistence := persistence n1\<rparr>"
      "disk_ok n1" "leading n1 n1" "last_nat (log n1) = Suc (last_nat (log n))"
      "getLastIndex (log n1) = getLastIndex (log n) + 1" "getTerm (log n1) (getLastIndex (log n1)) = currentTerm n1"
      "decode_commands (entries_between (log n1) (last_nat (log n)) (last_nat (log n1))) = [req_command r]"
      "\<forall>k m. k < length (peerIds n) \<and> nextIndex n ! k = getLastIndex (log n) + 1 \<and> in_sync n m \<longrightarrow> in_step k n1 m"
      by blast
    from r(3) have same: "peerIds n1 = peerIds n" "lastApplied n1 = lastApplied n" "service_of n1 = service_of n"
      by (cases n, cases n1, simp add: service_of_def)+
    have wf1: "log_wf (log n1)" "uncompacted (log n1)" using r(5) by (auto simp: leading_def applicable_def)
    have "\<exists>m. peer w (peerIds n1 ! k) = Some m \<and> in_step k n1 m \<and> follows n1 m" if "k < length (peerIds n1)" for k
    proof -
      have lt: "k < length (peerIds n)" using that same(1) by simp
      from n(5) [rule_format, OF lt] obtain m where m: "peer w (peerIds n ! k) = Some m" "replica n m"
        "nextIndex n ! k = getLastIndex (log n) + 1" by blast
      have "in_step k n1 m" using r(10) m(3) lt replica_in_sync [OF m(2) wf(1,2)] by blast
      moreover have "follows n1 m" by (rule replica_follows_append [OF m(2) n(2,4) r(3,6) wf1(1)])
      ultimately show ?thesis using m(1) same(1) by auto
    qed
    with round_commits [OF r(5) _ r(8) _ follows_kept [OF wf1], of w] n(3) same(1) obtain n2 w2 where
      round: "sendHeartbeats rpc (n1, w) = (Inr (), (n2, w2))" "leading n1 n2" "persistence n2 = persistence n1"
      "commitIndex n2 = getLastIndex (log n1)"
      "\<forall>k < length (peerIds n1). nextIndex n2 ! k = getLastIndex (log n1) + 1 \<and>
         (\<exists>m. peer w2 (peerIds n1 ! k) = Some m \<and> whole_follower n1 m \<and> follows n1 m)"
      by auto
    have n2: "log n2 = log n1" "currentTerm n2 = currentTerm n1" "peerIds n2 = peerIds n1" "lastApplied n2 = getLastIndex (log n1)"
      "service_of n2 = service_at n1 (getLastIndex (log n1))"
      using round(2,4) by (simp_all add: leading_def)
    have "service_at n2 (getLastIndex (log n1)) = service_at n1 (getLastIndex (log n1))"
      using service_at_here [of n2] n2 by simp
    then have "follows n2 m = follows n1 m" for m unfolding follows_def n2(1) by (rule arg_cong)
    then have "whole_follower n1 m \<and> follows n1 m \<Longrightarrow> whole_follower n2 m \<and> follows n2 m" for m
      using whole_follower_frame [OF _ n2(1,2)] by blast
    with round(5) have fol: "\<forall>j < length (peerIds n2). nextIndex n2 ! j = getLastIndex (log n2) + 1 \<and>
        (\<exists>m. peer w2 (peerIds n2 ! j) = Some m \<and> whole_follower n2 m \<and> follows n2 m)"
      unfolding n2(1,3) by blast
    have com: "commitIndex n2 = getLastIndex (log n2)" by (simp add: round(4) n2(1))
    from idle_heartbeat [OF leading_self [OF round(2)] com fol] obtain w3 where
      w3: "sendHeartbeats rpc (n2, w2) = (Inr (), (n2, w3))"
      "\<forall>j < length (peerIds n2). \<exists>m. peer w3 (peerIds n2 ! j) = Some m \<and> replica n2 m"
      by blast
    have "disk_ok n2" using r(4) round(3) by (simp add: disk_ok_def)
    then have "settled peer n2 w3"
      using leading_self [OF round(2)] com fol w3(2) n(3) same(1) n2(3) by (simp add: settled_def)
    moreover have "serve rpc r (n, w) = (Inr reply, (n2, w3))" using r(1) round(1) w3(1) by (simp add: serve_def lift_node_def)
    moreover have "unat (lastApplied n1) = last_nat (log n)" "unat (getLastIndex (log n1)) = last_nat (log n1)"
      using n(2,4) same(2) getLastIndex_nat [OF wf(1)] getLastIndex_nat [OF wf1(1)] by (simp_all add: leading_def)
    then have "service_of n2 = exec_once (req_command r) (service_of n)"
      using r(9) same(3) n2(5) by (simp add: service_at_def)
    ultimately show ?thesis using r(2,6) n2 same(1) by auto
  qed
qed

text \<open>Any number of requests: the replies are successes, and every replica is the abstract service.\<close>

lemma settled_serve_all:
  assumes "settled peer n w" and "list_all request_ok rs" and "last_nat (log n) + length rs < 18446744073709551615"
  shows "\<exists>replies n' w'. serve_all rpc rs (n, w) = (Inr replies, (n', w')) \<and> list_all cr_success replies \<and>
    length replies = length rs \<and> settled peer n' w' \<and> peerIds n' = peerIds n \<and>
    service_of n' = fold exec_once (map req_command rs) (service_of n)"
  using assms
proof (induction rs arbitrary: n w)
  case (Cons r rs)
  have "request_ok r" "Suc (last_nat (log n)) < 18446744073709551615" using Cons.prems(2,3) by simp_all
  from settled_serve [OF Cons.prems(1) this] obtain reply n1 w1 where
    one: "serve rpc r (n, w) = (Inr reply, (n1, w1))" "cr_success reply" "settled peer n1 w1"
    "service_of n1 = exec_once (req_command r) (service_of n)" "last_nat (log n1) \<le> Suc (last_nat (log n))" "peerIds n1 = peerIds n"
    by blast
  from Cons.IH [OF one(3)] Cons.prems(2,3) one(5) obtain replies n' w' where
    "serve_all rpc rs (n1, w1) = (Inr replies, (n', w'))" "list_all cr_success replies" "length replies = length rs"
    "settled peer n' w'" "peerIds n' = peerIds n1" "service_of n' = fold exec_once (map req_command rs) (service_of n1)"
    by auto
  with one show ?case by (intro exI [of _ "reply # replies"] exI [of _ n'] exI [of _ w']) simp
qed simp

end

section \<open>From the first election\<close>

text \<open>A node as the constructor leaves it on an empty directory, whatever it voted since.\<close>

definition blank :: "raft_node \<Rightarrow> bool" where
  "blank n \<longleftrightarrow> disk_ok n \<and> log n = new_log \<and> commitIndex n = 0 \<and> lastApplied n = 0 \<and>
     kvStore n = empty_kvstore \<and> lastAppliedSeq n = Map.empty"

lemma new_log_ends [simp]: "getLastIndex new_log = 0" "getLastTerm new_log = 0" "last_nat new_log = 0" "uncompacted new_log"
  by (simp_all add: new_log_def getLastIndex_def getLastTerm_def dummy_entry_def last_nat_def uncompacted_def)

lemma blank_kept: "kept_by_vote blank args"
  unfolding kept_by_vote_def
proof (intro allI impI, elim conjE)
  fix m now reply m' assume m: "blank m" and h: "handleRequestVote now args m = (Inr reply, m')"
  have d: "disk_ok m'" using disk_ok_handlers(1) [of m now args] m h by (simp add: blank_def)
  with m show "blank m'"
    using handleRequestVote_frame [of now args m] h by (simp add: blank_def)
qed

text \<open>The leader of the first election, and a voter of it.\<close>

lemma blank_leading:
  assumes "blank n" and "role n = LEADER" and "length (nextIndex n) = length (peerIds n)"
    and "length (matchIndex n) = length (peerIds n)" and "\<forall>k < length (peerIds n). peerIdToIndexMap n (peerIds n ! k) = Some k"
  shows "leading n n"
  using assms service_at_here [of n] by (simp add: leading_def blank_def applicable_def)

lemma blank_follower:
  assumes "blank n" and "blank m" and "currentTerm m = currentTerm n"
  shows "whole_follower n m \<and> follows n m"
proof -
  have "log_map new_log |` {..0} = log_map new_log" by (auto simp: restrict_map_def log_map_def fun_eq_iff)
  moreover have "service_at n 0 = service_of n" "service_of m = service_of n"
    using assms(1,2) service_at_here [of n] by (simp_all add: blank_def service_of_def)
  moreover have "entries_between new_log 0 0 = []" by (simp add: entries_between_def)
  ultimately show ?thesis
    using assms by (simp add: blank_def whole_follower_def caught_up_def follows_def decode_commands_def)
qed

context delivering
begin

lemma first_election:
  assumes "blank n" and "currentTerm n = 0" and "peerIds n \<noteq> []"
    and "length (nextIndex n) = length (peerIds n)" and "length (matchIndex n) = length (peerIds n)"
    and "\<forall>k < length (peerIds n). peerIdToIndexMap n (peerIds n ! k) = Some k"
    and "\<forall>p \<in> set (peerIds n). \<exists>m. peer w p = Some m \<and> blank m \<and> currentTerm m = 0"
  shows "\<exists>n' w'. startElection rpc now (n, w) = (Inr (), (n', w')) \<and> settled peer n' w' \<and> currentTerm n' = 1 \<and>
    blank n' \<and> peerIds n' = peerIds n"
proof -
  have d: "disk_ok n" and l: "log n = new_log" using assms(1) by (simp_all add: blank_def)
  obtain args n1 where b: "begin_election now n = (Inr args, n1)" "rv_term args = 1" "rv_lastLogIndex args = 0"
    "rv_lastLogTerm args = 0" "n1 = resetElectionTimer now (snd (becomeCandidate n))"
    using d l assms(2) by (cases "begin_election now n") (auto simp: begin_election_def Let_def)
  have "\<forall>p \<in> set (peerIds n). \<exists>m. peer w p = Some m \<and> supports args m \<and> blank m"
    using assms(7) b(2-4) by (fastforce simp: supports_def blank_def isLogUpToDate_def)
  from supported_election_voters [OF d b(1) this blank_kept] obtain w1 where
    e: "startElection rpc now (n, w) = sendHeartbeats rpc (becomeLeader n1, w1)"
    "\<forall>p \<in> set (peerIds n). \<exists>m. peer w1 p = Some m \<and> voted blank args m" by blast
  let ?l = "becomeLeader n1"
  have same: "kvStore (snd (becomeCandidate n)) = kvStore n" "lastAppliedSeq (snd (becomeCandidate n)) = lastAppliedSeq n"
    "peerIdToIndexMap (snd (becomeCandidate n)) = peerIdToIndexMap n"
    "nextIndex (snd (becomeCandidate n)) = nextIndex n" "matchIndex (snd (becomeCandidate n)) = matchIndex n"
    by (simp_all add: becomeCandidate_def)
  have bl: "blank ?l" using assms(1) d same disk_ok_persistence [of ?l n1] by (simp add: blank_def b(5) becomeLeader_def Let_def)
  have lf: "role ?l = LEADER" "peerIds ?l = peerIds n" "currentTerm ?l = 1" "log ?l = new_log" "commitIndex ?l = 0"
    "nextIndex ?l = replicate (length (peerIds n)) 1" "length (matchIndex ?l) = length (peerIds n)"
    "peerIdToIndexMap ?l = peerIdToIndexMap n"
    using assms(1,2,4,5) l same by (simp_all add: b(5) becomeLeader_def Let_def blank_def)
  have lead: "leading ?l ?l" by (rule blank_leading [OF bl]) (use lf assms(6) in simp_all)
  have "whole_follower ?l m \<and> follows ?l m" if "voted blank args m" for m
    using that blank_follower [OF bl, of m] lf(3) b(2) by (simp add: voted_def)
  with e(2) have "\<forall>j < length (peerIds ?l). nextIndex ?l ! j = getLastIndex (log ?l) + 1 \<and>
      (\<exists>m. peer w1 (peerIds ?l ! j) = Some m \<and> whole_follower ?l m \<and> follows ?l m)"
    using lf by (metis add_0 new_log_ends(1) nth_mem nth_replicate)
  from idle_heartbeat [OF lead _ this] lf obtain w2 where
    h: "sendHeartbeats rpc (?l, w1) = (Inr (), (?l, w2))"
    "\<forall>j < length (peerIds ?l). \<exists>m. peer w2 (peerIds ?l ! j) = Some m \<and> replica ?l m"
    by auto
  have "disk_ok ?l" using bl by (simp add: blank_def)
  then have "settled peer ?l w2" using lead lf h(2) assms(3) by (simp add: settled_def)
  with e(1) h(1) bl lf show ?thesis by auto
qed

end

end
