(* ===== verification/Service_Refinement.thy ===== *)
theory Service_Refinement
  imports Replicated_Service Grpc_RPC
begin

text \<open>
  The cluster that \<open>src/raft_main.cpp\<close> builds, from its start: gRPC clients and services around nodes
  that the constructor made on empty directories. The first election timeout makes a leader, and
  from then on the cluster is one service. The locale results of \<open>Replicated_Service\<close>, on the gRPC
  transport.
\<close>

lemma fresh_blank:
  assumes "files disk (dir @ ''/raft_state.dat'') = None" and "can_open (new_persistence dir disk)" and "distinct peers"
    and "RaftNode nid peers empty_kvstore threshold dir disk rng j1 j2 t = (r, n)"
  shows "blank n" and "currentTerm n = 0" and "peerIds n = peers" and "length (nextIndex n) = length peers"
    and "length (matchIndex n) = length peers" and "\<forall>k < length peers. peerIdToIndexMap n (peers ! k) = Some k"
proof -
  let ?n = "(resetElectionTimer t (initial_node nid peers empty_kvstore threshold rng j1 j2 t))
      \<lparr>persistence := (if dir = [] then None else Some (new_persistence dir disk)),
       nextIndex := replicate (length peers) 1, matchIndex := replicate (length peers) 0,
       peerIdToIndexMap := index_peers 0 peers Map.empty, running := True\<rparr>"
  have n: "n = ?n" using assms(4) unfolding RaftNode_fresh [OF assms(1)] by blast
  show "blank n" using assms(2) by (simp add: n blank_def disk_ok_def initial_node_def resetElectionTimer_def)
  show "currentTerm n = 0" "peerIds n = peers" "length (nextIndex n) = length peers" "length (matchIndex n) = length peers"
    by (simp_all add: n initial_node_def resetElectionTimer_def)
  show "\<forall>k < length peers. peerIdToIndexMap n (peers ! k) = Some k" by (simp add: n index_peers_nth [OF assms(3)])
qed

text \<open>A node that was just constructed on a directory without a state file.\<close>

definition just_started :: "raft_node \<Rightarrow> bool" where
  "just_started n \<longleftrightarrow>
     (\<exists>nid peers threshold dir disk rng j1 j2 t.
        RaftNode nid peers empty_kvstore threshold dir disk rng j1 j2 t = (Inr (), n) \<and> distinct peers \<and>
        files disk (dir @ ''/raft_state.dat'') = None \<and> can_open (new_persistence dir disk))"

lemma just_startedD:
  assumes "just_started n"
  shows "blank n \<and> currentTerm n = 0 \<and> length (nextIndex n) = length (peerIds n) \<and>
    length (matchIndex n) = length (peerIds n) \<and> (\<forall>k < length (peerIds n). peerIdToIndexMap n (peerIds n ! k) = Some k)"
proof -
  from assms obtain nid peers threshold dir disk rng j1 j2 t where
    "RaftNode nid peers empty_kvstore threshold dir disk rng j1 j2 t = (Inr (), n)" "distinct peers"
    "files disk (dir @ ''/raft_state.dat'') = None" "can_open (new_persistence dir disk)"
    unfolding just_started_def by (elim exE conjE)
  from fresh_blank [OF this(3,4,2,1)] show ?thesis by simp
qed

lemma settled_replicas:
  assumes "settled peer n w"
  shows "\<forall>p \<in> set (peerIds n). \<exists>m. peer w p = Some m \<and> service_of m = service_of n"
proof
  fix p assume "p \<in> set (peerIds n)"
  with assms obtain m where m: "peer w p = Some m" "replica n m"
    unfolding settled_def by (metis in_set_conv_nth)
  have "log_wf (log n)" "lastApplied n = getLastIndex (log n)"
    using assms by (auto simp: settled_def leading_def applicable_def)
  from replica_service(1) [OF m(2) this] m(1) show "\<exists>m. peer w p = Some m \<and> service_of m = service_of n" by blast
qed

lemma service_refines:
  assumes "connects lib served" and "settled (grpc_peer served c) n w" and "list_all request_ok rs"
    and "last_nat (log n) + length rs < 18446744073709551615"
  shows "\<exists>replies n' w'. serve_all (GrpcRaftClient lib c) rs (n, w) = (Inr replies, (n', w')) \<and>
    list_all cr_success replies \<and> length replies = length rs \<and> settled (grpc_peer served c) n' w' \<and>
    service_of n' = fold exec_once (map req_command rs) (service_of n) \<and>
    (\<forall>p \<in> set (peerIds n). \<exists>m. grpc_peer served c w' p = Some m \<and> service_of m = service_of n')"
proof -
  from delivering.settled_serve_all [OF grpc_delivering [OF assms(1)] assms(2-4)] obtain replies n' w' where
    r: "serve_all (GrpcRaftClient lib c) rs (n, w) = (Inr replies, (n', w'))" "list_all cr_success replies"
    "length replies = length rs" "settled (grpc_peer served c) n' w'" "peerIds n' = peerIds n"
    "service_of n' = fold exec_once (map req_command rs) (service_of n)"
    by blast
  with settled_replicas [OF r(4)] show ?thesis by auto
qed

text \<open>
  C9. The replicated service refines a single copy: on a settled cluster over a working network any
  list of client requests is answered with success, and leads to a settled cluster in which the
  leader and every replica hold the service that executes the commands of these requests once each,
  in this order, a repeated request not again.
\<close>

theorem replicated_service_refines:
  assumes "connects lib served" and "settled (grpc_peer served c) n w" and "list_all request_ok rs"
    and "last_nat (log n) + length rs < 18446744073709551615"
  shows "\<exists>replies n' w'. serve_all (GrpcRaftClient lib c) rs (n, w) = (Inr replies, (n', w')) \<and>
    list_all cr_success replies \<and> length replies = length rs \<and> settled (grpc_peer served c) n' w' \<and>
    service_of n' = fold exec_once (map req_command rs) (service_of n) \<and>
    (\<forall>p \<in> set (peerIds n). \<exists>m. grpc_peer served c w' p = Some m \<and> service_of m = service_of n')"
  by (rule service_refines [OF assms])

definition two_peers :: grpc_client where
  "two_peers = addPeer 3 ''c:1'' (addPeer 2 ''b:1'' new_client)"

lemma two_peers_simps [simp]:
  "grpc_peer (\<lambda>w. w) two_peers w 2 = w ''b:1''" "grpc_peer (\<lambda>w. w) two_peers w 3 = w ''c:1''"
  by (simp_all add: grpc_peer_def two_peers_def addPeer_def new_client_def)

lemma sample_request_ok [simp]: "request_ok sample_request"
  by (simp add: request_ok_def sample_request_def string_ok_def)

lemma sample_settled: "settled (grpc_peer (\<lambda>w. w) two_peers) empty_leader empty_cluster"
proof -
  have l: "blank empty_leader" "role empty_leader = LEADER" "peerIds empty_leader = [2, 3]" "nextIndex empty_leader = [1, 1]"
    "matchIndex empty_leader = [0, 0]" "peerIdToIndexMap empty_leader 2 = Some 0" "peerIdToIndexMap empty_leader 3 = Some 1"
    "currentTerm empty_leader = 2"
    using wired_leader_ready by (simp_all add: empty_leader_def blank_def)
  have "leading empty_leader empty_leader"
    by (rule blank_leading [OF l(1,2)]) (use l(3-7) in \<open>auto simp: less_Suc_eq\<close>)
  moreover have "replica empty_leader (sample_node\<lparr>log := new_log, nodeId := i\<rparr>)" for i
    using blank_follower [OF l(1), of "sample_node\<lparr>log := new_log, nodeId := i\<rparr>"] l(1,8)
    by (simp add: blank_def replica_def)
  ultimately show ?thesis
    using l(1,3,4) by (auto simp: settled_def blank_def empty_cluster_def less_Suc_eq)
qed

theorem replicated_service_refines_witness:
  "\<exists>replies n' w' m. serve_all (GrpcRaftClient direct_network two_peers) [sample_request, sample_request]
      (empty_leader, empty_cluster) = (Inr replies, (n', w')) \<and> list_all cr_success replies \<and>
    w' ''c:1'' = Some m \<and> snd (service_of m) ''k'' = Some ''v''"
proof -
  have "last_nat (log empty_leader) = 0" by (simp add: empty_leader_def)
  with replicated_service_refines [OF direct_network_connects sample_settled, of "[sample_request, sample_request]"]
  obtain replies n' w' where r: "serve_all (GrpcRaftClient direct_network two_peers) [sample_request, sample_request]
      (empty_leader, empty_cluster) = (Inr replies, (n', w'))" "list_all cr_success replies"
    "service_of n' = fold exec_once (map req_command [sample_request, sample_request]) (service_of empty_leader)"
    "\<forall>p \<in> set (peerIds empty_leader). \<exists>m. grpc_peer (\<lambda>w. w) two_peers w' p = Some m \<and> service_of m = service_of n'"
    by auto
  have "peerIds empty_leader = [2, 3]" by (simp add: empty_leader_def)
  with r(4) obtain m where m: "w' ''c:1'' = Some m" "service_of m = service_of n'" by auto
  have "snd (service_of n') ''k'' = Some ''v''"
    unfolding r(3)
    by (simp add: exec_once_def service_of_def empty_leader_def wired_leader_ready sample_request_def upd_put_def)
  with r m show ?thesis by (intro exI [of _ replies] exI [of _ n'] exI [of _ w'] exI [of _ m]) simp
qed

text \<open>
  C8. The whole way from a start: when the nodes were just constructed and can reach each other, the
  first election timeout makes its node leader of term 1, and the cluster serves every list of
  requests as one empty service would, on every replica.
\<close>

theorem fresh_cluster_serves:
  assumes "connects lib served" and "just_started n" and "peerIds n \<noteq> []"
    and "\<forall>p \<in> set (peerIds n). \<exists>m. grpc_peer served c w p = Some m \<and> just_started m"
    and "list_all request_ok rs" and "length rs < 18446744073709551615"
  shows "\<exists>n1 w1 replies n' w'. startElection (GrpcRaftClient lib c) now (n, w) = (Inr (), (n1, w1)) \<and>
    role n1 = LEADER \<and> currentTerm n1 = 1 \<and>
    serve_all (GrpcRaftClient lib c) rs (n1, w1) = (Inr replies, (n', w')) \<and> list_all cr_success replies \<and>
    service_of n' = fold exec_once (map req_command rs) (Map.empty, Map.empty) \<and>
    (\<forall>p \<in> set (peerIds n). \<exists>m. grpc_peer served c w' p = Some m \<and> service_of m = service_of n')"
proof -
  note start = just_startedD [OF assms(2)]
  have "\<forall>p \<in> set (peerIds n). \<exists>m. grpc_peer served c w p = Some m \<and> blank m \<and> currentTerm m = 0"
    using assms(4) just_startedD by blast
  from delivering.first_election [OF grpc_delivering [OF assms(1)] _ _ assms(3) _ _ _ this, of now] start obtain n1 w1 where
    e: "startElection (GrpcRaftClient lib c) now (n, w) = (Inr (), (n1, w1))" "settled (grpc_peer served c) n1 w1"
    "currentTerm n1 = 1" "blank n1" "peerIds n1 = peerIds n"
    by blast
  have "service_of n1 = (Map.empty, Map.empty)" "last_nat (log n1) = 0"
    using e(4) by (simp_all add: blank_def service_of_def Get_def empty_kvstore_def)
  moreover have "role n1 = LEADER" using e(2) by (simp add: settled_def leading_def)
  ultimately show ?thesis
    using e service_refines [OF assms(1) e(2) assms(5)] assms(6) by auto
qed

definition started :: "u64 \<Rightarrow> u64 list \<Rightarrow> raft_node" where
  "started i peers = snd (RaftNode i peers empty_kvstore 10000 [] (fs sample_disk) (sconst 0) 0 0 0)"

lemma started_just: "distinct peers \<Longrightarrow> just_started (started i peers) \<and> peerIds (started i peers) = peers"
proof -
  assume d: "distinct peers"
  have disk: "files (fs sample_disk) ([] @ ''/raft_state.dat'') = None" "can_open (new_persistence [] (fs sample_disk))"
    by (simp_all add: new_persistence_def can_open_def sample_disk_def)
  have "RaftNode i peers empty_kvstore 10000 [] (fs sample_disk) (sconst 0) 0 0 0 = (Inr (), started i peers)"
    unfolding started_def by (subst (1 2) RaftNode_fresh) simp_all
  moreover from fresh_blank(3) [OF disk d this] have "peerIds (started i peers) = peers" .
  ultimately show ?thesis unfolding just_started_def using d disk by blast
qed

theorem fresh_cluster_serves_witness:
  "\<exists>n1 w1 replies n' w' m. startElection (GrpcRaftClient direct_network two_peers) 5
      (started 1 [2, 3], [''b:1'' \<mapsto> started 2 [1, 3], ''c:1'' \<mapsto> started 3 [1, 2]]) = (Inr (), (n1, w1)) \<and>
    serve_all (GrpcRaftClient direct_network two_peers) [sample_request] (n1, w1) = (Inr replies, (n', w')) \<and>
    w' ''b:1'' = Some m \<and> snd (service_of m) ''k'' = Some ''v''"
proof -
  let ?w = "[''b:1'' \<mapsto> started 2 [1, 3], ''c:1'' \<mapsto> started 3 [1, 2]]"
  have n: "just_started (started 1 [2, 3])" "peerIds (started 1 [2, 3]) = [2, 3]" using started_just by simp_all
  have "\<forall>p \<in> set (peerIds (started 1 [2, 3])). \<exists>m. grpc_peer (\<lambda>w. w) two_peers ?w p = Some m \<and> just_started m"
    using started_just by (simp add: n(2))
  from fresh_cluster_serves [OF direct_network_connects n(1) _ this, of "[sample_request]" 5] n(2)
  obtain n1 w1 replies n' w' where r: "startElection (GrpcRaftClient direct_network two_peers) 5 (started 1 [2, 3], ?w) = (Inr (), (n1, w1))"
    "serve_all (GrpcRaftClient direct_network two_peers) [sample_request] (n1, w1) = (Inr replies, (n', w'))"
    "service_of n' = fold exec_once (map req_command [sample_request]) (Map.empty, Map.empty)"
    "\<forall>p \<in> set [2, 3]. \<exists>m. grpc_peer (\<lambda>w. w) two_peers w' p = Some m \<and> service_of m = service_of n'"
    by auto
  from r(4) obtain m where "w' ''b:1'' = Some m" "service_of m = service_of n'" by auto
  moreover have "snd (service_of n') ''k'' = Some ''v''"
    unfolding r(3) by (simp add: exec_once_def sample_request_def upd_put_def)
  ultimately show ?thesis using r(1,2) by auto
qed

end
