(* ===== verification/Raft_Protocol.thy ===== *)
theory Raft_Protocol
  imports Election_Safety "HOL-Library.Sublist"
begin

text \<open>
  The protocol behind the code, as an abstract machine: what a cluster promises about its logs, said
  without messages, indices and disks. A log is the list of its entries, a term a number. Beside the
  term and the log of every node the state keeps what happened: the log a leader was elected with,
  the log it has reached, the ballots cast and the acknowledgements given. The steps are those of
  Raft. The invariant gives log matching, leader completeness and the agreement of committed entries
  for every machine that takes only such steps; \<open>Cluster_Protocol\<close> shows that the cluster of nodes
  does.
\<close>

lemma prefix_same_length: "prefix xs ys \<or> prefix ys xs \<Longrightarrow> length xs = length ys \<Longrightarrow> xs = ys"
  by (auto elim!: prefixE)

lemma prefix_take: "prefix xs ys \<Longrightarrow> m \<le> length xs \<Longrightarrow> take m xs = take m ys"
  by (auto elim!: prefixE)

section \<open>State and steps\<close>

record protocol =
  p_term :: "u64 \<Rightarrow> nat"
  p_log :: "u64 \<Rightarrow> log_entry list"
  ballots :: "(u64 \<times> nat \<times> log_entry list) set"
  starts :: "nat \<rightharpoonup> log_entry list"
  chain :: "nat \<rightharpoonup> log_entry list"
  acked :: "(u64 \<times> nat \<times> nat) set"

definition tm :: "log_entry \<Rightarrow> nat" where
  "tm e = unat (e_term e)"

definition last_tm :: "log_entry list \<Rightarrow> nat" where
  "last_tm l = (if l = [] then 0 else tm (last l))"

text \<open>The logs the leader of term \<open>t\<close> went through.\<close>

definition on_chain :: "protocol \<Rightarrow> nat \<Rightarrow> log_entry list \<Rightarrow> bool" where
  "on_chain p t l \<longleftrightarrow> (\<exists>s c. starts p t = Some s \<and> chain p t = Some c \<and> prefix s l \<and> prefix l c)"

text \<open>A candidate's log at least as up to date as the voter's.\<close>

definition up_to_date :: "log_entry list \<Rightarrow> log_entry list \<Rightarrow> bool" where
  "up_to_date l mine \<longleftrightarrow> last_tm mine < last_tm l \<or> last_tm mine = last_tm l \<and> length mine \<le> length l"

inductive protocol_step :: "u64 set \<Rightarrow> protocol \<Rightarrow> protocol \<Rightarrow> bool" for N where
  learn: "p_term p v \<le> t \<Longrightarrow> protocol_step N p (p\<lparr>p_term := (p_term p)(v := t)\<rparr>)"
| adopt: "\<lbrakk>on_chain p (p_term p v) l; \<not> strict_prefix l (p_log p v)\<rbrakk> \<Longrightarrow>
    protocol_step N p (p\<lparr>p_log := (p_log p)(v := l)\<rparr>)"
| acknowledge: "\<lbrakk>chain p (p_term p v) = Some c; m \<le> length c; prefix (take m c) (p_log p v)\<rbrakk> \<Longrightarrow>
    protocol_step N p (p\<lparr>acked := acked p \<union> {(v, p_term p v, i) | i. i \<le> m}\<rparr>)"
| vote: "up_to_date l (p_log p v) \<Longrightarrow>
    protocol_step N p (p\<lparr>ballots := insert (v, p_term p v, l) (ballots p)\<rparr>)"
| elect: "\<lbrakk>0 < t; starts p t = None; l = [] \<or> (\<exists>t' < t. on_chain p t' l);
      majority_of N Q; \<forall>v \<in> Q. (v, t, l) \<in> ballots p\<rbrakk> \<Longrightarrow>
    protocol_step N p (p\<lparr>starts := (starts p)(t \<mapsto> l), chain := (chain p)(t \<mapsto> l)\<rparr>)"
| extend: "\<lbrakk>chain p t = Some c; tm e = t\<rbrakk> \<Longrightarrow>
    protocol_step N p (p\<lparr>chain := (chain p)(t \<mapsto> c @ [e])\<rparr>)"

definition blank_protocol :: protocol where
  "blank_protocol = \<lparr>p_term = (\<lambda>v. 0), p_log = (\<lambda>v. []), ballots = {}, starts = Map.empty,
     chain = Map.empty, acked = {}\<rparr>"

section \<open>Chains\<close>

definition chains_ok :: "protocol \<Rightarrow> bool" where
  "chains_ok p \<longleftrightarrow> dom (chain p) = dom (starts p) \<and>
     (\<forall>t s. starts p t = Some s \<longrightarrow> 0 < t \<and> (\<forall>e \<in> set s. tm e < t) \<and>
        (\<exists>es. chain p t = Some (s @ es) \<and> (\<forall>e \<in> set es. tm e = t)) \<and>
        (s = [] \<or> (\<exists>t' < t. on_chain p t' s)))"

lemma chains_okD:
  assumes "chains_ok p" and "starts p t = Some s"
  shows "0 < t" and "e \<in> set s \<Longrightarrow> tm e < t" and "s = [] \<or> (\<exists>t' < t. on_chain p t' s)"
    and "\<exists>es. chain p t = Some (s @ es) \<and> (\<forall>e \<in> set es. tm e = t)"
  using assms unfolding chains_ok_def by blast+

lemma chains_ok_starts: "chains_ok p \<Longrightarrow> chain p t = Some c \<Longrightarrow> \<exists>s. starts p t = Some s"
  unfolding chains_ok_def by (metis domD domI)

lemma on_chain_comparable: "on_chain p t l \<Longrightarrow> on_chain p t l' \<Longrightarrow> prefix l l' \<or> prefix l' l"
  unfolding on_chain_def by (metis option.inject prefix_same_cases)

lemma on_chain_start: "chains_ok p \<Longrightarrow> starts p t = Some s \<Longrightarrow> on_chain p t s"
  using chains_okD(4) unfolding on_chain_def by (metis prefix_order.order_refl prefixI)

lemma on_chain_end: "chains_ok p \<Longrightarrow> chain p t = Some c \<Longrightarrow> on_chain p t c"
  using chains_ok_starts [of p t c] chains_okD(4) [of p t] unfolding on_chain_def
  by (metis option.inject prefix_order.order_refl prefixI)

text \<open>The terms along a log never decrease, and they stay below the term of the chain.\<close>

lemma on_chain_cases:
  assumes "chains_ok p" and "on_chain p t l"
  obtains s es where "starts p t = Some s" "l = s @ es" "\<forall>e \<in> set es. tm e = t" "\<forall>e \<in> set s. tm e < t"
proof -
  from assms(2) obtain s c where sc: "starts p t = Some s" "chain p t = Some c" "prefix s l" "prefix l c"
    unfolding on_chain_def by blast
  obtain es where es: "c = s @ es" "\<forall>e \<in> set es. tm e = t" using chains_okD(4) [OF assms(1) sc(1)] sc(2) by auto
  from sc(3,4) obtain xs ys where "l = s @ xs" "c = l @ ys" by (auto elim!: prefixE)
  with es have "l = s @ xs" "\<forall>e \<in> set xs. tm e = t" by auto
  with that sc(1) chains_okD(2) [OF assms(1) sc(1)] show ?thesis by blast
qed

text \<open>An entry of term \<open>u\<close> was written by the leader of \<open>u\<close>, on top of the log it has in front of it.\<close>

lemma on_chain_entry:
  assumes "chains_ok p" and "on_chain p t l" and "i < length l"
  shows "on_chain p (tm (l ! i)) (take (Suc i) l)"
  using assms(2,3)
proof (induction t arbitrary: l rule: less_induct)
  case (less t)
  obtain s es where l: "starts p t = Some s" "l = s @ es" "\<forall>e \<in> set es. tm e = t" "\<forall>e \<in> set s. tm e < t"
    by (rule on_chain_cases [OF assms(1) less.prems(1)])
  show ?case
  proof (cases "i < length s")
    case True
    then obtain t' where "t' < t" "on_chain p t' s" using chains_okD(3) [OF assms(1) l(1)] by auto
    from less.IH [OF this True] show ?thesis using True l(2) by (simp add: nth_append)
  next
    case False
    then have "tm (l ! i) = t" using less.prems(2) l(2,3) by (simp add: nth_append)
    moreover have "prefix s (take (Suc i) l)" using False l(2) by simp
    moreover have "prefix (take (Suc i) l) l" by (rule take_is_prefix)
    ultimately show ?thesis
      using less.prems(1) l(1) unfolding on_chain_def by (metis prefix_order.order_trans)
  qed
qed

lemma on_chain_term:
  assumes "chains_ok p" and "on_chain p t l" and "i < length l"
  shows "0 < tm (l ! i)" and "tm (l ! i) \<le> t"
proof -
  from on_chain_entry [OF assms] show "0 < tm (l ! i)"
    using chains_okD(1) [OF assms(1)] unfolding on_chain_def by blast
  show "tm (l ! i) \<le> t"
    by (rule on_chain_cases [OF assms(1,2)]) (use nth_mem [OF assms(3)] in \<open>auto simp: less_imp_le\<close>)
qed

text \<open>Log matching: two logs that agree on the term of a position agree up to it.\<close>

lemma chains_match:
  assumes "chains_ok p" and "on_chain p t l" and "on_chain p t' l'"
    and "i < length l" and "i < length l'" and "tm (l ! i) = tm (l' ! i)"
  shows "take (Suc i) l = take (Suc i) l'"
proof -
  have "on_chain p (tm (l ! i)) (take (Suc i) l)" "on_chain p (tm (l ! i)) (take (Suc i) l')"
    using on_chain_entry [OF assms(1,2,4)] on_chain_entry [OF assms(1,3,5)] assms(6) by simp_all
  from on_chain_comparable [OF this] show ?thesis
    by (rule prefix_same_length) (use assms(4,5) in simp)
qed

section \<open>Acknowledgements and ballots\<close>

text \<open>Position \<open>m\<close> of the chain of \<open>t\<close> holds an entry of that very term.\<close>

definition own_entry :: "protocol \<Rightarrow> nat \<Rightarrow> nat \<Rightarrow> bool" where
  "own_entry p t m \<longleftrightarrow> (\<exists>s c. starts p t = Some s \<and> chain p t = Some c \<and> length s < m \<and> m \<le> length c)"

definition entries_to :: "protocol \<Rightarrow> nat \<Rightarrow> nat \<Rightarrow> log_entry list" where
  "entries_to p t m = take m (the (chain p t))"

text \<open>A leader of term \<open>u\<close> started without these entries.\<close>

definition lacks :: "protocol \<Rightarrow> nat \<Rightarrow> nat \<Rightarrow> nat \<Rightarrow> bool" where
  "lacks p t m u \<longleftrightarrow> (\<exists>s. starts p u = Some s \<and> \<not> prefix (entries_to p t m) s)"

text \<open>A log at least as up to date as the one that ends with entry \<open>m\<close> of term \<open>t\<close>.\<close>

definition covers :: "nat \<Rightarrow> nat \<Rightarrow> log_entry list \<Rightarrow> bool" where
  "covers t m l \<longleftrightarrow> t < last_tm l \<or> t = last_tm l \<and> m \<le> length l"

definition nodes_ok :: "protocol \<Rightarrow> bool" where
  "nodes_ok p \<longleftrightarrow> (\<forall>v. p_log p v = [] \<or> (\<exists>t \<le> p_term p v. on_chain p t (p_log p v)))"

definition acks_ok :: "protocol \<Rightarrow> bool" where
  "acks_ok p \<longleftrightarrow>
     (\<forall>v t m. (v, t, m) \<in> acked p \<longrightarrow> t \<le> p_term p v \<and> (\<exists>c. chain p t = Some c \<and> m \<le> length c) \<and>
        (own_entry p t m \<longrightarrow>
           prefix (entries_to p t m) (p_log p v) \<or> (\<exists>u. t < u \<and> u \<le> p_term p v \<and> lacks p t m u)))"

definition ballots_ok :: "protocol \<Rightarrow> bool" where
  "ballots_ok p \<longleftrightarrow>
     (\<forall>v t' l. (v, t', l) \<in> ballots p \<longrightarrow> t' \<le> p_term p v \<and>
        (\<forall>t m. (v, t, m) \<in> acked p \<and> t < t' \<and> own_entry p t m \<longrightarrow>
           covers t m l \<or> (\<exists>u. t < u \<and> u \<le> t' \<and> lacks p t m u)))"

lemma acks_okD:
  assumes "acks_ok p" and "(v, t, m) \<in> acked p"
  shows "t \<le> p_term p v" and "\<exists>c. chain p t = Some c \<and> m \<le> length c"
    and "own_entry p t m \<Longrightarrow> prefix (entries_to p t m) (p_log p v) \<or> (\<exists>u. t < u \<and> u \<le> p_term p v \<and> lacks p t m u)"
  using assms unfolding acks_ok_def by blast+

lemma acks_okI:
  assumes "\<And>v t m. (v, t, m) \<in> acked p \<Longrightarrow> t \<le> p_term p v"
    and "\<And>v t m. (v, t, m) \<in> acked p \<Longrightarrow> \<exists>c. chain p t = Some c \<and> m \<le> length c"
    and "\<And>v t m. (v, t, m) \<in> acked p \<Longrightarrow> own_entry p t m \<Longrightarrow>
      prefix (entries_to p t m) (p_log p v) \<or> (\<exists>u. t < u \<and> u \<le> p_term p v \<and> lacks p t m u)"
  shows "acks_ok p"
  using assms unfolding acks_ok_def by blast

lemma ballots_okD:
  assumes "ballots_ok p" and "(v, t', l) \<in> ballots p"
  shows "t' \<le> p_term p v"
    and "(v, t, m) \<in> acked p \<Longrightarrow> t < t' \<Longrightarrow> own_entry p t m \<Longrightarrow>
      covers t m l \<or> (\<exists>u. t < u \<and> u \<le> t' \<and> lacks p t m u)"
  using assms unfolding ballots_ok_def by blast+

lemma ballots_okI:
  assumes "\<And>v t' l. (v, t', l) \<in> ballots p \<Longrightarrow> t' \<le> p_term p v"
    and "\<And>v t' l t m. (v, t', l) \<in> ballots p \<Longrightarrow> (v, t, m) \<in> acked p \<Longrightarrow> t < t' \<Longrightarrow> own_entry p t m \<Longrightarrow>
      covers t m l \<or> (\<exists>u. t < u \<and> u \<le> t' \<and> lacks p t m u)"
  shows "ballots_ok p"
  using assms unfolding ballots_ok_def by blast

text \<open>What the voters of the election of term \<open>t'\<close> vouch for.\<close>

definition vouched :: "u64 set \<Rightarrow> protocol \<Rightarrow> nat \<Rightarrow> log_entry list \<Rightarrow> bool" where
  "vouched N p t' l \<longleftrightarrow> (\<exists>Q. majority_of N Q \<and> (\<forall>v \<in> Q. t' \<le> p_term p v \<and>
     (\<forall>t m. (v, t, m) \<in> acked p \<and> t < t' \<and> own_entry p t m \<longrightarrow>
        covers t m l \<or> (\<exists>u. t < u \<and> u < t' \<and> lacks p t m u))))"

definition elections_ok :: "u64 set \<Rightarrow> protocol \<Rightarrow> bool" where
  "elections_ok N p \<longleftrightarrow> (\<forall>t' l. starts p t' = Some l \<longrightarrow> vouched N p t' l)"

lemma vouchedE:
  assumes "vouched N p t' l"
  obtains Q where "majority_of N Q" "\<And>v. v \<in> Q \<Longrightarrow> t' \<le> p_term p v"
    "\<And>v t m. v \<in> Q \<Longrightarrow> (v, t, m) \<in> acked p \<Longrightarrow> t < t' \<Longrightarrow> own_entry p t m \<Longrightarrow>
      covers t m l \<or> (\<exists>u. t < u \<and> u < t' \<and> lacks p t m u)"
  using assms unfolding vouched_def by blast

lemma vouchedI:
  assumes "majority_of N Q" and "\<And>v. v \<in> Q \<Longrightarrow> t' \<le> p_term p v"
    and "\<And>v t m. v \<in> Q \<Longrightarrow> (v, t, m) \<in> acked p \<Longrightarrow> t < t' \<Longrightarrow> own_entry p t m \<Longrightarrow>
      covers t m l \<or> (\<exists>u. t < u \<and> u < t' \<and> lacks p t m u)"
  shows "vouched N p t' l"
  using assms unfolding vouched_def by blast

text \<open>A change that keeps the chains, raises terms and adds only acknowledgements of current terms.\<close>

lemma vouched_later:
  assumes "vouched N p t' l" and "starts p' = starts p" and "chain p' = chain p" and "\<And>v. p_term p v \<le> p_term p' v"
    and "\<And>v t m. (v, t, m) \<in> acked p' \<Longrightarrow> (v, t, m) \<in> acked p \<or> p_term p v \<le> t"
  shows "vouched N p' t' l"
proof -
  have same: "own_entry p' = own_entry p" "lacks p' = lacks p"
    using assms(2,3) by (simp_all add: own_entry_def lacks_def entries_to_def fun_eq_iff)
  from assms(1) obtain Q where Q: "majority_of N Q" "\<And>v. v \<in> Q \<Longrightarrow> t' \<le> p_term p v"
    "\<And>v t m. v \<in> Q \<Longrightarrow> (v, t, m) \<in> acked p \<Longrightarrow> t < t' \<Longrightarrow> own_entry p t m \<Longrightarrow>
      covers t m l \<or> (\<exists>u. t < u \<and> u < t' \<and> lacks p t m u)" by (rule vouchedE) blast
  show ?thesis
  proof (rule vouchedI [OF Q(1)])
    show "t' \<le> p_term p' v" if "v \<in> Q" for v using Q(2) [OF that] assms(4) by (rule order_trans)
    fix v t m
    assume v: "v \<in> Q" "(v, t, m) \<in> acked p'" "t < t'" "own_entry p' t m"
    with assms(5) Q(2) [OF v(1)] have "(v, t, m) \<in> acked p" by (meson leD order_trans)
    with Q(3) v same show "covers t m l \<or> (\<exists>u. t < u \<and> u < t' \<and> lacks p' t m u)" by simp
  qed
qed

lemma elections_ok_later:
  assumes "elections_ok N p" and "starts p' = starts p" and "chain p' = chain p" and "\<And>v. p_term p v \<le> p_term p' v"
    and "\<And>v t m. (v, t, m) \<in> acked p' \<Longrightarrow> (v, t, m) \<in> acked p \<or> p_term p v \<le> t"
  shows "elections_ok N p'"
  using assms(1) vouched_later [OF _ assms(2-5)] assms(2) unfolding elections_ok_def by auto

definition protocol_ok :: "u64 set \<Rightarrow> protocol \<Rightarrow> bool" where
  "protocol_ok N p \<longleftrightarrow> chains_ok p \<and> nodes_ok p \<and> acks_ok p \<and> ballots_ok p \<and> elections_ok N p"

lemma blank_protocol_ok: "protocol_ok N blank_protocol"
  by (simp add: protocol_ok_def blank_protocol_def chains_ok_def nodes_ok_def acks_ok_def ballots_ok_def elections_ok_def)

section \<open>Leader completeness\<close>

definition committed :: "u64 set \<Rightarrow> protocol \<Rightarrow> nat \<Rightarrow> nat \<Rightarrow> bool" where
  "committed N p t m \<longleftrightarrow> own_entry p t m \<and> (\<exists>Q. majority_of N Q \<and> (\<forall>v \<in> Q. (v, t, m) \<in> acked p))"

lemma entries_to_on_chain:
  assumes "chains_ok p" and "own_entry p t m"
  shows "on_chain p t (entries_to p t m)"
proof -
  from assms(2) obtain s c where sc: "starts p t = Some s" "chain p t = Some c" "length s < m" "m \<le> length c"
    unfolding own_entry_def by blast
  with chains_okD(4) [OF assms(1) sc(1)] obtain es where c: "c = s @ es" by auto
  then have "prefix s (take m c)" using sc(3) by simp
  with sc(1,2) show ?thesis unfolding on_chain_def entries_to_def by (auto simp: take_is_prefix)
qed

text \<open>A leader's start that covers an own entry of an earlier term holds it, if the leaders in between do.\<close>

lemma covers_holds:
  assumes "chains_ok p" and "own_entry p t m" and "starts p t' = Some s" and "covers t m s"
    and "\<And>u. t < u \<Longrightarrow> u < t' \<Longrightarrow> \<not> lacks p t m u"
  shows "prefix (entries_to p t m) s"
proof -
  have "s \<noteq> []"
    using assms(2,4) by (auto simp: covers_def last_tm_def own_entry_def)
  then obtain t1 where t1: "on_chain p t1 s" using chains_okD(3) [OF assms(1,3)] by blast
  let ?u = "last_tm s"
  have last: "last s = s ! (length s - 1)" "length s - 1 < length s" "take (Suc (length s - 1)) s = s"
    using \<open>s \<noteq> []\<close> by (simp_all add: last_conv_nth)
  then have u: "on_chain p ?u s" using on_chain_entry [OF assms(1) t1 last(2)] \<open>s \<noteq> []\<close> by (simp add: last_tm_def)
  have "?u < t'" using chains_okD(2) [OF assms(1,3)] \<open>s \<noteq> []\<close> by (simp add: last_tm_def)
  consider "t < ?u" | "t = ?u" "m \<le> length s" using assms(4) unfolding covers_def by blast
  then show ?thesis
  proof cases
    case 1
    from u obtain s' where "starts p ?u = Some s'" "prefix s' s" unfolding on_chain_def by blast
    moreover from assms(5) [OF 1 \<open>?u < t'\<close>] this(1) have "prefix (entries_to p t m) s'" unfolding lacks_def by blast
    ultimately show ?thesis by (metis prefix_order.order_trans)
  next
    case 2
    have "prefix (entries_to p t m) s \<or> prefix s (entries_to p t m)"
      using on_chain_comparable [OF entries_to_on_chain [OF assms(1,2)]] u 2(1) by simp
    moreover have "length (entries_to p t m) \<le> length s" using 2(2) by (simp add: entries_to_def)
    ultimately show ?thesis by (metis prefix_length_le prefix_same_length le_antisym prefix_order.order_refl)
  qed
qed

text \<open>What a majority acknowledged, every later leader starts with.\<close>

lemma leaders_complete:
  assumes "protocol_ok N p" and "committed N p t m" and "starts p t' = Some s" and "t < t'"
  shows "prefix (entries_to p t m) s"
  using assms(3,4)
proof (induction t' arbitrary: s rule: less_induct)
  case (less t')
  from assms(1) have ok: "chains_ok p" "elections_ok N p" by (simp_all add: protocol_ok_def)
  from assms(2) obtain Q where Q: "own_entry p t m" "majority_of N Q" "\<forall>v \<in> Q. (v, t, m) \<in> acked p"
    unfolding committed_def by blast
  from ok(2) less.prems(1) have "vouched N p t' s" unfolding elections_ok_def by blast
  then obtain Q' where Q': "majority_of N Q'"
    "\<And>v t m. v \<in> Q' \<Longrightarrow> (v, t, m) \<in> acked p \<Longrightarrow> t < t' \<Longrightarrow> own_entry p t m \<Longrightarrow>
       covers t m s \<or> (\<exists>u. t < u \<and> u < t' \<and> lacks p t m u)" by (rule vouchedE) blast
  have none: "\<not> lacks p t m u" if "t < u" "u < t'" for u
    using less.IH [OF that(2)] that(1) unfolding lacks_def by blast
  from majorities.quorum_meet [OF Q(2) Q'(1)] obtain v where "v \<in> Q" "v \<in> Q'" by blast
  then have "covers t m s" using Q Q'(2) less.prems(2) none by blast
  then show ?case using covers_holds [OF ok(1) Q(1) less.prems(1)] none by blast
qed

text \<open>Two committed prefixes are prefixes of one log.\<close>

lemma committed_agree:
  assumes "protocol_ok N p" and "committed N p t m" and "committed N p t' m'"
  shows "prefix (entries_to p t m) (entries_to p t' m') \<or> prefix (entries_to p t' m') (entries_to p t m)"
proof -
  have ok: "chains_ok p" using assms(1) by (simp add: protocol_ok_def)
  have entries_to: "\<exists>s. starts p u = Some s \<and> prefix s (entries_to p u i)" if "committed N p u i" for u i
    using entries_to_on_chain [OF ok, of u i] that unfolding committed_def on_chain_def by blast
  have later: "prefix (entries_to p u i) (entries_to p u' i')" if "committed N p u i" "committed N p u' i'" "u < u'" for u i u' i'
    using leaders_complete [OF assms(1) that(1) _ that(3)] entries_to [OF that(2)] by (metis prefix_order.order_trans)
  have "on_chain p t (entries_to p t m)" "on_chain p t' (entries_to p t' m')"
    using assms(2,3) entries_to_on_chain [OF ok] by (simp_all add: committed_def)
  then show ?thesis
    using later [OF assms(2,3)] later [OF assms(3,2)] on_chain_comparable by (metis linorder_neqE_nat)
qed

section \<open>Every step keeps the invariant\<close>

lemma frame_simps [simp]:
  "on_chain (p\<lparr>p_term := f\<rparr>) = on_chain p" "on_chain (p\<lparr>p_log := g\<rparr>) = on_chain p"
  "on_chain (p\<lparr>ballots := b\<rparr>) = on_chain p" "on_chain (p\<lparr>acked := a\<rparr>) = on_chain p"
  "own_entry (p\<lparr>p_term := f\<rparr>) = own_entry p" "own_entry (p\<lparr>p_log := g\<rparr>) = own_entry p"
  "own_entry (p\<lparr>ballots := b\<rparr>) = own_entry p" "own_entry (p\<lparr>acked := a\<rparr>) = own_entry p"
  "entries_to (p\<lparr>p_term := f\<rparr>) = entries_to p" "entries_to (p\<lparr>p_log := g\<rparr>) = entries_to p"
  "entries_to (p\<lparr>ballots := b\<rparr>) = entries_to p" "entries_to (p\<lparr>acked := a\<rparr>) = entries_to p"
  "lacks (p\<lparr>p_term := f\<rparr>) = lacks p" "lacks (p\<lparr>p_log := g\<rparr>) = lacks p"
  "lacks (p\<lparr>ballots := b\<rparr>) = lacks p" "lacks (p\<lparr>acked := a\<rparr>) = lacks p"
  "chains_ok (p\<lparr>p_term := f\<rparr>) = chains_ok p" "chains_ok (p\<lparr>p_log := g\<rparr>) = chains_ok p"
  "chains_ok (p\<lparr>ballots := b\<rparr>) = chains_ok p" "chains_ok (p\<lparr>acked := a\<rparr>) = chains_ok p"
  by (simp_all add: on_chain_def own_entry_def entries_to_def lacks_def chains_ok_def fun_eq_iff)

lemma protocol_okD:
  assumes "protocol_ok N p"
  shows "chains_ok p" and "nodes_ok p" and "acks_ok p" and "ballots_ok p" and "elections_ok N p"
  using assms by (simp_all add: protocol_ok_def)

text \<open>Terms only grow.\<close>

lemma learn_ok:
  assumes "protocol_ok N p" and "p_term p v \<le> t"
  shows "protocol_ok N (p\<lparr>p_term := (p_term p)(v := t)\<rparr>)"
proof -
  let ?p = "p\<lparr>p_term := (p_term p)(v := t)\<rparr>"
  note ok = protocol_okD [OF assms(1)]
  have up: "p_term p w \<le> p_term ?p w" for w using assms(2) by simp
  have le: "x \<le> p_term p w \<Longrightarrow> x \<le> p_term ?p w" for x w using up by (rule order_trans [rotated])
  have "p_log p w = [] \<or> (\<exists>t \<le> p_term ?p w. on_chain p t (p_log p w))" for w
    using ok(2) le [of _ w] unfolding nodes_ok_def by blast
  then have "nodes_ok ?p" unfolding nodes_ok_def frame_simps by simp
  moreover have "acks_ok ?p"
  proof (rule acks_okI, goal_cases)
    case (1 w t m)
    then show ?case by (intro le acks_okD(1) [OF ok(3)]) simp
  next
    case (2 w t m)
    then show ?case using acks_okD(2) [OF ok(3)] by simp
  next
    case (3 w t m)
    then have "prefix (entries_to p t m) (p_log p w) \<or> (\<exists>u. t < u \<and> u \<le> p_term p w \<and> lacks p t m u)"
      using acks_okD(3) [OF ok(3), of w t m] by simp
    then have "prefix (entries_to p t m) (p_log p w) \<or> (\<exists>u. t < u \<and> u \<le> p_term ?p w \<and> lacks p t m u)"
      using le by blast
    then show ?case by simp
  qed
  moreover have "ballots_ok ?p"
  proof (rule ballots_okI, goal_cases)
    case (1 w t' l)
    then show ?case by (intro le ballots_okD(1) [OF ok(4)]) simp
  next
    case (2 w t' l t m)
    then show ?case using ballots_okD(2) [OF ok(4), of w t' l t m] by simp
  qed
  moreover have "elections_ok N ?p" by (rule elections_ok_later [OF ok(5) _ _ up]) simp_all
  ultimately show ?thesis using ok(1) by (simp add: protocol_ok_def)
qed

text \<open>A node takes over the log of the leader of its term.\<close>

lemma adopt_ok:
  assumes "protocol_ok N p" and "on_chain p (p_term p v) l" and "\<not> strict_prefix l (p_log p v)"
  shows "protocol_ok N (p\<lparr>p_log := (p_log p)(v := l)\<rparr>)"
proof -
  let ?p = "p\<lparr>p_log := (p_log p)(v := l)\<rparr>" and ?T = "p_term p v"
  note ok = protocol_okD [OF assms(1)]
  have keep: "prefix (entries_to p t m) l \<or> (\<exists>u. t < u \<and> u \<le> ?T \<and> lacks p t m u)"
    if a: "(v, t, m) \<in> acked p" "own_entry p t m" for t m
  proof (cases "prefix (entries_to p t m) (p_log p v)")
    case False
    with acks_okD(3) [OF ok(3) a] show ?thesis by blast
  next
    case True
    show ?thesis
    proof (cases "t = ?T")
      case eq: True
      then have "prefix (entries_to p t m) l \<or> prefix l (entries_to p t m)"
        using on_chain_comparable [OF entries_to_on_chain [OF ok(1) a(2)]] assms(2) by simp
      moreover have "l = p_log p v" if "prefix l (entries_to p t m)"
        using prefix_order.order_trans [OF that True] assms(3) by (metis strict_prefix_def)
      ultimately show ?thesis using True by blast
    next
      case False
      then have "t < ?T" using acks_okD(1) [OF ok(3) a(1)] by simp
      from assms(2) obtain s where s: "starts p ?T = Some s" "prefix s l" unfolding on_chain_def by blast
      have "prefix (entries_to p t m) l" if "prefix (entries_to p t m) s" using that s(2) by (rule prefix_order.order_trans)
      moreover have "lacks p t m ?T" if "\<not> prefix (entries_to p t m) s" using s(1) that unfolding lacks_def by blast
      ultimately show ?thesis using \<open>t < ?T\<close> by blast
    qed
  qed
  have "acks_ok ?p"
  proof (rule acks_okI, goal_cases)
    case (3 w t m)
    then show ?case using keep [of t m] acks_okD(3) [OF ok(3), of w t m] by (cases "w = v") simp_all
  qed (use acks_okD(1,2) [OF ok(3)] in simp_all)
  moreover have "nodes_ok ?p" using ok(2) assms(2) unfolding nodes_ok_def by auto
  moreover have "ballots_ok ?p" by (rule ballots_okI) (use ballots_okD [OF ok(4)] in simp_all)
  moreover have "elections_ok N ?p" by (rule elections_ok_later [OF ok(5)]) simp_all
  ultimately show ?thesis using ok(1) by (simp add: protocol_ok_def)
qed

text \<open>A node acknowledges what it holds of the chain of its term.\<close>

lemma acknowledge_ok:
  assumes "protocol_ok N p" and "chain p (p_term p v) = Some c" and "m \<le> length c" and "prefix (take m c) (p_log p v)"
  shows "protocol_ok N (p\<lparr>acked := acked p \<union> {(v, p_term p v, i) | i. i \<le> m}\<rparr>)"
proof -
  let ?p = "p\<lparr>acked := acked p \<union> {(v, p_term p v, i) | i. i \<le> m}\<rparr>"
  note ok = protocol_okD [OF assms(1)]
  have holds: "prefix (entries_to p (p_term p v) i) (p_log p v)" if "i \<le> m" for i
  proof -
    have "prefix (take i (take m c)) (take m c)" by (rule take_is_prefix)
    with that assms(2,4) show ?thesis by (auto simp: entries_to_def min_absorb1 intro: prefix_order.order_trans)
  qed
  have cases: "(w, t, i) \<in> acked p \<or> w = v \<and> t = p_term p v \<and> i \<le> m" if "(w, t, i) \<in> acked ?p" for w t i
    using that by auto
  have "acks_ok ?p"
  proof (rule acks_okI, goal_cases)
    case (1 w t i)
    then show ?case using cases [OF 1] acks_okD(1) [OF ok(3), of w t i] by auto
  next
    case (2 w t i)
    then show ?case using cases [OF 2] acks_okD(2) [OF ok(3), of w t i] assms(2,3) by auto
  next
    case (3 w t i)
    then show ?case using cases [OF 3(1)] acks_okD(3) [OF ok(3), of w t i] holds unfolding frame_simps by auto
  qed
  moreover have "ballots_ok ?p"
  proof (rule ballots_okI, goal_cases)
    case (1 w t' l)
    then show ?case using ballots_okD(1) [OF ok(4)] by simp
  next
    case (2 w t' l t i)
    then have b: "(w, t', l) \<in> ballots p" by simp
    from cases [OF 2(2)] 2(3) ballots_okD(1) [OF ok(4) b] have "(w, t, i) \<in> acked p" by auto
    with ballots_okD(2) [OF ok(4) b] 2 show ?case by simp
  qed
  moreover have "elections_ok N ?p" by (rule elections_ok_later [OF ok(5)]) auto
  moreover have "nodes_ok ?p" using ok(2) by (simp add: nodes_ok_def)
  ultimately show ?thesis using ok(1) by (simp add: protocol_ok_def)
qed

text \<open>A vote is cast.\<close>

lemma on_chain_sorted:
  assumes "chains_ok p" and "on_chain p t l" and "i \<le> j" and "j < length l"
  shows "tm (l ! i) \<le> tm (l ! j)"
proof -
  have "on_chain p (tm (l ! j)) (take (Suc j) l)" by (rule on_chain_entry [OF assms(1,2,4)])
  from on_chain_term(2) [OF assms(1) this, of i] assms(3,4) show ?thesis by simp
qed

lemma last_of_upto:
  assumes "chains_ok p" and "own_entry p t m"
  shows "length (entries_to p t m) = m" and "0 < m" and "tm (entries_to p t m ! (m - 1)) = t"
proof -
  from assms(2) obtain s c where sc: "starts p t = Some s" "chain p t = Some c" "length s < m" "m \<le> length c"
    unfolding own_entry_def by blast
  then obtain es where es: "c = s @ es" "\<forall>e \<in> set es. tm e = t" using chains_okD(4) [OF assms(1) sc(1)] by auto
  show "length (entries_to p t m) = m" "0 < m" using sc by (auto simp: entries_to_def)
  have "m - 1 - length s < length es" using sc(3,4) es(1) by auto
  with es sc show "tm (entries_to p t m ! (m - 1)) = t" by (simp add: entries_to_def nth_append)
qed

lemma up_to_date_covers:
  assumes "chains_ok p" and "on_chain p t' mine" and "own_entry p t m" and "prefix (entries_to p t m) mine"
    and "up_to_date l mine"
  shows "covers t m l"
proof -
  note lst = last_of_upto [OF assms(1,3)]
  from assms(4) lst(1) have len: "m \<le> length mine" using prefix_length_le by metis
  with lst(2) have "mine \<noteq> []" by auto
  from assms(4) lst(1,2) have "mine ! (m - 1) = entries_to p t m ! (m - 1)"
    by (auto elim!: prefixE simp: nth_append)
  with lst(3) have "t = tm (mine ! (m - 1))" by simp
  also have "\<dots> \<le> tm (mine ! (length mine - 1))"
    using len \<open>mine \<noteq> []\<close> by (intro on_chain_sorted [OF assms(1,2)]) auto
  finally have "t \<le> last_tm mine" using \<open>mine \<noteq> []\<close> by (simp add: last_tm_def last_conv_nth)
  with assms(5) len show ?thesis by (auto simp: up_to_date_def covers_def)
qed

lemma vote_ok:
  assumes "protocol_ok N p" and "up_to_date l (p_log p v)"
  shows "protocol_ok N (p\<lparr>ballots := insert (v, p_term p v, l) (ballots p)\<rparr>)"
proof -
  let ?p = "p\<lparr>ballots := insert (v, p_term p v, l) (ballots p)\<rparr>"
  note ok = protocol_okD [OF assms(1)]
  have fits: "covers t m l \<or> (\<exists>u. t < u \<and> u \<le> p_term p v \<and> lacks p t m u)"
    if a: "(v, t, m) \<in> acked p" "own_entry p t m" for t m
  proof (cases "prefix (entries_to p t m) (p_log p v)")
    case False
    with acks_okD(3) [OF ok(3) a] show ?thesis by blast
  next
    case True
    then have "p_log p v \<noteq> []" using last_of_upto [OF ok(1) a(2)] by auto
    with ok(2) obtain t' where "on_chain p t' (p_log p v)" unfolding nodes_ok_def by blast
    from up_to_date_covers [OF ok(1) this a(2) True assms(2)] show ?thesis ..
  qed
  have "ballots_ok ?p"
  proof (rule ballots_okI, goal_cases)
    case (1 w t' l')
    then show ?case using ballots_okD(1) [OF ok(4), of w t' l'] by auto
  next
    case (2 w t' l' t m)
    then show ?case using ballots_okD(2) [OF ok(4), of w t' l' t m] fits [of t m] unfolding frame_simps by auto
  qed
  moreover have "acks_ok ?p" by (rule acks_okI) (use acks_okD [OF ok(3)] in simp_all)
  moreover have "nodes_ok ?p" using ok(2) by (simp add: nodes_ok_def)
  moreover have "elections_ok N ?p" by (rule elections_ok_later [OF ok(5)]) simp_all
  ultimately show ?thesis using ok(1) by (simp add: protocol_ok_def)
qed

text \<open>The chains grow: nothing that was said of an acknowledged position changes.\<close>

definition chains_grow :: "protocol \<Rightarrow> protocol \<Rightarrow> bool" where
  "chains_grow p p' \<longleftrightarrow>
     p_term p' = p_term p \<and> p_log p' = p_log p \<and> ballots p' = ballots p \<and> acked p' = acked p \<and>
     starts p \<subseteq>\<^sub>m starts p' \<and> (\<forall>t c. chain p t = Some c \<longrightarrow> starts p' t = starts p t \<and> (\<exists>es. chain p' t = Some (c @ es)))"

lemma grown_on_chain: "chains_grow p p' \<Longrightarrow> on_chain p t l \<Longrightarrow> on_chain p' t l"
  unfolding chains_grow_def on_chain_def by (metis prefix_prefix)

lemma grown_lacks:
  assumes "chains_grow p p'" and "chain p t = Some c" and "m \<le> length c" and "lacks p t m u"
  shows "lacks p' t m u"
proof -
  from assms(4) obtain s where s: "starts p u = Some s" "\<not> prefix (entries_to p t m) s" unfolding lacks_def by blast
  from assms(1,2) obtain es where "chain p' t = Some (c @ es)" unfolding chains_grow_def by blast
  then have "entries_to p' t m = entries_to p t m" using assms(2,3) by (simp add: entries_to_def)
  moreover have "starts p' u = Some s" using assms(1) s(1) by (auto simp: chains_grow_def map_le_def dom_def)
  ultimately show ?thesis using s(2) by (simp add: lacks_def)
qed

lemma grown_own:
  assumes "chains_grow p p'" and "chain p t = Some c" and "m \<le> length c" and "own_entry p' t m"
  shows "own_entry p t m" and "entries_to p' t m = entries_to p t m"
proof -
  from assms(1,2) obtain es where es: "chain p' t = Some (c @ es)" "starts p' t = starts p t" unfolding chains_grow_def by blast
  with assms(2-4) show "own_entry p t m" "entries_to p' t m = entries_to p t m" by (auto simp: own_entry_def entries_to_def)
qed

lemma grown_ok:
  assumes "protocol_ok N p" and "chains_grow p p'"
  shows "nodes_ok p'" and "acks_ok p'" and "ballots_ok p'" and "starts p t' = Some l \<Longrightarrow> vouched N p' t' l"
proof -
  note ok = protocol_okD [OF assms(1)]
  from assms(2) have same: "p_term p' = p_term p" "p_log p' = p_log p" "ballots p' = ballots p" "acked p' = acked p"
    by (simp_all add: chains_grow_def)
  note pos = acks_okD(2) [OF ok(3)]
  have own: "own_entry p t m" "entries_to p' t m = entries_to p t m" if a: "(v, t, m) \<in> acked p" "own_entry p' t m" for v t m
    using pos [OF a(1)] grown_own [OF assms(2) _ _ a(2)] by blast+
  have lacking: "lacks p' t m u" if a: "(v, t, m) \<in> acked p" "lacks p t m u" for v t m u
    using pos [OF a(1)] grown_lacks [OF assms(2) _ _ a(2)] by blast
  show "nodes_ok p'" using ok(2) grown_on_chain [OF assms(2)] unfolding nodes_ok_def same by blast
  show "acks_ok p'"
  proof (rule acks_okI, unfold same, goal_cases)
    case (1 v t m)
    then show ?case by (rule acks_okD(1) [OF ok(3)])
  next
    case (2 v t m)
    from pos [OF this] obtain c where c: "chain p t = Some c" "m \<le> length c" by blast
    with assms(2) obtain es where "chain p' t = Some (c @ es)" unfolding chains_grow_def by blast
    with c(2) show ?case by simp
  next
    case (3 v t m)
    note o = own [OF 3]
    from acks_okD(3) [OF ok(3) 3(1) o(1)] lacking [OF 3(1)] show ?case unfolding o(2) by blast
  qed
  show "ballots_ok p'"
  proof (rule ballots_okI, unfold same, goal_cases)
    case (1 v t' l)
    then show ?case by (rule ballots_okD(1) [OF ok(4)])
  next
    case (2 v t' l t m)
    from ballots_okD(2) [OF ok(4) 2(1-3) own(1) [OF 2(2,4)]] lacking [OF 2(2)] show ?case by blast
  qed
  assume "starts p t' = Some l"
  with ok(5) have "vouched N p t' l" unfolding elections_ok_def by blast
  then obtain Q where Q: "majority_of N Q" "\<And>v. v \<in> Q \<Longrightarrow> t' \<le> p_term p v"
    "\<And>v t m. v \<in> Q \<Longrightarrow> (v, t, m) \<in> acked p \<Longrightarrow> t < t' \<Longrightarrow> own_entry p t m \<Longrightarrow>
       covers t m l \<or> (\<exists>u. t < u \<and> u < t' \<and> lacks p t m u)"
    by (rule vouchedE) blast
  show "vouched N p' t' l"
  proof (rule vouchedI [OF Q(1)], unfold same, goal_cases)
    case (1 v)
    then show ?case by (rule Q(2))
  next
    case (2 v t m)
    from Q(3) [OF 2(1-3) own(1) [OF 2(2,4)]] lacking [OF 2(2)] show ?case by blast
  qed
qed

text \<open>A candidate with a majority becomes leader.\<close>

lemma elect_ok:
  assumes "protocol_ok N p" and "0 < t" and "starts p t = None" and "l = [] \<or> (\<exists>t' < t. on_chain p t' l)"
    and "majority_of N Q" and "\<forall>v \<in> Q. (v, t, l) \<in> ballots p"
  shows "protocol_ok N (p\<lparr>starts := (starts p)(t \<mapsto> l), chain := (chain p)(t \<mapsto> l)\<rparr>)"
proof -
  let ?p = "p\<lparr>starts := (starts p)(t \<mapsto> l), chain := (chain p)(t \<mapsto> l)\<rparr>"
  note ok = protocol_okD [OF assms(1)]
  have none: "chain p t = None" using ok(1) assms(3) unfolding chains_ok_def by (metis domIff)
  with assms(3) have grow: "chains_grow p ?p" by (auto simp: chains_grow_def map_le_def)
  note on = grown_on_chain [OF grow] and g = grown_ok [OF assms(1) grow]
  have "chains_ok ?p"
    unfolding chains_ok_def
  proof (intro conjI allI impI)
    show "dom (chain ?p) = dom (starts ?p)" using ok(1) by (simp add: chains_ok_def)
    fix u s
    assume s: "starts ?p u = Some s"
    have "0 < u \<and> (\<forall>e \<in> set s. tm e < u) \<and> (\<exists>es. chain ?p u = Some (s @ es) \<and> (\<forall>e \<in> set es. tm e = u)) \<and>
        (s = [] \<or> (\<exists>t' < u. on_chain p t' s))"
    proof (cases "u = t")
      case True
      moreover have "tm e < t" if "e \<in> set l" for e
      proof -
        from that assms(4) obtain t' where "t' < t" "on_chain p t' l" by auto
        moreover from that obtain i where "i < length l" "l ! i = e" by (auto simp: in_set_conv_nth)
        ultimately show ?thesis using on_chain_term(2) [OF ok(1)] by (metis le_less_trans)
      qed
      ultimately show ?thesis using s assms(2,4) by auto
    next
      case False
      with s chains_okD [OF ok(1), of u s] show ?thesis by auto
    qed
    with on show "0 < u" "\<forall>e \<in> set s. tm e < u" "\<exists>es. chain ?p u = Some (s @ es) \<and> (\<forall>e \<in> set es. tm e = u)"
      "s = [] \<or> (\<exists>t' < u. on_chain ?p t' s)" by blast+
  qed
  moreover have "elections_ok N ?p"
    unfolding elections_ok_def
  proof (intro allI impI)
    fix t' l'
    assume s: "starts ?p t' = Some l'"
    show "vouched N ?p t' l'"
    proof (cases "t' = t")
      case False
      with s g(4) show ?thesis by simp
    next
      case True
      have new: "covers u m l \<or> (\<exists>x. u < x \<and> x < t \<and> lacks ?p u m x)"
        if a: "v \<in> Q" "(v, u, m) \<in> acked p" "u < t" "own_entry ?p u m" for v u m
      proof -
        obtain c where c: "chain p u = Some c" "m \<le> length c" using acks_okD(2) [OF ok(3) a(2)] by blast
        have b: "(v, t, l) \<in> ballots p" using assms(6) a(1) by blast
        from ballots_okD(2) [OF ok(4) b a(2,3) grown_own(1) [OF grow c a(4)]]
        consider "covers u m l" | x where "u < x" "x \<le> t" "lacks p u m x" by blast
        then show ?thesis
        proof cases
          case (2 x)
          with assms(3) have "x \<noteq> t" by (auto simp: lacks_def)
          with 2 grown_lacks [OF grow c 2(3)] show ?thesis by (metis le_neq_trans)
        qed simp
      qed
      have "vouched N ?p t l"
        by (rule vouchedI [OF assms(5)]) (use new ballots_okD(1) [OF ok(4)] assms(6) in auto)
      with True s show ?thesis by simp
    qed
  qed
  ultimately show ?thesis using g(1-3) by (simp add: protocol_ok_def)
qed

text \<open>A leader appends an entry of its term.\<close>

lemma extend_ok:
  assumes "protocol_ok N p" and "chain p t = Some c" and "tm e = t"
  shows "protocol_ok N (p\<lparr>chain := (chain p)(t \<mapsto> c @ [e])\<rparr>)"
proof -
  let ?p = "p\<lparr>chain := (chain p)(t \<mapsto> c @ [e])\<rparr>"
  note ok = protocol_okD [OF assms(1)]
  have grow: "chains_grow p ?p" using assms(2) by (auto simp: chains_grow_def map_le_def)
  note on = grown_on_chain [OF grow] and g = grown_ok [OF assms(1) grow]
  have "chains_ok ?p"
    unfolding chains_ok_def
  proof (intro conjI allI impI)
    show "dom (chain ?p) = dom (starts ?p)" using ok(1) assms(2) by (auto simp: chains_ok_def)
    fix u s
    assume "starts ?p u = Some s"
    then have s: "starts p u = Some s" by simp
    note k = chains_okD [OF ok(1) s]
    show "0 < u" "\<forall>e \<in> set s. tm e < u" using k(1,2) by blast+
    show "s = [] \<or> (\<exists>t' < u. on_chain ?p t' s)" using k(3) on by blast
    from k(4) obtain es where "chain p u = Some (s @ es)" "\<forall>e \<in> set es. tm e = u" by blast
    then show "\<exists>es. chain ?p u = Some (s @ es) \<and> (\<forall>e \<in> set es. tm e = u)"
      using assms(2,3) by (intro exI [of _ "if u = t then es @ [e] else es"]) auto
  qed
  moreover have "elections_ok N ?p" using g(4) unfolding elections_ok_def by simp
  ultimately show ?thesis using g(1-3) by (simp add: protocol_ok_def)
qed

theorem protocol_step_ok: "protocol_step N p p' \<Longrightarrow> protocol_ok N p \<Longrightarrow> protocol_ok N p'"
proof (induction rule: protocol_step.induct)
  case (elect t p l Q)
  then show ?case by (intro elect_ok)
next
  case (adopt p v l)
  then show ?case by (intro adopt_ok)
qed (simp_all only: learn_ok acknowledge_ok vote_ok extend_ok)

end
