(* ===== verification/Plain_Node.thy ===== *)
theory Plain_Node
  imports Raft_Protocol Node_Type Leader_Log
begin

text \<open>
  Nodes that never compacted their log. Such a log is the sentinel of the constructor followed by a
  list of entries, its \<open>body\<close>, on which the abstract protocol of \<open>Raft_Protocol\<close> works. Here the
  operations of the log and of the node are stated on bodies, with what each leaves on disk.
\<close>

section \<open>The body of a log\<close>

definition plain :: "raft_log \<Rightarrow> bool" where
  "plain l \<longleftrightarrow> log_wf l \<and> log_snapshotIndex l = 0 \<and> log_snapshotTerm l = 0 \<and> hd (Entries l) = dummy_entry"

definition body :: "raft_log \<Rightarrow> log_entry list" where
  "body l = tl (Entries l)"

lemma plainD:
  assumes "plain l"
  shows "log_wf l" and "uncompacted l" and "Entries l = dummy_entry # body l" and "last_nat l = length (body l)"
    and "length (body l) < 18446744073709551616"
proof -
  show "log_wf l" "uncompacted l" using assms by (simp_all add: plain_def uncompacted_def)
  then show "Entries l = dummy_entry # body l" "last_nat l = length (body l)"
    using assms log_wf_nonempty [of l] by (cases "Entries l"; simp add: plain_def body_def last_nat_def)+
  with log_wf_bound [OF \<open>log_wf l\<close>] show "length (body l) < 18446744073709551616" by simp
qed

lemma plain_new [simp]: "plain new_log" "body new_log = []"
  by (simp_all add: plain_def body_def) (simp_all add: new_log_def)

lemma plain_empty: "plain l \<Longrightarrow> body l = [] \<Longrightarrow> l = new_log"
  using plainD(3) [of l] by (cases l) (simp add: plain_def new_log_def)

lemma last_index: "plain l \<Longrightarrow> unat (getLastIndex l) = length (body l)"
  by (simp add: getLastIndex_nat plainD)

lemma term_at:
  assumes "plain l"
  shows "getTerm l i = (if 0 < unat i \<and> unat i \<le> length (body l) then e_term (body l ! (unat i - 1)) else 0)"
  unfolding getTerm_def plainD(3) [OF assms] by (cases "unat i") (simp_all add: dummy_entry_def Suc_le_eq)

lemma last_term: "plain l \<Longrightarrow> unat (getLastTerm l) = last_tm (body l)"
  using plainD(3) [of l] by (simp add: getLastTerm_def last_tm_def tm_def dummy_entry_def)

lemma entry_at:
  assumes "plain l"
  shows "getEntry l i = Inr e \<longleftrightarrow> 0 < unat i \<and> unat i \<le> length (body l) \<and> e = body l ! (unat i - 1)"
proof -
  have "log_snapshotIndex l = 0" using assms by (simp add: plain_def)
  then have get: "getEntry l i = (if i = 0 then Inl (Out_of_range ''Entry is in snapshot'')
      else if length (dummy_entry # body l) \<le> unat i then Inl (Out_of_range ''Index out of range'')
      else Inr ((dummy_entry # body l) ! unat i))"
    unfolding getEntry_def plainD(3) [OF assms] by (simp add: Let_def)
  show ?thesis
  proof (cases "unat i")
    case 0
    then have "i = 0" by (simp add: unat_eq_0)
    then show ?thesis unfolding get by simp
  next
    case (Suc k)
    then have "i \<noteq> 0" by auto
    with Suc show ?thesis unfolding get by auto
  qed
qed

lemma body_consecutive:
  assumes "plain l"
  shows "consecutive 1 (body l)"
proof -
  have "consecutive (unat (log_snapshotIndex l)) (Entries l)"
    using plainD(1) [OF assms] unfolding log_wf_consecutive by blast
  then have "consecutive (unat (log_snapshotIndex l)) (dummy_entry # body l)" unfolding plainD(3) [OF assms] .
  moreover have "log_snapshotIndex l = 0" using assms by (simp add: plain_def)
  ultimately show ?thesis by simp
qed

lemma body_index: "plain l \<Longrightarrow> k < length (body l) \<Longrightarrow> unat (e_index (body l ! k)) = Suc k"
  using body_consecutive [of l] unfolding consecutive_def by auto

text \<open>A log that fits into memory leaves room for one more index.\<close>

lemma fits_bound:
  assumes "plain l" and "log_fits l"
  shows "length (body l) < 18446744073709551615"
proof -
  have entries: "length xs \<le> length (concat (map entry_bytes xs))" for xs
    by (induction xs) (simp_all add: entry_bytes_def)
  have "length (concat (map entry_bytes (body l))) \<le> length (serializeLog l)"
    unfolding serializeLog_image [OF plainD(1) [OF assms(1)]] body_def by simp
  from le_trans [OF entries this] have "length (body l) \<le> length (serializeLog l)" .
  with assms(2) show ?thesis by (simp add: log_fits_def max_vector_size_def)
qed

lemma append_body:
  assumes "plain l" and "length (body l) < 18446744073709551615" and "log_append e l = Inr l'"
  shows "plain l' \<and> body l' = body l @ [e] \<and> e_index e = getLastIndex l + 1"
proof -
  note d = plainD [OF assms(1)]
  from log_append_Inr [OF d(1), of e l'] assms(2,3) d(4) have l': "l' = l\<lparr>Entries := Entries l @ [e]\<rparr>" by simp
  have "log_wf l'" using log_append_wf [OF d(1) _ assms(3)] assms(2) d(4) by simp
  moreover have "e_index e = getLastIndex l + 1"
    using assms(3) by (simp add: log_append_def getLastIndex_def Let_def split: if_splits)
  moreover have "Entries l' = dummy_entry # body l @ [e]" "log_snapshotIndex l' = 0" "log_snapshotTerm l' = 0"
    using assms(1) by (simp_all add: l' d(3) plain_def)
  ultimately show ?thesis by (simp add: plain_def body_def [of l'])
qed

text \<open>The loop over new entries keeps the sentinel.\<close>

definition same_base :: "raft_log \<Rightarrow> raft_log \<Rightarrow> bool" where
  "same_base l m \<longleftrightarrow> Entries m \<noteq> [] \<and> hd (Entries m) = hd (Entries l) \<and>
     log_snapshotTerm m = log_snapshotTerm l \<and> log_snapshotIndex m = log_snapshotIndex l"

lemma same_base_trans: "same_base a b \<Longrightarrow> same_base b c \<Longrightarrow> same_base a c"
  by (simp add: same_base_def)

lemma same_base_append: "log_append e m = Inr m' \<Longrightarrow> Entries m \<noteq> [] \<Longrightarrow> same_base m m'"
  by (auto simp: log_append_def Let_def same_base_def split: if_splits)

lemma same_base_truncate:
  assumes "log_truncate i l = Inr m" and "Entries l \<noteq> []"
  shows "same_base l m"
proof -
  from assms(1) consider "m = l" | "i \<noteq> 0" "m = l\<lparr>Entries := take (unat i) (Entries l)\<rparr>"
    by (auto simp: log_truncate_def Let_def split: if_splits)
  then show ?thesis
  proof cases
    case 1
    with assms(2) show ?thesis by (simp add: same_base_def)
  next
    case 2
    then obtain k where "unat i = Suc k" by (cases "unat i") (auto simp: unat_eq_0)
    moreover obtain x xs where "Entries l = x # xs" using assms(2) by (cases "Entries l") auto
    ultimately show ?thesis using 2 by (simp add: same_base_def)
  qed
qed

lemma same_base_andThen:
  assumes "same_base l (snd x)" and "\<And>a m. same_base l m \<Longrightarrow> same_base l (snd (f a m))"
  shows "same_base l (snd (andThen x f))"
  using assms by (simp add: snd_andThen split: sum.split)

lemma append_entries_loop_base: "Entries l \<noteq> [] \<Longrightarrow> same_base l (snd (append_entries_loop i es lst l))"
proof (induction es arbitrary: i lst l)
  case Nil
  then show ?case by (simp add: same_base_def)
next
  case (Cons e es)
  show ?case
    unfolding append_entries_loop.simps
  proof (rule same_base_andThen, goal_cases)
    case 1
    show ?case using same_base_truncate [of i l] Cons.prems by (auto simp: same_base_def split: sum.split)
  next
    case (2 r m)
    then have "Entries m \<noteq> []" by (simp add: same_base_def)
    show ?case
    proof (cases "log_append e m")
      case (Inl x)
      with 2 Cons.IH [OF \<open>Entries m \<noteq> []\<close>] show ?thesis by (auto intro: same_base_trans)
    next
      case (Inr m')
      from same_base_append [OF Inr \<open>Entries m \<noteq> []\<close>] have m': "same_base m m'" "Entries m' \<noteq> []"
        by (simp_all add: same_base_def)
      have "same_base l (snd (append_entries_loop (i + 1) es (getLastIndex m') m'))"
        by (rule same_base_trans [OF 2 same_base_trans [OF m'(1) Cons.IH [OF m'(2)]]])
      moreover have "same_base l (snd (append_entries_loop (i + 1) es r m))"
        by (rule same_base_trans [OF 2 Cons.IH [OF \<open>Entries m \<noteq> []\<close>]])
      ultimately show ?thesis using Inr by simp
    qed
  qed
qed

section \<open>The whole state is on disk\<close>

text \<open>Stronger than \<open>stored\<close>: the file holds the log as well. It is kept as long as no operation throws.\<close>

definition saved :: "raft_node \<Rightarrow> bool" where
  "saved n \<longleftrightarrow> disk_ok n \<and>
     (\<forall>p. persistence n = Some p \<and> stateDir p \<noteq> [] \<longrightarrow>
        files (fs p) (getStatePath p) = None \<and> log n = new_log \<or>
        files (fs p) (getStatePath p) = Some (state_image (currentTerm n) (votedFor n) (log n)
          (getSnapshotIndex (log n)) (getSnapshotTerm (log n))))"

lemma saved_disk_ok: "saved n \<Longrightarrow> disk_ok n"
  by (simp add: saved_def)

lemma saved_unchanged:
  assumes "persistence m = persistence n" and "currentTerm m = currentTerm n" and "votedFor m = votedFor n" and "log m = log n"
  shows "saved m = saved n"
  unfolding saved_def disk_ok_def assms ..

lemma saved_persistState [simp]: "disk_ok n \<Longrightarrow> saved (snd (persistState n))"
  using persistState_persisted [of n] persistState_ok(2) [of n] unfolding saved_def persisted_def by blast

lemma saved_becomeFollower [simp]: "disk_ok n \<Longrightarrow> saved (snd (becomeFollower t n))"
  by (simp add: becomeFollower_def)

lemma saved_becomeCandidate [simp]: "disk_ok n \<Longrightarrow> saved (snd (becomeCandidate n))"
  by (simp add: becomeCandidate_def)

lemma saved_resetElectionTimer [simp]: "saved (resetElectionTimer now n) = saved n"
  by (rule saved_unchanged) simp_all

lemma saved_applyCommittedEntries [simp]: "saved (snd (applyCommittedEntries n)) = saved n"
  by (rule saved_unchanged) simp_all

lemma saved_andThen:
  "saved (snd x) \<Longrightarrow> (\<And>a m. saved m \<Longrightarrow> saved (snd (f a m))) \<Longrightarrow> saved (snd (andThen x f))"
  by (simp add: snd_andThen split: sum.split)

lemma saved_handleRequestVote: "saved n \<Longrightarrow> saved (snd (handleRequestVote now args n))"
proof -
  assume n: "saved n"
  have c: "saved (snd (consider_vote now args m))" if "saved m" for m
    using that by (simp add: consider_vote_def Let_def snd_andThen saved_disk_ok split: sum.split)
  show ?thesis using n by (auto simp: handleRequestVote_def saved_disk_ok intro!: saved_andThen c)
qed

lemma saved_handleClientRequest: "saved n \<Longrightarrow> saved (snd (handleClientRequest request n))"
  using saved_disk_ok [of n]
  by (auto simp: handleClientRequest_def Let_def split: sum.splits prod.splits unit.splits
      dest!: arg_cong [where f = snd])

lemma saved_begin_election: "saved n \<Longrightarrow> saved (snd (begin_election now n))"
  by (simp add: begin_election_def Let_def snd_andThen saved_disk_ok split: sum.split)

lemma saved_store_entries:
  assumes "saved n" and "store_entries args n = (Inr u, n')"
  shows "saved n'"
proof (cases "ae_entries args = []")
  case True
  with assms show ?thesis by (simp add: store_entries_def)
next
  case False
  with assms(2) obtain l where "persistState (n\<lparr>log := l\<rparr>) = (Inr u, n')"
    by (auto simp: store_entries_def andThen_Inr_iff split: prod.splits)
  then have "n' = snd (persistState (n\<lparr>log := l\<rparr>))" by simp
  with saved_disk_ok [OF assms(1)] show ?thesis by simp
qed

lemma saved_process_entries:
  assumes "saved n" and "process_entries now args n = (Inr reply, n')"
  shows "saved n'"
proof -
  let ?n = "resetElectionTimer now (n\<lparr>currentLeaderId := ae_leaderId args\<rparr>)"
  have s: "saved ?n" using assms(1) saved_unchanged [of "n\<lparr>currentLeaderId := ae_leaderId args\<rparr>" n] by simp
  show ?thesis
  proof (cases "check_previous args ?n")
    case (Some r)
    with assms(2) s show ?thesis by (simp add: process_entries_def Let_def)
  next
    case None
    with assms(2) obtain u m where m: "store_entries args ?n = (Inr u, m)" "snd (advance_commit args m) = n'"
      by (auto simp: process_entries_def Let_def andThen_Inr_iff)
    have "saved m" by (rule saved_store_entries [OF s m(1)])
    then have "saved (snd (advance_commit args m))"
      using saved_unchanged [of "snd (advance_commit args m)" m] by simp
    then show ?thesis by (simp add: m(2))
  qed
qed

lemma saved_handleAppendEntries:
  assumes "saved n" and "handleAppendEntries now args n = (Inr reply, n')"
  shows "saved n'"
proof -
  have "saved m" if "becomeFollower t n = (Inr u, m)" for t u m
    using saved_becomeFollower [OF saved_disk_ok [OF assms(1)], of t] that by simp
  with assms saved_process_entries [of _ now args reply n'] show ?thesis
    by (auto simp: handleAppendEntries_def andThen_Inr_iff split: if_splits)
qed

text \<open>The constructor can only run again on a node that had no entries yet.\<close>

lemma restoreState_loads:
  assumes "restoreState n = (Inr (), n')" and "persistence n = Some p"
  shows "\<exists>r. loadState p [] (log n) = (Inr r, log n') \<and>
    (commitIndex n' = commitIndex n \<or> (\<exists>s. r = Some s \<and> commitIndex n' = loaded_snapshotIndex s))"
  using assms by (auto simp: restoreState_def Let_def split: prod.splits sum.splits option.splits if_splits)

lemma restoreState_keeps [simp]:
  "nextIndex (snd (restoreState n)) = nextIndex n" "matchIndex (snd (restoreState n)) = matchIndex n"
  "peerIdToIndexMap (snd (restoreState n)) = peerIdToIndexMap n"
  by (simp_all add: restoreState_def Let_def split: option.split prod.split sum.split)

lemma constructor_runs:
  assumes "RaftNode nid peers kv threshold dir disk rng j1 j2 now = (Inr (), n')" and "dir \<noteq> []"
  obtains m k where
    "restoreState ((initial_node nid peers kv threshold rng j1 j2 now)\<lparr>persistence := Some (new_persistence dir disk)\<rparr>) = (Inr (), m)"
    "restoreState k = (Inr (), n')" "log k = log m" "commitIndex k = commitIndex m" "persistence k = persistence m"
    "peerIds k = peerIds m" "nextIndex k = replicate (length (peerIds m)) 1" "matchIndex k = replicate (length (peerIds m)) 0"
    "peerIdToIndexMap k = index_peers 0 (peerIds m) (peerIdToIndexMap m)"
proof -
  from assms obtain m where m:
    "restoreState ((initial_node nid peers kv threshold rng j1 j2 now)\<lparr>persistence := Some (new_persistence dir disk)\<rparr>) = (Inr (), m)"
    "restoreState ((resetElectionTimer now (m\<lparr>nextIndex := replicate (length (peerIds m)) 1,
         matchIndex := replicate (length (peerIds m)) 0,
         peerIdToIndexMap := index_peers 0 (peerIds m) (peerIdToIndexMap m)\<rparr>))\<lparr>running := True\<rparr>) = (Inr (), n')"
    by (auto simp: RaftNode_def Let_def andThen_Inr_iff)
  show ?thesis by (rule that [OF m]) simp_all
qed

lemma restart_arrays:
  assumes "RaftNode nid peers kv threshold dir disk rng j1 j2 now = (Inr (), n')" and "dir \<noteq> []"
  shows "persistence n' = Some (new_persistence dir disk)" and "peerIdToIndexMap n' = index_peers 0 peers Map.empty"
    and "nextIndex n' = replicate (length peers) 1" and "matchIndex n' = replicate (length peers) 0"
proof -
  let ?i = "(initial_node nid peers kv threshold rng j1 j2 now)\<lparr>persistence := Some (new_persistence dir disk)\<rparr>"
  from assms obtain m k where mk: "restoreState ?i = (Inr (), m)" "restoreState k = (Inr (), n')"
    "persistence k = persistence m" "nextIndex k = replicate (length (peerIds m)) 1"
    "matchIndex k = replicate (length (peerIds m)) 0" "peerIdToIndexMap k = index_peers 0 (peerIds m) (peerIdToIndexMap m)"
    by (rule constructor_runs) blast
  have m: "m = snd (restoreState ?i)" and n': "n' = snd (restoreState k)" using mk(1,2) by simp_all
  have i: "peerIds m = peers" "peerIdToIndexMap m = Map.empty" "persistence m = Some (new_persistence dir disk)"
    unfolding m by (simp_all add: initial_node_def)
  show "persistence n' = Some (new_persistence dir disk)" "peerIdToIndexMap n' = index_peers 0 peers Map.empty"
    "nextIndex n' = replicate (length peers) 1" "matchIndex n' = replicate (length peers) 0"
    unfolding n' using mk(3-6) i by simp_all
qed

lemma restart_plain:
  assumes "saved n" and "plain (log n)" and "log_fits (log n)" and "persistence n = Some p" and "stateDir p \<noteq> []"
    and run: "RaftNode nid peers kv threshold (stateDir p) (fs p) rng j1 j2 now = (Inr (), n')"
  shows "log n = new_log \<and> log n' = new_log \<and> commitIndex n' = 0"
proof (cases "files (fs p) (getStatePath p)")
  case None
  then have "files (fs p) (stateDir p @ ''/raft_state.dat'') = None" by (simp add: getStatePath_def)
  note fresh = run [unfolded RaftNode_fresh [OF this] prod.inject]
  have "log n = new_log" using assms(1,4,5) None by (simp add: saved_def)
  with fresh show ?thesis by (auto simp: initial_node_def)
next
  case (Some content)
  with assms(1,2,4,5) have img: "files (fs p) (getStatePath p) = Some (state_image (currentTerm n) (votedFor n) (log n) 0 0)"
    by (simp add: saved_def plain_def getSnapshotIndex_def getSnapshotTerm_def)
  have can: "can_open p" using assms(1,4) by (simp add: saved_def disk_ok_def)
  have p: "new_persistence (stateDir p) (fs p) = p" by (simp add: new_persistence_def)
  note d = plainD [OF assms(2)] and load = loadState_saved [OF can assms(5) plainD(1) [OF assms(2)] assms(3) img]
  let ?i = "(initial_node nid peers kv threshold rng j1 j2 now)\<lparr>persistence := Some p\<rparr>"
  from constructor_runs [OF run assms(5)] obtain m k where mk: "restoreState ?i = (Inr (), m)" "restoreState k = (Inr (), n')"
    "log k = log m" "commitIndex k = commitIndex m" "persistence k = persistence m"
    unfolding p by blast
  have i: "persistence ?i = Some p" "log ?i = new_log" "commitIndex ?i = 0" by (simp_all add: initial_node_def)
  have "m = snd (restoreState ?i)" using mk(1) by simp
  then have k: "persistence k = Some p" using i(1) mk(5) by simp
  obtain r where r: "loadState p [] new_log = (Inr r, log m)"
    "commitIndex m = 0 \<or> (\<exists>s. r = Some s \<and> commitIndex m = loaded_snapshotIndex s)"
    using restoreState_loads [OF mk(1) i(1)] i by auto
  obtain r' where r': "loadState p [] (log m) = (Inr r', log n')"
    "commitIndex n' = commitIndex m \<or> (\<exists>s. r' = Some s \<and> commitIndex n' = loaded_snapshotIndex s)"
    using restoreState_loads [OF mk(2) k] mk(3,4) by auto
  have "tl (Entries (log n)) = []"
  proof (rule ccontr)
    assume "tl (Entries (log n)) \<noteq> []"
    moreover have "last_nat (log n) < 18446744073709551615" using fits_bound [OF assms(2,3)] d(4) by simp
    ultimately obtain msg where "loadState p [] (log m) = (Inl (Logic_error msg), log m)"
      using loadState_twice [OF can assms(5) d(1,2) assms(3) _ _ img r(1)] by blast
    with r'(1) show False by simp
  qed
  then have empty: "body (log n) = []" "tl (Entries (log n)) = []" by (simp_all add: body_def)
  from r(1) load [of "[]" new_log] have "log m = new_log" "commitIndex m = 0" using r(2) by (auto simp: empty(2))
  with r' load [of "[]" new_log] have "log n' = new_log" "commitIndex n' = 0" by (auto simp: empty(2))
  with plain_empty [OF assms(2) empty(1)] show ?thesis by simp
qed

text \<open>And then it has saved the state again: nothing changed.\<close>

lemma restart_saved:
  assumes "saved n" and "plain (log n)" and "log_fits (log n)" and "persistence n = Some p" and "stateDir p \<noteq> []"
    and "stored n" and run: "RaftNode nid peers kv threshold (stateDir p) (fs p) rng j1 j2 now = (Inr (), n')"
  shows "saved n'"
proof -
  note f = restart_finds [OF assms(6,4,5) run] and r = restart_plain [OF assms(1-5) run]
  have p: "new_persistence (stateDir p) (fs p) = p" by (simp add: new_persistence_def)
  have "persistence n' = persistence n" using restart_arrays(1) [OF run assms(5)] p assms(4) by simp
  with f(4,5) r have "saved n' = saved n" by (intro saved_unchanged) simp_all
  with assms(1) show ?thesis by simp
qed

section \<open>AppendEntries on bodies\<close>

text \<open>The message carries the log \<open>l\<close> from position \<open>prevLogIndex\<close> on, or is sent from beyond its end.\<close>

definition describes :: "append_entries_args \<Rightarrow> log_entry list \<Rightarrow> bool" where
  "describes args l \<longleftrightarrow> unat (ae_prevLogIndex args) \<le> length l \<and> ae_entries args = drop (unat (ae_prevLogIndex args)) l \<and>
     (0 < unat (ae_prevLogIndex args) \<longrightarrow> ae_prevLogTerm args = e_term (l ! (unat (ae_prevLogIndex args) - 1)))"

definition overshoots :: "append_entries_args \<Rightarrow> log_entry list \<Rightarrow> bool" where
  "overshoots args l \<longleftrightarrow> length l < unat (ae_prevLogIndex args) \<and> unat (ae_prevLogIndex args) < 18446744073709551615 \<and>
     ae_entries args = [] \<and> ae_prevLogTerm args = 0"

lemma append_message_describes:
  assumes "plain (log n)" and "0 < nextIndex n ! i"
  shows "describes (append_message i n) (body (log n)) \<or> overshoots (append_message i n) (body (log n))"
proof -
  let ?x = "nextIndex n ! i"
  have u: "unat (?x - 1) = unat ?x - 1" "0 < unat ?x" using assms(2) by (simp_all add: unat_minus_one word_gt_0 unat_gt_0)
  have es: "ae_entries (append_message i n) = drop (unat (?x - 1)) (body (log n))"
    using u plainD(3) [OF assms(1)] by (cases "unat ?x") (simp_all add: append_message_def)
  have t: "ae_prevLogTerm (append_message i n) = getTerm (log n) (?x - 1)" "ae_prevLogIndex (append_message i n) = ?x - 1"
    by (simp_all add: append_message_def)
  show ?thesis
  proof (cases "unat (?x - 1) \<le> length (body (log n))")
    case True
    then have "describes (append_message i n) (body (log n))"
      unfolding describes_def t es term_at [OF assms(1)] by simp
    then show ?thesis ..
  next
    case False
    moreover have "unat (?x - 1) < 18446744073709551615" using u unat_less_u64 [of ?x] by linarith
    ultimately have "overshoots (append_message i n) (body (log n))"
      unfolding overshoots_def t es term_at [OF assms(1)] by simp
    then show ?thesis ..
  qed
qed

text \<open>Two logs that agree wherever their terms do.\<close>

definition matching :: "log_entry list \<Rightarrow> log_entry list \<Rightarrow> bool" where
  "matching xs ys \<longleftrightarrow> (\<forall>i. i < length xs \<longrightarrow> i < length ys \<longrightarrow> e_term (xs ! i) = e_term (ys ! i) \<longrightarrow>
     take (Suc i) xs = take (Suc i) ys)"

lemma matchingD: "matching xs ys \<Longrightarrow> i < length xs \<Longrightarrow> i < length ys \<Longrightarrow> e_term (xs ! i) = e_term (ys ! i) \<Longrightarrow>
    take (Suc i) xs = take (Suc i) ys"
  unfolding matching_def by blast

lemma matching_Cons: "matching (x # xs) (x # ys) \<Longrightarrow> matching xs ys"
  unfolding matching_def by (metis Suc_mono length_Cons list.inject nth_Cons_Suc take_Suc_Cons)

lemma matching_drop:
  assumes "matching xs ys" and "take p xs = take p ys" and "p \<le> length xs" and "p \<le> length ys"
  shows "matching (drop p xs) (drop p ys)"
  unfolding matching_def
proof (intro allI impI)
  fix i
  assume i: "i < length (drop p xs)" "i < length (drop p ys)" "e_term (drop p xs ! i) = e_term (drop p ys ! i)"
  then have "take (Suc (p + i)) xs = take (Suc (p + i)) ys"
    using assms(3,4) by (intro matchingD [OF assms(1)]) auto
  then have "drop p (take (Suc (p + i)) xs) = drop p (take (Suc (p + i)) ys)" by simp
  then show "take (Suc i) (drop p xs) = take (Suc i) (drop p ys)" by (simp add: drop_take)
qed

lemma merge_matching: "matching xs es \<Longrightarrow> merge_entries xs es = (if prefix es xs then xs else es)"
proof (induction xs es rule: merge_entries.induct)
  case (3 x xs e es)
  show ?case
  proof (cases "e_term x = e_term e")
    case True
    then have "x = e" using matchingD [OF 3(2), of 0] by simp
    with 3(1) [OF True] matching_Cons [of x xs es] 3(2) show ?thesis by simp
  next
    case False
    then have "x \<noteq> e" by auto
    with False show ?thesis by simp
  qed
qed simp_all

text \<open>The merged log is the old one when that already holds the leader's, otherwise the leader's.\<close>

lemma merge_adopts:
  assumes "matching mine l" and "p \<le> length mine" and "p \<le> length l" and "0 < p \<Longrightarrow> e_term (mine ! (p - 1)) = e_term (l ! (p - 1))"
  shows "take p mine @ merge_entries (drop p mine) (drop p l) = (if prefix l mine then mine else l)"
proof -
  have take: "take p mine = take p l"
  proof (cases p)
    case (Suc k)
    with assms show ?thesis by (auto intro!: matchingD)
  qed simp
  have "prefix (drop p l) (drop p mine) \<longleftrightarrow> prefix l mine"
    using same_prefix_prefix [of "take p l" "drop p l" "drop p mine"] take by (metis append_take_drop_id)
  then show ?thesis
    using merge_matching [OF matching_drop [OF assms(1) take assms(2,3)]] append_take_drop_id [of p mine]
      append_take_drop_id [of p l] take by (metis (full_types))
qed

lemma store_entries_base:
  "Entries (log n) \<noteq> [] \<Longrightarrow> same_base (log n) (log (snd (store_entries args n)))"
  using append_entries_loop_base [of "log n"] by (simp add: store_entries_log) (simp add: same_base_def)

lemma same_base_process_entries:
  assumes "Entries (log n) \<noteq> []"
  shows "same_base (log n) (log (snd (process_entries now args n)))"
proof -
  let ?n = "resetElectionTimer now (n\<lparr>currentLeaderId := ae_leaderId args\<rparr>)"
  have "same_base (log ?n) (log (snd (store_entries args ?n)))" using assms by (intro store_entries_base) simp
  then have "same_base (log n) (log (snd (store_entries args ?n)))" by simp
  moreover have "same_base (log n) (log n)" using assms by (simp add: same_base_def)
  ultimately show ?thesis by (simp add: process_entries_def Let_def snd_andThen split: option.split sum.split)
qed

lemma same_base_handleAppendEntries:
  assumes "Entries (log n) \<noteq> []"
  shows "same_base (log n) (log (snd (handleAppendEntries now args n)))"
proof -
  have r: "same_base (log n) (log n)" using assms by (simp add: same_base_def)
  have "same_base (log n) (log (snd (process_entries now args m)))" if "log m = log n" for m
    using same_base_process_entries [of m now args] assms that by simp
  then show ?thesis using r by (simp add: handleAppendEntries_def snd_andThen split: sum.split)
qed

lemma append_describes:
  assumes "saved n" and "plain (log n)" and "currentTerm n \<le> ae_term args"
    and "describes args l" and "consecutive 1 l" and "length l < 18446744073709551615" and "matching (body (log n)) l"
  shows "\<exists>reply n'. handleAppendEntries now args n = (Inr reply, n') \<and> aer_term reply = ae_term args \<and>
    currentTerm n' = ae_term args \<and> role n' = FOLLOWER \<and> plain (log n') \<and> saved n' \<and>
    body (log n') = (if aer_success reply \<and> \<not> prefix l (body (log n)) then l else body (log n)) \<and>
    commitIndex n' = (if aer_success reply \<and> ae_leaderCommit args > commitIndex n
      then min (ae_leaderCommit args) (getLastIndex (log n')) else commitIndex n)"
proof -
  let ?p = "unat (ae_prevLogIndex args)" and ?mine = "body (log n)"
  note d = plainD [OF assms(2)]
  from assms(4) have desc: "?p \<le> length l" "ae_entries args = drop ?p l"
    "0 < ?p \<Longrightarrow> ae_prevLogTerm args = e_term (l ! (?p - 1))" by (simp_all add: describes_def)
  have "consecutive 1 (take ?p l @ drop ?p l)" using assms(5) by simp
  then have "consecutive (Suc ?p) (ae_entries args)"
    unfolding consecutive_append using desc(1,2) by (simp add: min_absorb2)
  moreover have "?p + length (ae_entries args) < 18446744073709551615" using desc(1,2) assms(6) by simp
  ultimately obtain reply n' where r: "handleAppendEntries now args n = (Inr reply, n')"
    "aer_term reply = ae_term args" "currentTerm n' = ae_term args" "role n' = FOLLOWER"
    "aer_success reply \<longleftrightarrow> matches_previous args n" "log_wf (log n')" "uncompacted (log n')"
    "tl (Entries (log n')) = (if matches_previous args n
      then take ?p (tl (Entries (log n))) @ merge_entries (drop ?p (tl (Entries (log n)))) (ae_entries args)
      else tl (Entries (log n)))"
    "commitIndex n' = (if matches_previous args n \<and> ae_leaderCommit args > commitIndex n
      then min (ae_leaderCommit args) (getLastIndex (log n')) else commitIndex n)"
    using handleAppendEntries_merge [OF saved_disk_ok [OF assms(1)] d(1,2) assms(3)] by blast
  have base: "same_base (log n) (log n')"
    using same_base_handleAppendEntries [of n now args] log_wf_nonempty [OF d(1)] r(1) by simp
  then have plain: "plain (log n')" using assms(2) r(6) by (simp add: plain_def same_base_def)
  have "?p \<le> length ?mine" "0 < ?p \<Longrightarrow> e_term (?mine ! (?p - 1)) = e_term (l ! (?p - 1))" if "matches_previous args n"
  proof -
    from that have "ae_prevLogIndex args \<le> getLastIndex (log n)" by (simp add: matches_previous_def)
    then show "?p \<le> length ?mine" by (simp add: word_le_nat_alt last_index [OF assms(2)])
    then show "e_term (?mine ! (?p - 1)) = e_term (l ! (?p - 1))" if "0 < ?p"
      using \<open>matches_previous args n\<close> that desc(3) by (auto simp: matches_previous_def term_at [OF assms(2)])
  qed
  then have "body (log n') = (if aer_success reply \<and> \<not> prefix l ?mine then l else ?mine)"
    using r(5,8) merge_adopts [OF assms(7) _ desc(1)] desc(2) unfolding body_def by simp
  moreover have "saved n'" by (rule saved_handleAppendEntries [OF assms(1) r(1)])
  ultimately show ?thesis using r plain by (intro exI [of _ reply] exI [of _ n']) simp
qed

lemma append_overshoots:
  assumes "saved n" and "plain (log n)" and "currentTerm n \<le> ae_term args" and "overshoots args l"
    and "\<And>e. e \<in> set (body (log n)) \<Longrightarrow> 0 < tm e"
  shows "\<exists>reply n'. handleAppendEntries now args n = (Inr reply, n') \<and> \<not> aer_success reply \<and>
    currentTerm n' = ae_term args \<and> role n' = FOLLOWER \<and> plain (log n') \<and> saved n' \<and>
    body (log n') = body (log n) \<and> commitIndex n' = commitIndex n"
proof -
  let ?p = "unat (ae_prevLogIndex args)" and ?mine = "body (log n)"
  note d = plainD [OF assms(2)]
  from assms(4) have over: "0 < ?p" "?p < 18446744073709551615" "ae_entries args = []" "ae_prevLogTerm args = 0"
    by (simp_all add: overshoots_def)
  have no: "\<not> matches_previous args n"
  proof
    assume m: "matches_previous args n"
    then have "ae_prevLogIndex args \<le> getLastIndex (log n)" by (simp add: matches_previous_def)
    then have le: "?p \<le> length ?mine" by (simp add: word_le_nat_alt last_index [OF assms(2)])
    with over(1) have "?mine ! (?p - 1) \<in> set ?mine" by simp
    then have "0 < tm (?mine ! (?p - 1))" by (rule assms(5))
    moreover have "e_term (?mine ! (?p - 1)) = 0"
      using m over(1,4) le by (auto simp: matches_previous_def term_at [OF assms(2)])
    ultimately show False by (simp add: tm_def)
  qed
  have "consecutive (Suc ?p) (ae_entries args)" "?p + length (ae_entries args) < 18446744073709551615"
    using over(2,3) by simp_all
  from handleAppendEntries_merge [OF saved_disk_ok [OF assms(1)] d(1,2) assms(3) this, of now] no
  obtain reply n' where r: "handleAppendEntries now args n = (Inr reply, n')" "\<not> aer_success reply"
    "currentTerm n' = ae_term args" "role n' = FOLLOWER" "log_wf (log n')" "tl (Entries (log n')) = tl (Entries (log n))"
    "commitIndex n' = commitIndex n" by auto
  have "same_base (log n) (log n')"
    using same_base_handleAppendEntries [of n now args] log_wf_nonempty [OF d(1)] r(1) by simp
  then have "plain (log n')" using assms(2) r(5) by (simp add: plain_def same_base_def)
  then show ?thesis
    using r saved_handleAppendEntries [OF assms(1) r(1)] by (intro exI [of _ reply] exI [of _ n']) (simp add: body_def)
qed

lemma append_stale:
  "ae_term args < currentTerm n \<Longrightarrow> handleAppendEntries now args n = (r, n') \<Longrightarrow>
     n' = n \<and> (\<forall>reply. r = Inr reply \<longrightarrow> \<not> aer_success reply)"
  by (auto simp: handleAppendEntries_def)

section \<open>Votes, client requests and the commit rule\<close>

lemma up_to_date_plain:
  "plain (log n) \<Longrightarrow> isLogUpToDate i t n \<longleftrightarrow>
     last_tm (body (log n)) < unat t \<or> last_tm (body (log n)) = unat t \<and> length (body (log n)) \<le> unat i"
  by (simp add: isLogUpToDate_def Let_def word_less_nat_alt word_le_nat_alt last_index last_term [symmetric] word_unat_eq_iff)

lemma client_plain:
  assumes "plain (log n)" and "length (body (log n)) < 18446744073709551615" and "m = snd (handleClientRequest request n)"
  shows "plain (log m)" and "log m = log n \<or> role n = LEADER \<and> (\<exists>e. e_term e = currentTerm n \<and> body (log m) = body (log n) @ [e])"
proof -
  have p: "log m = l" if "persistState (n\<lparr>log := l\<rparr>) = (r, m)" for l m and r :: "exn + unit"
    using persistState_frame(3) [of "n\<lparr>log := l\<rparr>"] that by simp
  have "log m = log n \<or> role n = LEADER \<and> (\<exists>e. e_term e = currentTerm n \<and> log_append e (log n) = Inr (log m))"
    unfolding assms(3)
    by (auto simp: handleClientRequest_def Let_def split: sum.split prod.split unit.split dest!: p)
  then show "plain (log m)" "log m = log n \<or> role n = LEADER \<and> (\<exists>e. e_term e = currentTerm n \<and> body (log m) = body (log n) @ [e])"
    using assms(1) append_body [OF assms(1,2)] by auto
qed

text \<open>An index that the loop commits passes its test.\<close>

lemma commit_loop_commits:
  assumes "commit_loop i lst n = Some r"
  shows "commitIndex (snd r) = commitIndex n \<or> committable n (commitIndex (snd r)) \<and> commitIndex (snd r) \<le> lst"
proof (rule commit_loop.raw_induct [OF _ assms,
      where P = "\<lambda>i lst n r. commitIndex (snd r) = commitIndex n \<or> committable n (commitIndex (snd r)) \<and> commitIndex (snd r) \<le> lst"], goal_cases)
  case (1 loop i lst n r)
  let ?a = "applyCommittedEntries (n\<lparr>commitIndex := i\<rparr>)"
  show ?case
  proof (cases "i \<le> lst \<and> committable n i")
    case False
    with 1(2) have "r = (Inr (), n) \<or> loop (i + 1) lst n = Some r" by (auto simp: committable_def split: if_splits)
    with 1(1) [of "i + 1" lst n r] show ?thesis by auto
  next
    case True
    have same: "committable (snd ?a) = committable n" by (rule committable_frame) simp_all
    show ?thesis
    proof (cases "fst ?a")
      case (Inl e)
      with 1(2) True have "r = (Inl e, snd ?a)" by (simp add: committable_def)
      with True show ?thesis by simp
    next
      case (Inr u)
      with 1(2) True have "loop (i + 1) lst (snd ?a) = Some r" by (simp add: committable_def)
      from 1(1) [OF this] True show ?thesis by (auto simp: same)
    qed
  qed
qed

lemma updateCommitIndex_commits:
  "commitIndex (snd (updateCommitIndex n)) = commitIndex n \<or>
   role n = LEADER \<and> committable n (commitIndex (snd (updateCommitIndex n))) \<and>
   commitIndex (snd (updateCommitIndex n)) \<le> getLastIndex (log n)"
  using commit_loop_commits [of "commitIndex n + 1" "getLastIndex (log n)" n]
  by (auto simp: updateCommitIndex_def split: option.split)

definition noted :: "nat \<Rightarrow> append_entries_args \<Rightarrow> raft_node \<Rightarrow> raft_node" where
  "noted i args n = (if ae_entries args \<noteq> [] then n\<lparr>matchIndex := (matchIndex n)[i := e_index (last (ae_entries args))],
     nextIndex := (nextIndex n)[i := e_index (last (ae_entries args)) + 1]\<rparr> else n)"

lemma on_append_reply_cases:
  obtains "currentTerm n < aer_term reply" "snd (on_append_reply i args reply n) = snd (becomeFollower (aer_term reply) n)"
  | "\<not> currentTerm n < aer_term reply" "\<not> aer_success reply"
    "snd (on_append_reply i args reply n) = n\<lparr>nextIndex := (nextIndex n)[i := max 1 (conflictIndex reply)]\<rparr>"
  | "\<not> currentTerm n < aer_term reply" "aer_success reply"
    "snd (on_append_reply i args reply n) = snd (updateCommitIndex (noted i args n))"
  by (cases "currentTerm n < aer_term reply"; cases "aer_success reply") (simp_all add: on_append_reply_def noted_def Let_def)

section \<open>The leader arrays\<close>

definition same_arrays :: "raft_node \<Rightarrow> raft_node \<Rightarrow> bool" where
  "same_arrays n n' \<longleftrightarrow> peerIds n' = peerIds n \<and> peerIdToIndexMap n' = peerIdToIndexMap n \<and>
     nextIndex n' = nextIndex n \<and> matchIndex n' = matchIndex n"

lemma same_arrays_refl [simp]: "same_arrays n n"
  by (simp add: same_arrays_def)

lemma same_arrays_trans: "same_arrays a b \<Longrightarrow> same_arrays b c \<Longrightarrow> same_arrays a c"
  by (simp add: same_arrays_def)

lemma same_arrays_andThen:
  "same_arrays n (snd x) \<Longrightarrow> (\<And>a m. same_arrays n m \<Longrightarrow> same_arrays n (snd (f a m))) \<Longrightarrow> same_arrays n (snd (andThen x f))"
  by (simp add: snd_andThen split: sum.split)

lemma same_arrays_basic [simp]:
  "same_arrays n (snd (persistState m)) = same_arrays n m" "same_arrays n (resetElectionTimer now m) = same_arrays n m"
  "same_arrays n (snd (applyCommittedEntries m)) = same_arrays n m" "same_arrays n (snd (becomeFollower t m)) = same_arrays n m"
  "same_arrays n (m\<lparr>log := l\<rparr>) = same_arrays n m" "same_arrays n (m\<lparr>votedFor := v\<rparr>) = same_arrays n m"
  "same_arrays n (m\<lparr>commitIndex := ci\<rparr>) = same_arrays n m" "same_arrays n (m\<lparr>currentLeaderId := i\<rparr>) = same_arrays n m"
  by (simp_all add: same_arrays_def)

lemma same_arrays_handleRequestVote: "same_arrays n (snd (handleRequestVote now args n))"
  by (simp add: handleRequestVote_def consider_vote_def Let_def snd_andThen split: sum.split)

lemma same_arrays_handleAppendEntries: "same_arrays n (snd (handleAppendEntries now args n))"
proof -
  have s: "same_arrays n (snd (store_entries args m)) = same_arrays n m" for m
    by (simp add: store_entries_def snd_andThen split: prod.split sum.split)
  have p: "same_arrays n (snd (process_entries now args m)) = same_arrays n m" for m
    by (simp add: process_entries_def Let_def snd_andThen advance_commit_def s split: option.split sum.split)
  show ?thesis by (simp add: handleAppendEntries_def snd_andThen p split: sum.split)
qed

lemma same_arrays_handleClientRequest: "same_arrays n (snd (handleClientRequest request n))"
proof -
  have p: "same_arrays n m" if "persistState (n\<lparr>log := l\<rparr>) = (r, m)" for l m and r :: "exn + unit"
    using same_arrays_basic(1) [of n "n\<lparr>log := l\<rparr>"] that by simp
  show ?thesis by (auto simp: handleClientRequest_def Let_def split: sum.split prod.split unit.split dest!: p)
qed

end
