(* ===== verification/Vote_History.thy ===== *)
theory Vote_History
  imports Plain_Node
begin

text \<open>
  Who won which term. \<open>election_safety\<close> speaks of one moment. Across moments a term can have two
  leaders in this code: an \<open>AppendEntries\<close> of its own term makes a candidate forget its vote, and a
  leader that stepped down in the middle of a round goes on sending with the new term. Here are the
  runs without that: \<open>steady\<close> runs, in which a node sends \<open>AppendEntries\<close> only while it is leader, no
  log is compacted (\<open>getTerm\<close> and \<open>truncate\<close> do not survive that) and every log fits into memory. In
  them a term has one winner for ever.
\<close>

section \<open>Steady runs\<close>

definition undisturbed :: "u64 set \<Rightarrow> cluster \<Rightarrow> cluster \<Rightarrow> bool" where
  "undisturbed N c c' \<longleftrightarrow>
     (\<forall>j \<in> N. uncompacted (log (node c' j)) \<and> log_fits (log (node c' j))) \<and>
     (\<forall>p args. Append_request p args \<in> net c' - net c \<longrightarrow> role (node c (ae_leaderId args)) = LEADER)"

inductive steady :: "u64 set \<Rightarrow> nat \<Rightarrow> cluster \<Rightarrow> bool" for N where
  start: "cluster_start N c \<Longrightarrow> steady N 0 c"
| step: "steady N k c \<Longrightarrow> cluster_step N c c' \<Longrightarrow> undisturbed N c c' \<Longrightarrow> steady N (Suc k) c'"

lemma steady_reach: "steady N k c \<Longrightarrow> reach N k c"
  by (induction rule: steady.induct) (auto intro: reach.intros)

section \<open>The history of the votes\<close>

definition stood :: "message set \<Rightarrow> u64 \<Rightarrow> u64 \<Rightarrow> bool" where
  "stood M x t \<longleftrightarrow> (\<exists>p args. Vote_request p args \<in> M \<and> rv_candidateId args = x \<and> rv_term args = t)"

text \<open>\<open>z\<close> won the term with votes that \<open>x\<close> is not among.\<close>

definition won_without :: "u64 set \<Rightarrow> message set \<Rightarrow> u64 \<Rightarrow> u64 \<Rightarrow> u64 \<Rightarrow> bool" where
  "won_without N M x z t \<longleftrightarrow> z \<noteq> x \<and>
     (\<exists>G \<subseteq> N - {z}. x \<notin> G \<and> majority_of N (insert z G) \<and> (\<forall>j \<in> G. granted_vote M j z t))"

definition votes_ok :: "u64 set \<Rightarrow> message set \<Rightarrow> bool" where
  "votes_ok N M \<longleftrightarrow>
     (\<forall>j x t. granted_vote M j x t \<longrightarrow> stood M x t \<and> x \<noteq> j) \<and>
     (\<forall>x y t. won N M x t \<longrightarrow> \<not> granted_vote M x y t) \<and>
     (\<forall>x y t. stood M x t \<longrightarrow> granted_vote M x y t \<longrightarrow> (\<exists>z. won_without N M x z t)) \<and>
     (\<forall>p args. Append_request p args \<in> M \<longrightarrow> won N M (ae_leaderId args) (ae_term args) \<and> ae_leaderId args \<noteq> p)"

text \<open>What a node still remembers of a term it stood for.\<close>

definition remembers :: "u64 set \<Rightarrow> message set \<Rightarrow> u64 \<Rightarrow> raft_node \<Rightarrow> bool" where
  "remembers N M x n \<longleftrightarrow> (\<forall>t. stood M x t \<longrightarrow> t \<le> currentTerm n \<and>
     (t = currentTerm n \<longrightarrow> votedFor n = x \<or> (\<exists>z. won_without N M x z t)))"

definition history_ok :: "u64 set \<Rightarrow> cluster \<Rightarrow> bool" where
  "history_ok N c \<longleftrightarrow> votes_ok N (net c) \<and> (\<forall>x \<in> N. remembers N (net c) x (node c x))"

lemma votes_okD:
  assumes "votes_ok N M"
  shows "granted_vote M j x t \<Longrightarrow> stood M x t" and "granted_vote M j x t \<Longrightarrow> x \<noteq> j"
    and "won N M x t \<Longrightarrow> \<not> granted_vote M x y t"
    and "stood M x t \<Longrightarrow> granted_vote M x y t \<Longrightarrow> \<exists>z. won_without N M x z t"
    and "Append_request p args \<in> M \<Longrightarrow> won N M (ae_leaderId args) (ae_term args)"
    and "Append_request p args \<in> M \<Longrightarrow> ae_leaderId args \<noteq> p"
  using assms unfolding votes_ok_def by blast+

lemma won_without_won: "won_without N M x z t \<Longrightarrow> won N M z t"
  unfolding won_without_def won_def by blast

lemma won_withoutI: "won N M z t \<Longrightarrow> z \<noteq> x \<Longrightarrow> \<not> granted_vote M x z t \<Longrightarrow> won_without N M x z t"
  unfolding won_without_def won_def by blast

lemma won_without_mono: "won_without N M x z t \<Longrightarrow> won_without N (M \<union> M') x z t"
  unfolding won_without_def by (meson granted_vote_mono)

lemma stood_mono: "stood M x t \<Longrightarrow> stood (M \<union> M') x t"
  unfolding stood_def by blast

text \<open>Two majorities for different candidates meet in one of the candidates.\<close>

lemma winners_meet:
  assumes "\<forall>j \<in> N. votes_unique M j" and "x \<noteq> z"
    and "majority_of N (insert x G)" and "\<forall>j \<in> G. granted_vote M j x t"
    and "majority_of N (insert z H)" and "\<forall>j \<in> H. granted_vote M j z t"
  shows "x \<in> H \<or> z \<in> G"
proof -
  from majorities.quorum_meet [OF assms(3,5)] obtain v where v: "v \<in> insert x G" "v \<in> insert z H" by blast
  have False if "v \<in> G" "v \<in> H"
  proof -
    from that(1) assms(3) have "v \<in> N" by (auto simp: majority_of_def)
    with that assms(1,2,4,6) show False unfolding votes_unique_def by blast
  qed
  with v assms(2) show ?thesis by blast
qed

text \<open>A term has one winner.\<close>

lemma one_winner:
  assumes "votes_ok N M" and "\<forall>j \<in> N. votes_unique M j" and "won N M x t" and "won N M z t"
  shows "x = z"
proof (rule ccontr)
  assume "x \<noteq> z"
  from assms(3) obtain G where G: "majority_of N (insert x G)" "\<forall>j \<in> G. granted_vote M j x t" unfolding won_def by blast
  from assms(4) obtain H where H: "majority_of N (insert z H)" "\<forall>j \<in> H. granted_vote M j z t" unfolding won_def by blast
  from winners_meet [OF assms(2) \<open>x \<noteq> z\<close> G H] G(2) H(2) votes_okD(3) [OF assms(1)] assms(3,4) show False by blast
qed

text \<open>In a cluster of several nodes a winner has a voter, so it has stood.\<close>

lemma won_voter:
  assumes "majority_of N (insert x G)" and "x \<in> N" and "y \<in> N" and "y \<noteq> x"
  shows "G \<noteq> {}"
proof
  assume "G = {}"
  with assms(1) have "card N div 2 + 1 \<le> 1" "finite N" by (simp_all add: majority_of_def)
  moreover from this(2) assms(2-4) have "2 \<le> card N"
    using card_mono [of N "{x, y}"] by auto
  ultimately show False by simp
qed

lemma won_stood:
  assumes "votes_ok N M" and "won N M x t" and "x \<in> N" and "y \<in> N" and "y \<noteq> x"
  shows "stood M x t"
proof -
  from assms(2) obtain G where G: "majority_of N (insert x G)" "\<forall>j \<in> G. granted_vote M j x t" unfolding won_def by blast
  with won_voter [OF G(1) assms(3-5)] votes_okD(1) [OF assms(1)] show ?thesis by blast
qed

section \<open>Every step keeps the history\<close>

text \<open>Messages that neither ask for a vote nor grant one.\<close>

definition voteless :: "message set \<Rightarrow> bool" where
  "voteless M \<longleftrightarrow> grants_nothing M \<and> (\<forall>p args. Vote_request p args \<notin> M)"

lemma voteless_simps [simp]:
  "voteless {}" "voteless {Append_request p aargs}" "voteless {Snapshot_request p sargs}"
  "voteless (replies r (Append_reply p aargs))" "voteless (replies s (Snapshot_reply p sargs))"
  by (simp_all add: voteless_def) (auto simp: replies_def split: sum.splits)

lemma won_same:
  assumes "granted_vote M' = granted_vote M"
  shows "won N M' = won N M" and "won_without N M' = won_without N M"
  by (simp_all only: won_def [abs_def] won_without_def [abs_def] assms)

lemma voteless_frame:
  assumes "voteless M'"
  shows "granted_vote (M \<union> M') = granted_vote M" and "stood (M \<union> M') = stood M"
    and "won N (M \<union> M') = won N M" and "won_without N (M \<union> M') = won_without N M"
proof -
  show g: "granted_vote (M \<union> M') = granted_vote M"
    using assms granted_vote_quiet_fun unfolding voteless_def by blast
  show "stood (M \<union> M') = stood M" using assms unfolding voteless_def stood_def by (auto simp: fun_eq_iff)
  show "won N (M \<union> M') = won N M" "won_without N (M \<union> M') = won_without N M"
    by (rule won_same [OF g])+
qed

text \<open>The vote of a node that stood is kept, or the term has gone to another.\<close>

definition keeps_vote :: "u64 set \<Rightarrow> message set \<Rightarrow> u64 \<Rightarrow> raft_node \<Rightarrow> raft_node \<Rightarrow> bool" where
  "keeps_vote N M x n n' \<longleftrightarrow> currentTerm n \<le> currentTerm n' \<and>
     (currentTerm n' = currentTerm n \<longrightarrow> votedFor n = x \<longrightarrow> stood M x (currentTerm n) \<longrightarrow>
        votedFor n' = x \<or> (\<exists>z. won_without N M x z (currentTerm n)))"

lemma remembersD:
  assumes "remembers N M x n" and "stood M x t"
  shows "t \<le> currentTerm n" and "t = currentTerm n \<Longrightarrow> votedFor n = x \<or> (\<exists>z. won_without N M x z t)"
  using assms unfolding remembers_def by blast+

lemma remembers_step:
  assumes "remembers N M x n" and "keeps_vote N M x n n'"
  shows "remembers N M x n'"
  unfolding remembers_def
proof (intro allI impI conjI)
  fix t
  assume s: "stood M x t"
  have le: "currentTerm n \<le> currentTerm n'" using assms(2) by (simp add: keeps_vote_def)
  from remembersD(1) [OF assms(1) s] le show "t \<le> currentTerm n'" by (rule order_trans)
  assume t: "t = currentTerm n'"
  with remembersD(1) [OF assms(1) s] le have "t = currentTerm n" "currentTerm n' = currentTerm n" by auto
  with remembersD(2) [OF assms(1) s] assms(2) s show "votedFor n' = x \<or> (\<exists>z. won_without N M x z t)"
    unfolding keeps_vote_def by blast
qed

lemma history_quiet:
  assumes "history_ok N c" and "j \<in> N" and "keeps_vote N (net c) j (node c j) n" and "voteless M"
    and "\<And>p args. Append_request p args \<in> M \<Longrightarrow> won N (net c) (ae_leaderId args) (ae_term args) \<and> ae_leaderId args \<noteq> p"
  shows "history_ok N (update j n a M c)"
proof -
  note fr = voteless_frame [OF assms(4)]
  from assms(1) have ok: "votes_ok N (net c)" "\<And>x. x \<in> N \<Longrightarrow> remembers N (net c) x (node c x)"
    by (simp_all add: history_ok_def)
  have "votes_ok N (net c \<union> M)"
    using ok(1) assms(5) unfolding votes_ok_def fr by blast
  moreover have "remembers N (net c \<union> M) x (((node c)(j := n)) x)" if "x \<in> N" for x
    using ok(2) [OF that] remembers_step [OF ok(2) [OF assms(2)] assms(3)] unfolding remembers_def fr by simp
  ultimately show ?thesis by (simp add: history_ok_def)
qed

text \<open>A vote is granted.\<close>

lemma history_vote:
  assumes "history_ok N c" and "cluster_ok N k c" and "\<forall>i \<in> N. votes_unique (net c \<union> {Vote_reply j args reply}) i"
    and "j \<in> N" and "Vote_request j args \<in> net c"
    and "handleRequestVote now args (node c j) = (Inr reply, n)" and "voteGranted reply"
  shows "history_ok N (update j n Idle {Vote_reply j args reply} c)"
proof -
  let ?n = "node c j" and ?M = "net c" and ?M' = "net c \<union> {Vote_reply j args reply}"
  let ?x = "rv_candidateId args" and ?t = "rv_term args"
  from assms(1) have ok: "votes_ok N ?M" "\<And>i. i \<in> N \<Longrightarrow> remembers N ?M i (node c i)" by (simp_all add: history_ok_def)
  have uni: "\<forall>i \<in> N. votes_unique ?M i" using cluster_okD(2) [OF assms(2)] by blast
  note g = handleRequestVote_granted [OF assms(6,7)] and grant = granted_vote_insert [of ?M j args reply]
  have x: "?x \<in> N" "?x \<noteq> j" using cluster_ok_message [OF assms(2,5)] by simp_all
  have "0 \<notin> N" using assms(2) by (simp add: cluster_ok_def)
  with assms(4) have "j \<noteq> 0" by (rule ne_of_mem)
  have st: "stood ?M' = stood ?M" unfolding stood_def by (auto simp: fun_eq_iff)
  have req: "stood ?M ?x ?t" using assms(5) unfolding stood_def by blast
  have lost: "\<exists>z. won_without N ?M j z ?t" if "stood ?M j ?t"
  proof -
    note r = remembersD [OF ok(2) [OF assms(4)] that]
    from r(1) g(1) have t: "?t = currentTerm ?n" by (rule antisym)
    from g(5) [OF t [symmetric]] x(2) \<open>j \<noteq> 0\<close> have "votedFor ?n \<noteq> j" by metis
    with r(2) [OF t] show ?thesis by blast
  qed
  have loser: "\<not> won N ?M j ?t"
  proof
    assume w: "won N ?M j ?t"
    from lost [OF won_stood [OF ok(1) w assms(4) x]] obtain z where z: "won_without N ?M j z ?t" ..
    with one_winner [OF ok(1) uni w won_without_won [OF z]] show False by (simp add: won_without_def)
  qed
  have old_win: "won N ?M y t" if "won N ?M' y t" "y \<noteq> ?x \<or> t \<noteq> ?t" for y t
    using that grant unfolding won_def by (metis (no_types))
  have K: "False" if w: "won N ?M' y t" and v: "granted_vote ?M' y z t" for y z t
  proof (cases "granted_vote ?M y z t")
    case False
    with v grant have "y = j" "t = ?t" by auto
    with old_win [OF w] loser x(2) show False by blast
  next
    case True
    with votes_okD(3) [OF ok(1)] old_win [OF w] have "y = ?x" "t = ?t" by blast+
    have "stood ?M y t" using req \<open>y = ?x\<close> \<open>t = ?t\<close> by simp
    from votes_okD(4) [OF ok(1) this True] obtain u where u: "won_without N ?M y u t" ..
    then obtain H where H: "u \<noteq> y" "y \<notin> H" "majority_of N (insert u H)" "\<forall>i \<in> H. granted_vote ?M i u t"
      unfolding won_without_def by blast
    from w obtain G where G: "majority_of N (insert y G)" "\<forall>i \<in> G. granted_vote ?M' i y t" unfolding won_def by blast
    have "\<forall>i \<in> H. granted_vote ?M' i u t" using H(4) granted_vote_mono by blast
    from winners_meet [OF assms(3) _ G H(3) this] H(1,2) have "u \<in> G" by blast
    with G(2) grant have "granted_vote ?M u y t \<or> u = j" by blast
    with votes_okD(3) [OF ok(1) won_without_won [OF u]] loser won_without_won [OF u] \<open>t = ?t\<close> show False by blast
  qed
  have "votes_ok N ?M'"
    unfolding votes_ok_def
  proof (intro conjI allI impI)
    fix i y t
    assume "granted_vote ?M' i y t"
    then consider "granted_vote ?M i y t" | "i = j" "y = ?x" "t = ?t" using grant by blast
    then have "stood ?M y t \<and> y \<noteq> i"
    proof cases
      case 1
      from votes_okD(1,2) [OF ok(1) 1] show ?thesis ..
    next
      case 2
      with req x(2) show ?thesis by simp
    qed
    then show "stood ?M' y t" "y \<noteq> i" unfolding st by blast+
  next
    show "\<not> granted_vote ?M' y z t" if "won N ?M' y t" for y z t using K [OF that] by blast
    fix y z t
    assume s: "stood ?M' y t" and "granted_vote ?M' y z t"
    then consider "granted_vote ?M y z t" | "y = j" "t = ?t" using grant by blast
    then have "\<exists>u. won_without N ?M y u t"
    proof cases
      case 1
      from votes_okD(4) [OF ok(1) s [unfolded st] 1] show ?thesis .
    next
      case 2
      with s lost show ?thesis unfolding st by simp
    qed
    then show "\<exists>u. won_without N ?M' y u t" using won_without_mono by blast
  next
    show "won N ?M' (ae_leaderId aargs) (ae_term aargs)" "ae_leaderId aargs \<noteq> p"
      if "Append_request p aargs \<in> ?M'" for p aargs
      using that votes_okD(5,6) [OF ok(1)] won_mono by blast+
  qed
  moreover have "remembers N ?M' i (((node c)(j := n)) i)" if "i \<in> N" for i
    unfolding remembers_def st
  proof (intro allI impI conjI)
    fix t
    assume s: "stood ?M i t"
    note r = remembersD [OF ok(2) [OF that] s]
    show "t \<le> currentTerm (((node c)(j := n)) i)" using r(1) g(1,2) by (auto intro: order_trans)
    assume t: "t = currentTerm (((node c)(j := n)) i)"
    show "votedFor (((node c)(j := n)) i) = i \<or> (\<exists>z. won_without N ?M' i z t)"
    proof (cases "i = j")
      case True
      with t g(2) s have "stood ?M j ?t" "t = ?t" by simp_all
      with lost True show ?thesis using won_without_mono by blast
    next
      case False
      with t have "t = currentTerm (node c i)" by simp
      with r(2) have "votedFor (node c i) = i \<or> (\<exists>z. won_without N ?M' i z t)" using won_without_mono by blast
      with False show ?thesis by simp
    qed
  qed
  ultimately show ?thesis by (simp add: history_ok_def)
qed

text \<open>A candidate asks for a vote.\<close>

lemma history_ask:
  assumes "history_ok N c" and "cluster_ok N k c" and "j \<in> N" and "doing c j = Electing args (p # ps) v"
  shows "history_ok N (update j (node c j) (Electing args (p # ps) v) {Vote_request p args} c)"
proof -
  let ?n = "node c j" and ?M = "net c" and ?M' = "net c \<union> {Vote_request p args}"
  from assms(1) have ok: "votes_ok N ?M" "\<And>i. i \<in> N \<Longrightarrow> remembers N ?M i (node c i)" by (simp_all add: history_ok_def)
  note nok = node_okD [OF cluster_okD(1) [OF assms(2,3)]]
  from nok(9) assms(4) have e: "role ?n = CANDIDATE" "rv_term args = currentTerm ?n" "rv_candidateId args = j"
    unfolding election_ok_def by blast+
  have g: "granted_vote ?M' = granted_vote ?M" by (rule granted_vote_quiet_fun) simp
  note w = won_same [OF g]
  have st: "stood ?M' y t \<longleftrightarrow> stood ?M y t \<or> y = j \<and> t = currentTerm ?n" for y t
    unfolding stood_def using e(2,3) by auto
  have none: "\<not> granted_vote ?M j y (currentTerm ?n)" for y
    using nok(7) e(1) unfolding votes_kept_def by (metis less_irrefl role.distinct(1))
  have "votes_ok N ?M'"
    using ok(1) none unfolding votes_ok_def g w st by blast
  moreover have "remembers N ?M' i (((node c)(j := ?n)) i)" if "i \<in> N" for i
    using ok(2) [OF that] nok(6) e(1) unfolding remembers_def st w by auto
  ultimately show ?thesis by (simp add: history_ok_def)
qed

text \<open>The other operations keep the vote, but for an \<open>AppendEntries\<close> of the own term.\<close>

lemma keeps_vote_same: "currentTerm n' = currentTerm n \<Longrightarrow> votedFor n' = votedFor n \<Longrightarrow> keeps_vote N M x n n'"
  by (simp add: keeps_vote_def)

lemma keeps_vote_newer: "currentTerm n < currentTerm n' \<Longrightarrow> keeps_vote N M x n n'"
  by (simp add: keeps_vote_def less_imp_neq [THEN not_sym] less_imp_le)

lemma keeps_vote_same_vote: "same_vote n n' \<Longrightarrow> keeps_vote N M x n n'"
  by (rule keeps_vote_same) (simp_all add: same_vote_def)

lemma keeps_vote_handleRequestVote:
  assumes "x \<noteq> 0"
  shows "keeps_vote N M x n (snd (handleRequestVote now args n))"
proof (cases "rv_term args" "currentTerm n" rule: linorder_cases)
  case less
  show ?thesis unfolding handleRequestVote_stale [OF less] by (rule keeps_vote_same) simp_all
next
  case equal
  from handleRequestVote_same [OF equal, of now] assms show ?thesis unfolding keeps_vote_def by auto
next
  case greater
  with handleRequestVote_newer [OF greater, of now] show ?thesis by (intro keeps_vote_newer) simp
qed

lemma keeps_vote_handleInstallSnapshot: "keeps_vote N M x n (snd (handleInstallSnapshot now args n))"
proof (cases "is_term args" "currentTerm n" rule: linorder_cases)
  case less
  show ?thesis unfolding handleInstallSnapshot_stale [OF less] by (rule keeps_vote_same) simp_all
next
  case equal
  from handleInstallSnapshot_same [OF equal, of now] show ?thesis by (intro keeps_vote_same) simp_all
next
  case greater
  with handleInstallSnapshot_newer [OF greater, of now] show ?thesis by (intro keeps_vote_newer) simp
qed

lemma keeps_vote_handleAppendEntries:
  assumes "history_ok N c" and "cluster_ok N k c" and "j \<in> N" and "Append_request j args \<in> net c"
  shows "keeps_vote N (net c) j (node c j) (snd (handleAppendEntries now args (node c j)))"
proof (cases "ae_term args < currentTerm (node c j)")
  case True
  show ?thesis unfolding handleAppendEntries_cases(1) [OF True] by (rule keeps_vote_same) simp_all
next
  case False
  let ?n = "node c j" and ?t = "ae_term args" and ?z = "ae_leaderId args"
  have t: "currentTerm (snd (handleAppendEntries now args ?n)) = ?t" using handleAppendEntries_cases(2) [OF False] by blast
  have ok: "votes_ok N (net c)" using assms(1) by (simp add: history_ok_def)
  have kept: "votes_kept (net c) j ?n" by (rule node_okD(7) [OF cluster_okD(1) [OF assms(2,3)]])
  have "\<exists>z. won_without N (net c) j z ?t" if v: "votedFor ?n = j" "currentTerm ?n = ?t"
  proof -
    have z: "?z \<noteq> j" by (rule votes_okD(6) [OF ok assms(4)])
    then have "\<not> granted_vote (net c) j ?z ?t" using kept v unfolding votes_kept_def by (metis less_irrefl)
    from won_withoutI [OF votes_okD(5) [OF ok assms(4)] z this] show ?thesis ..
  qed
  moreover have "currentTerm ?n \<le> ?t" using False by (simp add: not_less)
  ultimately show ?thesis unfolding keeps_vote_def t by metis
qed

lemma keeps_vote_on_append_reply: "keeps_vote N M x n (snd (on_append_reply i args reply n))"
proof (cases rule: on_append_reply_cases [of n reply i args])
  case 1
  then show ?thesis by (intro keeps_vote_newer) simp
next
  case 2
  then show ?thesis by (intro keeps_vote_same) simp_all
next
  case 3
  have "same_vote n (noted i args n)" by (simp add: noted_def)
  then have "same_vote n (snd (updateCommitIndex (noted i args n)))"
    by (rule same_vote_trans [OF _ updateCommitIndex_same_vote])
  with 3 show ?thesis by (simp add: keeps_vote_same_vote)
qed

lemma keeps_vote_on_snapshot_reply: "keeps_vote N M x n (snd (on_snapshot_reply i reply n))"
  by (cases "currentTerm n < isr_term reply")
    (simp_all only: on_snapshot_reply_def if_True if_False snd_conv, simp_all add: keeps_vote_newer keeps_vote_same)

lemma keeps_vote_on_vote_result:
  assumes "disk_ok n" and "on_vote_result result v n = (r, n')"
  shows "keeps_vote N M x n n'"
  using on_vote_result_cases [OF assms]
proof (elim disjE exE conjE)
  fix reply
  assume "currentTerm n < rvr_term reply" "n' = snd (becomeFollower (rvr_term reply) n)"
  then show ?thesis by (intro keeps_vote_newer) simp
qed (simp_all add: keeps_vote_same)

section \<open>The index of the peers\<close>

lemma index_peers_Some:
  "index_peers i ps m p = Some k \<Longrightarrow> (\<exists>j < length ps. ps ! j = p \<and> k = i + j) \<or> m p = Some k"
proof (induction i ps m rule: index_peers.induct)
  case (2 i q ps m)
  from "2.prems" have "index_peers (Suc i) ps (m(q \<mapsto> i)) p = Some k" by simp
  from "2.IH" [OF this] show ?case
  proof (elim disjE exE conjE)
    fix j
    assume "j < length ps" "ps ! j = p" "k = Suc i + j"
    then have "Suc j < length (q # ps) \<and> (q # ps) ! Suc j = p \<and> k = i + Suc j" by simp
    then show ?thesis by blast
  next
    assume "(m(q \<mapsto> i)) p = Some k"
    then show ?thesis by (cases "p = q") auto
  qed
qed simp

definition indexed :: "raft_node \<Rightarrow> bool" where
  "indexed n \<longleftrightarrow> peerIdToIndexMap n = index_peers 0 (peerIds n) Map.empty"

lemma indexed_nth:
  assumes "indexed n" and "peerIdToIndexMap n p = Some i"
  shows "i < length (peerIds n)" and "peerIds n ! i = p"
  using index_peers_Some [of 0 "peerIds n" Map.empty p i] assms by (auto simp: indexed_def)

lemma indexed_same_arrays: "same_arrays n n' \<Longrightarrow> indexed n \<Longrightarrow> indexed n'"
  by (simp add: same_arrays_def indexed_def)

section \<open>The history of a steady run\<close>

lemma history_start: "cluster_start N c \<Longrightarrow> history_ok N c"
proof -
  assume c: "cluster_start N c"
  then have e: "net c = {}" by (simp add: cluster_start_def)
  have "majority_of N (insert x {}) \<Longrightarrow> \<not> granted_vote {} x y t" for x y t by (simp add: granted_vote_def)
  then show ?thesis unfolding history_ok_def votes_ok_def remembers_def e by (simp add: granted_vote_def stood_def)
qed

lemma history_local:
  assumes "history_ok N c" and "j \<in> N" and "keeps_vote N (net c) j (node c j) n"
  shows "history_ok N (update j n a {} c)"
  by (rule history_quiet [OF assms]) simp_all

lemma history_replies:
  assumes "history_ok N c" and "j \<in> N" and "keeps_vote N (net c) j (node c j) n"
    and "voteless M" and "\<And>p args. Append_request p args \<notin> M"
  shows "history_ok N (update j n a M c)"
  by (rule history_quiet [OF assms(1-4)]) (use assms(5) in blast)

lemma replies_request [simp]: "Append_request p args \<notin> replies r (Vote_reply j vargs)"
  "Append_request p args \<notin> replies s (Append_reply j aargs)" "Append_request p args \<notin> replies q (Snapshot_reply j sargs)"
  by (auto simp: replies_def split: sum.splits)

text \<open>Election ballots are asked for in a new term.\<close>

lemma begin_election_newer:
  assumes "begin_election now n = (Inr args, n')" and "unat (currentTerm n) < 18446744073709551615"
  shows "currentTerm n < currentTerm n'" and "currentTerm n' = currentTerm n + 1" and "votedFor n' = nodeId n"
    and "role n' = CANDIDATE" and "log n' = log n" and "commitIndex n' = commitIndex n" and "rv_term args = currentTerm n'"
    and "rv_lastLogIndex args = getLastIndex (log n)" and "rv_lastLogTerm args = getLastTerm (log n)"
proof -
  from assms(1) obtain m where m: "becomeCandidate n = (Inr (), m)" "n' = resetElectionTimer now m"
    "rv_term args = currentTerm m" "rv_lastLogIndex args = getLastIndex (log m)" "rv_lastLogTerm args = getLastTerm (log m)"
    by (auto simp: begin_election_def Let_def andThen_Inr_iff)
  have f: "m = snd (becomeCandidate n)" using m(1) by simp
  show "currentTerm n' = currentTerm n + 1" "votedFor n' = nodeId n" "role n' = CANDIDATE" "log n' = log n"
    "commitIndex n' = commitIndex n" "rv_term args = currentTerm n'" "rv_lastLogIndex args = getLastIndex (log n)"
    "rv_lastLogTerm args = getLastTerm (log n)"
    using m(2-5) by (simp_all add: f)
  then show "currentTerm n < currentTerm n'" using assms(2) by (simp add: word_less_nat_alt unat_u64_plus1)
qed

lemma prepare_append_leader:
  "prepare_replication i n = Inr (Send_append args) \<Longrightarrow> ae_leaderId args = nodeId n"
  by (auto simp: prepare_replication_def Let_def bindE_def split: if_splits sum.splits)

lemma history_send_append:
  assumes "history_ok N c" and "cluster_ok N k c" and "j \<in> N" and "undisturbed N c (update j (node c j) a {Append_request p args} c)"
    and "indexed (node c j)" and "peerIdToIndexMap (node c j) p = Some i"
    and "prepare_replication i (node c j) = Inr (Send_append args)"
  shows "history_ok N (update j (node c j) a {Append_request p args} c)"
proof (cases "Append_request p args \<in> net c")
  case True
  then have "net c \<union> {Append_request p args} = net c" by blast
  then have "update j (node c j) a {Append_request p args} c = update j (node c j) a {} c"
    by (simp add: update_def insert_absorb [OF True])
  then show ?thesis using history_local [OF assms(1,3) keeps_vote_same [of "node c j" "node c j"]] by simp
next
  case False
  let ?n = "node c j"
  note ok = node_okD [OF cluster_okD(1) [OF assms(2,3)]]
  have l: "ae_leaderId args = j" "ae_term args = currentTerm ?n"
    using prepare_append_leader [OF assms(7)] prepare_replication_term(1) [OF assms(7)] ok(1) by simp_all
  from assms(4) False have "role (node c (ae_leaderId args)) = LEADER" unfolding undisturbed_def update_simps by blast
  with l ok(8) have w: "won N (net c) (ae_leaderId args) (ae_term args)" by simp
  have "p \<in> set (peerIds ?n)" using indexed_nth [OF assms(5,6)] by (metis nth_mem)
  with ok(3) l(1) have "ae_leaderId args \<noteq> p" by auto
  with w show ?thesis by (intro history_quiet [OF assms(1,3)]) (auto simp: keeps_vote_same)
qed

lemma history_step:
  assumes "cluster_step N c c'" and "history_ok N c" and "cluster_ok N k c" and "cluster_ok N (Suc k) c'"
    and "k < 18446744073709551615" and "undisturbed N c c'" and "\<And>j. j \<in> N \<Longrightarrow> indexed (node c j)"
  shows "history_ok N c'"
  using assms(1)
proof (cases rule: cluster_step.cases)
  case (vote j args now r n)
  have "0 \<notin> N" using assms(3) by (simp add: cluster_ok_def)
  with vote(2) have "j \<noteq> 0" by (rule ne_of_mem)
  show ?thesis
  proof (cases "\<exists>reply. r = Inr reply \<and> voteGranted reply")
    case True
    then obtain reply where r: "r = Inr reply" "voteGranted reply" by blast
    have c': "c' = update j n Idle {Vote_reply j args reply} c" using vote(1) r(1) by (simp add: replies_def)
    have "\<forall>i \<in> N. votes_unique (net c \<union> {Vote_reply j args reply}) i"
      using cluster_okD(2) [OF assms(4)] unfolding c' by simp
    with vote(5) r show ?thesis unfolding c' by (intro history_vote [OF assms(2,3) _ vote(2,4)]) simp_all
  next
    case False
    then have "voteless (replies r (Vote_reply j args))"
      by (auto simp: voteless_def grants_nothing_def replies_def split: sum.splits)
    moreover have "keeps_vote N (net c) j (node c j) n"
      using keeps_vote_handleRequestVote [OF \<open>j \<noteq> 0\<close>, of N "net c" "node c j" now args] vote(5) by simp
    ultimately show ?thesis unfolding vote(1) by (intro history_replies [OF assms(2) vote(2)]) simp_all
  qed
next
  case (append j args now r n)
  then have "n = snd (handleAppendEntries now args (node c j))" by simp
  with keeps_vote_handleAppendEntries [OF assms(2,3) append(2,4)] show ?thesis
    unfolding append(1) by (intro history_replies [OF assms(2) append(2)]) simp_all
next
  case (snapshot j args now r n)
  then have "n = snd (handleInstallSnapshot now args (node c j))" by simp
  with keeps_vote_handleInstallSnapshot show ?thesis
    unfolding snapshot(1) by (intro history_replies [OF assms(2) snapshot(2)]) simp_all
next
  case (client j request)
  show ?thesis unfolding client(1) by (rule history_local [OF assms(2) client(2)]) (simp add: keeps_vote_same)
next
  case (compact j)
  have "keeps_vote N (net c) j (node c j) (snd (snapshotTimer_tick (node c j)))"
    using snapshotTimer_tick_snd [of "node c j"] by (auto intro!: keeps_vote_same)
  then show ?thesis unfolding compact(1) by (rule history_local [OF assms(2) compact(2)])
next
  case (trigger j)
  show ?thesis unfolding trigger(1)
    by (rule history_local [OF assms(2) trigger(2)], rule keeps_vote_same) (simp_all add: triggerSnapshot_def)
next
  case (election j now now' args n)
  have "unat (currentTerm (node c j)) < 18446744073709551615"
    using node_okD(5) [OF cluster_okD(1) [OF assms(3) election(2)]] assms(5) by simp
  from begin_election_newer(1) [OF election(7) this] show ?thesis
    unfolding election(1) by (intro history_local [OF assms(2) election(2)] keeps_vote_newer)
next
  case (ask_vote j args p ps v)
  show ?thesis unfolding ask_vote(1) by (rule history_ask [OF assms(2,3) ask_vote(2,3)])
next
  case (hear_vote j args p ps v result r n)
  have "disk_ok (node c j)" by (rule stored_disk_ok [OF node_okD(4) [OF cluster_okD(1) [OF assms(3) hear_vote(2)]]])
  from keeps_vote_on_vote_result [OF this hear_vote(5)] show ?thesis
    unfolding hear_vote(1) by (rule history_local [OF assms(2) hear_vote(2)])
next
  case (finish j args v)
  have "keeps_vote N (net c) j (node c j) (finish_election v (node c j))"
    by (rule keeps_vote_same) (simp_all add: finish_election_def becomeLeader_def Let_def)
  then show ?thesis unfolding finish(1) by (rule history_local [OF assms(2) finish(2)])
next
  case (heartbeat j)
  show ?thesis unfolding heartbeat(1) by (rule history_local [OF assms(2) heartbeat(2)]) (simp add: keeps_vote_same)
next
  case (skip_peer j p ps)
  show ?thesis unfolding skip_peer(1) by (rule history_local [OF assms(2) skip_peer(2)]) (simp add: keeps_vote_same)
next
  case (send_append j p ps i args)
  from assms(6) send_append assms(7) show ?thesis
    unfolding send_append(1) by (intro history_send_append [OF assms(2,3)]) simp_all
next
  case (hear_append j p ps i args reply r n)
  then have "n = snd (on_append_reply i args reply (node c j))" by simp
  with keeps_vote_on_append_reply show ?thesis
    unfolding hear_append(1) by (intro history_local [OF assms(2) hear_append(2)]) simp
next
  case (send_snapshot j p ps i args)
  show ?thesis unfolding send_snapshot(1)
    by (rule history_replies [OF assms(2) send_snapshot(2)]) (simp_all add: keeps_vote_same)
next
  case (hear_snapshot j p ps i args reply r n)
  then have "n = snd (on_snapshot_reply i reply (node c j))" by simp
  with keeps_vote_on_snapshot_reply show ?thesis
    unfolding hear_snapshot(1) by (intro history_local [OF assms(2) hear_snapshot(2)]) simp
next
  case (end_heartbeat j)
  show ?thesis unfolding end_heartbeat(1) by (rule history_local [OF assms(2) end_heartbeat(2)]) (simp add: keeps_vote_same)
next
  case (stop j)
  show ?thesis unfolding stop(1) by (rule history_local [OF assms(2) stop(2)]) (simp add: keeps_vote_same)
next
  case (restart j p kv threshold rng j1 j2 now n)
  note f = restart_finds [OF node_okD(4) [OF cluster_okD(1) [OF assms(3) restart(2)]] restart(4-6)]
  show ?thesis unfolding restart(1) by (rule history_local [OF assms(2) restart(2)], rule keeps_vote_same) (simp_all add: f)
qed

end
