(* ===== verification/Cluster_Protocol.thy ===== *)
theory Cluster_Protocol
  imports Vote_History
begin

text \<open>
  A steady run of the cluster is a run of the abstract protocol. The protocol state that goes with a
  cluster has the terms and log bodies of its nodes; its ballots, chains and acknowledgements are what
  the messages and the leader arrays stand for. Each step of the cluster is matched by a few
  protocol steps.
\<close>

section \<open>The abstract protocol along a run\<close>

definition protocol_reach :: "u64 set \<Rightarrow> protocol \<Rightarrow> bool" where
  "protocol_reach N p \<longleftrightarrow> (protocol_step N)\<^sup>*\<^sup>* blank_protocol p"

lemma protocol_reach_ok: "protocol_reach N p \<Longrightarrow> protocol_ok N p"
  unfolding protocol_reach_def
  by (induction rule: rtranclp_induct) (auto intro: blank_protocol_ok protocol_step_ok)

lemma protocol_reach_step: "protocol_reach N p \<Longrightarrow> protocol_step N p p' \<Longrightarrow> protocol_reach N p'"
  unfolding protocol_reach_def by (rule rtranclp.rtrancl_into_rtrancl)

text \<open>Who acknowledged a position acknowledged those before it.\<close>

lemma protocol_step_closed:
  "protocol_step N p p' \<Longrightarrow> (\<And>v t m i. (v, t, m) \<in> acked p \<Longrightarrow> i \<le> m \<Longrightarrow> (v, t, i) \<in> acked p) \<Longrightarrow>
     (v, t, m) \<in> acked p' \<Longrightarrow> i \<le> m \<Longrightarrow> (v, t, i) \<in> acked p'"
  by (induction rule: protocol_step.induct) (auto intro: order_trans)

lemma acked_before:
  assumes "protocol_reach N p" and "(v, t, m) \<in> acked p" and "i \<le> m"
  shows "(v, t, i) \<in> acked p"
proof -
  have "\<forall>v t m i. (v, t, m) \<in> acked p \<longrightarrow> i \<le> m \<longrightarrow> (v, t, i) \<in> acked p"
    using assms(1) unfolding protocol_reach_def
  proof (induction rule: rtranclp_induct)
    case base
    show ?case by (simp add: blank_protocol_def)
  next
    case (step y z)
    then show ?case using protocol_step_closed [OF step(2)] by blast
  qed
  with assms(2,3) show ?thesis by blast
qed

text \<open>Nothing that was recorded is taken back.\<close>

definition recorded :: "protocol \<Rightarrow> protocol \<Rightarrow> bool" where
  "recorded p p' \<longleftrightarrow> acked p \<subseteq> acked p' \<and> ballots p \<subseteq> ballots p' \<and> starts p \<subseteq>\<^sub>m starts p' \<and>
     (\<forall>t c. chain p t = Some c \<longrightarrow> (\<exists>es. chain p' t = Some (c @ es)))"

lemma recorded_refl [simp]: "recorded p p"
  by (auto simp: recorded_def)

lemma recordedD:
  assumes "recorded p p'"
  shows "x \<in> acked p \<Longrightarrow> x \<in> acked p'" and "y \<in> ballots p \<Longrightarrow> y \<in> ballots p'"
    and "starts p t = Some s \<Longrightarrow> starts p' t = Some s" and "chain p t = Some c \<Longrightarrow> \<exists>es. chain p' t = Some (c @ es)"
  using assms by (auto simp: recorded_def map_le_def dom_def)

lemma recordedI:
  assumes "\<And>x. x \<in> acked p \<Longrightarrow> x \<in> acked p'" and "\<And>y. y \<in> ballots p \<Longrightarrow> y \<in> ballots p'"
    and "\<And>t s. starts p t = Some s \<Longrightarrow> starts p' t = Some s"
    and "\<And>t c. chain p t = Some c \<Longrightarrow> \<exists>es. chain p' t = Some (c @ es)"
  shows "recorded p p'"
  using assms by (auto simp: recorded_def map_le_def dom_def)

lemma recorded_trans:
  assumes "recorded p q" and "recorded q r"
  shows "recorded p r"
proof (rule recordedI, goal_cases)
  case (4 t c)
  from recordedD(4) [OF assms(1) 4] obtain es where "chain q t = Some (c @ es)" ..
  from recordedD(4) [OF assms(2) this] show ?case by auto
qed (use recordedD [OF assms(1)] recordedD [OF assms(2)] in blast)+

lemma recorded_step:
  assumes "protocol_step N p p'" and "chains_ok p"
  shows "recorded p p'"
  using assms
proof (induction rule: protocol_step.induct)
  case (elect t p l Q)
  then have "chain p t = None" unfolding chains_ok_def by (metis domIff)
  with elect(2) show ?case by (auto simp: recorded_def map_le_def)
qed (auto simp: recorded_def map_le_def)

lemma recorded_on_chain:
  assumes "recorded p p'" and "on_chain p t l"
  shows "on_chain p' t l"
proof -
  from assms(2) obtain s c where sc: "starts p t = Some s" "chain p t = Some c" "prefix s l" "prefix l c"
    unfolding on_chain_def by blast
  from recordedD(4) [OF assms(1) sc(2)] obtain es where "chain p' t = Some (c @ es)" ..
  with recordedD(3) [OF assms(1) sc(1)] sc(3,4) show ?thesis unfolding on_chain_def by auto
qed

lemma recorded_own:
  assumes "recorded p p'" and "own_entry p t m"
  shows "own_entry p' t m" and "entries_to p' t m = entries_to p t m"
proof -
  from assms(2) obtain s c where sc: "starts p t = Some s" "chain p t = Some c" "length s < m" "m \<le> length c"
    unfolding own_entry_def by blast
  from recordedD(4) [OF assms(1) sc(2)] obtain es where "chain p' t = Some (c @ es)" ..
  moreover have "starts p' t = Some s" by (rule recordedD(3) [OF assms(1) sc(1)])
  ultimately show "own_entry p' t m" "entries_to p' t m = entries_to p t m"
    using sc by (simp_all add: own_entry_def entries_to_def)
qed

lemma recorded_committed: "recorded p p' \<Longrightarrow> committed N p t m \<Longrightarrow> committed N p' t m"
  using recorded_own(1) unfolding committed_def by (meson recordedD(1))

section \<open>What the nodes and messages stand for\<close>

text \<open>The first \<open>ci\<close> entries of \<open>l\<close> are committed in a term up to \<open>T\<close>.\<close>

definition commit_ok :: "u64 set \<Rightarrow> protocol \<Rightarrow> nat \<Rightarrow> log_entry list \<Rightarrow> nat \<Rightarrow> bool" where
  "commit_ok N p T l ci \<longleftrightarrow> ci \<le> length l \<and>
     (ci = 0 \<or> (\<exists>t m. t \<le> T \<and> committed N p t m \<and> ci \<le> m \<and> take ci l = take ci (entries_to p t m)))"

lemma commit_ok_later:
  assumes "commit_ok N p T l ci" and "recorded p p'" and "T \<le> T'"
  shows "commit_ok N p' T' l ci"
proof (cases "ci = 0")
  case True
  with assms(1) show ?thesis by (simp add: commit_ok_def)
next
  case False
  with assms(1) obtain t m where c: "ci \<le> length l" "t \<le> T" "committed N p t m" "ci \<le> m"
    "take ci l = take ci (entries_to p t m)" unfolding commit_ok_def by blast
  have "entries_to p' t m = entries_to p t m"
    using recorded_own(2) [OF assms(2)] c(3) unfolding committed_def by blast
  with c recorded_committed [OF assms(2) c(3)] assms(3) show ?thesis unfolding commit_ok_def by (metis order_trans)
qed

definition names :: "request_vote_args \<Rightarrow> log_entry list \<Rightarrow> bool" where
  "names args l \<longleftrightarrow> unat (rv_lastLogIndex args) = length l \<and> unat (rv_lastLogTerm args) = last_tm l"

definition sound_node :: "raft_node \<Rightarrow> bool" where
  "sound_node n \<longleftrightarrow> plain (log n) \<and> log_fits (log n) \<and> saved n \<and> indexed n \<and>
     length (peerIds n) \<le> length (nextIndex n) \<and> (\<forall>k < length (peerIds n). 0 < nextIndex n ! k)"

definition candidate_ok :: "message set \<Rightarrow> protocol \<Rightarrow> u64 \<Rightarrow> raft_node \<Rightarrow> bool" where
  "candidate_ok M p i n \<longleftrightarrow> (role n = CANDIDATE \<longrightarrow> 0 < unat (currentTerm n) \<and>
     (i, unat (currentTerm n), body (log n)) \<in> ballots p \<and>
     (\<forall>q. granted_vote M q i (currentTerm n) \<longrightarrow> (q, unat (currentTerm n), body (log n)) \<in> ballots p) \<and>
     (\<forall>q args. Vote_request q args \<in> M \<and> rv_candidateId args = i \<and> rv_term args = currentTerm n \<longrightarrow> names args (body (log n))))"

definition leader_ok :: "protocol \<Rightarrow> u64 \<Rightarrow> raft_node \<Rightarrow> bool" where
  "leader_ok p i n \<longleftrightarrow> (role n = LEADER \<longrightarrow>
     chain p (unat (currentTerm n)) = Some (body (log n)) \<and>
     (i, unat (currentTerm n), length (body (log n))) \<in> acked p \<and>
     (\<forall>k < length (peerIds n). k < length (matchIndex n) \<longrightarrow> matchIndex n ! k = 0 \<or>
        (peerIds n ! k, unat (currentTerm n), unat (matchIndex n ! k)) \<in> acked p))"

lemma leader_ok_later:
  assumes "leader_ok p i n" and "recorded p p'"
    and "role n = LEADER \<Longrightarrow> chain p' (unat (currentTerm n)) = chain p (unat (currentTerm n))"
  shows "leader_ok p' i n"
  unfolding leader_ok_def
proof (intro impI)
  assume r: "role n = LEADER"
  note acks = recordedD(1) [OF assms(2)]
  from assms(1) r have l: "chain p (unat (currentTerm n)) = Some (body (log n))"
    "(i, unat (currentTerm n), length (body (log n))) \<in> acked p"
    "\<And>k. k < length (peerIds n) \<Longrightarrow> k < length (matchIndex n) \<Longrightarrow> matchIndex n ! k = 0 \<or>
        (peerIds n ! k, unat (currentTerm n), unat (matchIndex n ! k)) \<in> acked p" unfolding leader_ok_def by blast+
  show "chain p' (unat (currentTerm n)) = Some (body (log n)) \<and>
     (i, unat (currentTerm n), length (body (log n))) \<in> acked p' \<and>
     (\<forall>k < length (peerIds n). k < length (matchIndex n) \<longrightarrow> matchIndex n ! k = 0 \<or>
        (peerIds n ! k, unat (currentTerm n), unat (matchIndex n ! k)) \<in> acked p')"
    unfolding assms(3) [OF r] using l acks by blast
qed

definition node_rep :: "u64 set \<Rightarrow> message set \<Rightarrow> protocol \<Rightarrow> u64 \<Rightarrow> raft_node \<Rightarrow> activity \<Rightarrow> bool" where
  "node_rep N M p i n a \<longleftrightarrow>
     p_term p i = unat (currentTerm n) \<and> p_log p i = body (log n) \<and> sound_node n \<and>
     candidate_ok M p i n \<and> leader_ok p i n \<and>
     commit_ok N p (unat (currentTerm n)) (body (log n)) (unat (commitIndex n)) \<and>
     (\<forall>args ps v. a = Electing args ps v \<longrightarrow> names args (body (log n)))"

text \<open>An \<open>AppendEntries\<close> carries a log of the leader of its term, a success acknowledges it. Snapshots do not occur.\<close>

fun message_rep :: "u64 set \<Rightarrow> protocol \<Rightarrow> message \<Rightarrow> bool" where
  "message_rep N p (Append_request q args) =
     (\<exists>l. on_chain p (unat (ae_term args)) l \<and> (describes args l \<or> overshoots args l) \<and>
        commit_ok N p (unat (ae_term args)) l (unat (ae_leaderCommit args)))"
| "message_rep N p (Append_reply q args reply) =
     (aer_success reply \<longrightarrow> (\<exists>l. on_chain p (unat (ae_term args)) l \<and> describes args l \<and>
        (q, unat (ae_term args), length l) \<in> acked p))"
| "message_rep N p (Snapshot_request q sargs) = False"
| "message_rep N p (Snapshot_reply q sargs sreply) = False"
| "message_rep N p (Vote_request q vargs) = True"
| "message_rep N p (Vote_reply q vargs vreply) = True"

text \<open>Whoever started a chain won the term and cannot win it again.\<close>

definition led_rep :: "u64 set \<Rightarrow> cluster \<Rightarrow> protocol \<Rightarrow> bool" where
  "led_rep N c p \<longleftrightarrow> (\<forall>t. starts p t \<noteq> None \<longrightarrow> (\<exists>x \<in> N. \<exists>tx. unat tx = t \<and> won N (net c) x tx \<and>
     tx \<le> currentTerm (node c x) \<and> (tx = currentTerm (node c x) \<longrightarrow> role (node c x) \<noteq> CANDIDATE)))"

definition chains_rep :: "protocol \<Rightarrow> bool" where
  "chains_rep p \<longleftrightarrow> (\<forall>t c. chain p t = Some c \<longrightarrow> consecutive 1 c \<and> length c < 18446744073709551615)"

definition represents :: "u64 set \<Rightarrow> cluster \<Rightarrow> protocol \<Rightarrow> bool" where
  "represents N c p \<longleftrightarrow>
     (\<forall>i \<in> N. node_rep N (net c) p i (node c i) (doing c i)) \<and> (\<forall>m \<in> net c. message_rep N p m) \<and>
     led_rep N c p \<and> chains_rep p"

lemma message_rep_later:
  assumes "message_rep N p m" and "recorded p p'"
  shows "message_rep N p' m"
proof (cases m)
  case (Append_request q args)
  with assms recorded_on_chain [OF assms(2)] commit_ok_later [OF _ assms(2) order_refl] show ?thesis by fastforce
next
  case (Append_reply q args reply)
  have "acked p \<subseteq> acked p'" using assms(2) by (simp add: recorded_def)
  with Append_reply assms(1) recorded_on_chain [OF assms(2)] show ?thesis by fastforce
qed (use assms(1) in auto)

section \<open>One step\<close>

lemma representsD:
  assumes "represents N c p"
  shows "i \<in> N \<Longrightarrow> node_rep N (net c) p i (node c i) (doing c i)" and "m \<in> net c \<Longrightarrow> message_rep N p m"
    and "led_rep N c p" and "chains_rep p"
  using assms by (simp_all add: represents_def)

lemma node_repD:
  assumes "node_rep N M p i n a"
  shows "p_term p i = unat (currentTerm n)" and "p_log p i = body (log n)" and "plain (log n)" and "log_fits (log n)"
    and "saved n" and "indexed n" and "length (peerIds n) \<le> length (nextIndex n)"
    and "k < length (peerIds n) \<Longrightarrow> 0 < nextIndex n ! k" and "candidate_ok M p i n" and "leader_ok p i n"
    and "commit_ok N p (unat (currentTerm n)) (body (log n)) (unat (commitIndex n))"
    and "a = Electing args ps v \<Longrightarrow> names args (body (log n))"
  using assms by (simp_all add: node_rep_def sound_node_def)

text \<open>A step of node \<open>j\<close>: the others see more messages and more records.\<close>

lemma represents_update:
  assumes rep: "represents N c p" and rec: "recorded p p'" and "j \<in> N"
    and new: "node_rep N (net c \<union> M) p' j n a" and "\<And>m. m \<in> M \<Longrightarrow> message_rep N p' m"
    and same: "\<And>i. i \<noteq> j \<Longrightarrow> p_term p' i = p_term p i \<and> p_log p' i = p_log p i"
    and lead: "\<And>i. i \<in> N \<Longrightarrow> i \<noteq> j \<Longrightarrow> role (node c i) = LEADER \<Longrightarrow>
      chain p' (unat (currentTerm (node c i))) = chain p (unat (currentTerm (node c i)))"
    and cand: "\<And>i. i \<in> N \<Longrightarrow> i \<noteq> j \<Longrightarrow> candidate_ok (net c) p i (node c i) \<Longrightarrow> candidate_ok (net c \<union> M) p' i (node c i)"
    and led: "\<And>t. starts p' t \<noteq> None \<Longrightarrow> starts p t \<noteq> None \<or>
      t = unat (currentTerm n) \<and> won N (net c) j (currentTerm n) \<and> role n \<noteq> CANDIDATE"
    and le: "currentTerm (node c j) \<le> currentTerm n"
    and role: "currentTerm n = currentTerm (node c j) \<Longrightarrow> role n = CANDIDATE \<Longrightarrow> role (node c j) = CANDIDATE"
    and "chains_rep p'"
  shows "represents N (update j n a M c) p'"
proof -
  note r = representsD [OF rep]
  have "node_rep N (net c \<union> M) p' i (node c i) (doing c i)" if i: "i \<in> N" "i \<noteq> j" for i
  proof -
    note d = node_repD [OF r(1) [OF i(1)]]
    have "leader_ok p' i (node c i)" by (rule leader_ok_later [OF d(10) rec lead [OF i]])
    moreover have "candidate_ok (net c \<union> M) p' i (node c i)" by (rule cand [OF i d(9)])
    moreover have "commit_ok N p' (unat (currentTerm (node c i))) (body (log (node c i))) (unat (commitIndex (node c i)))"
      by (rule commit_ok_later [OF d(11) rec order_refl])
    ultimately show ?thesis
      using r(1) [OF i(1)] same [OF i(2)] unfolding node_rep_def by simp
  qed
  moreover have "message_rep N p' m" if "m \<in> net c \<union> M" for m
    using that assms(5) message_rep_later [OF r(2) rec] by blast
  moreover have "led_rep N (update j n a M c) p'"
    unfolding led_rep_def
  proof (intro allI impI)
    fix t
    assume "starts p' t \<noteq> None"
    from led [OF this] show "\<exists>x \<in> N. \<exists>tx. unat tx = t \<and> won N (net (update j n a M c)) x tx \<and>
        tx \<le> currentTerm (node (update j n a M c) x) \<and>
        (tx = currentTerm (node (update j n a M c) x) \<longrightarrow> role (node (update j n a M c) x) \<noteq> CANDIDATE)"
    proof (elim disjE conjE)
      assume "starts p t \<noteq> None"
      with r(3) obtain x tx where x: "x \<in> N" "unat tx = t" "won N (net c) x tx" "tx \<le> currentTerm (node c x)"
        "tx = currentTerm (node c x) \<Longrightarrow> role (node c x) \<noteq> CANDIDATE" unfolding led_rep_def by blast
      have "tx \<le> currentTerm n \<and> (tx = currentTerm n \<longrightarrow> role n \<noteq> CANDIDATE)" if "x = j"
      proof (intro conjI impI)
        show "tx \<le> currentTerm n" using x(4) le unfolding that by (rule order_trans)
        assume "tx = currentTerm n"
        with x(4) le that have "tx = currentTerm (node c x)" "currentTerm n = currentTerm (node c j)" by auto
        with x(5) role that show "role n \<noteq> CANDIDATE" by blast
      qed
      with x won_mono [OF x(3)] show ?thesis by (intro bexI [of _ x] exI [of _ tx]) simp_all
    next
      assume "t = unat (currentTerm n)" "won N (net c) j (currentTerm n)" "role n \<noteq> CANDIDATE"
      then show ?thesis using \<open>j \<in> N\<close> won_mono [of N "net c" j "currentTerm n" M]
        by (intro bexI [of _ j] exI [of _ "currentTerm n"]) simp_all
    qed
  qed
  ultimately show ?thesis using new assms(12) unfolding represents_def by simp
qed

text \<open>The term that a node has reached.\<close>

definition learned :: "u64 \<Rightarrow> u64 \<Rightarrow> protocol \<Rightarrow> protocol" where
  "learned j t p = p\<lparr>p_term := (p_term p)(j := unat t)\<rparr>"

lemma learned_simps [simp]:
  "p_term (learned j t p) = (p_term p)(j := unat t)" "p_log (learned j t p) = p_log p" "ballots (learned j t p) = ballots p"
  "starts (learned j t p) = starts p" "chain (learned j t p) = chain p" "acked (learned j t p) = acked p"
  "on_chain (learned j t p) = on_chain p" "recorded p (learned j t p)"
  "candidate_ok M (learned j t p) i n = candidate_ok M p i n" "leader_ok (learned j t p) i n = leader_ok p i n"
  "chains_rep (learned j t p) = chains_rep p"
  by (simp_all add: learned_def recorded_def candidate_ok_def leader_ok_def chains_rep_def)

lemma commit_ok_learned [simp]: "commit_ok N (learned j t p) T l ci = commit_ok N p T l ci"
  by (simp add: learned_def commit_ok_def committed_def)

lemma learned_step:
  assumes "p_term p j = unat (currentTerm n)" and "currentTerm n \<le> t"
  shows "protocol_step N p (learned j t p)"
  unfolding learned_def by (rule protocol_step.learn) (use assms in \<open>simp add: word_le_nat_alt\<close>)

lemma candidate_ok_quiet:
  assumes "candidate_ok M p i n" and "recorded p p'" and "voteless M'"
  shows "candidate_ok (M \<union> M') p' i n"
  using assms(1) recordedD(2) [OF assms(2)] assms(3)
  unfolding candidate_ok_def voteless_frame(1) [OF assms(3)] voteless_def by blast

text \<open>A step that leaves the log alone, and keeps the term and role or ends as follower.\<close>

definition calm :: "raft_node \<Rightarrow> raft_node \<Rightarrow> bool" where
  "calm n n' \<longleftrightarrow> log n' = log n \<and> (commitIndex n' = commitIndex n \<or> commitIndex n' = 0) \<and> saved n' \<and> indexed n' \<and>
     length (peerIds n') \<le> length (nextIndex n') \<and> (\<forall>k < length (peerIds n'). 0 < nextIndex n' ! k) \<and>
     currentTerm n \<le> currentTerm n' \<and>
     (role n' = FOLLOWER \<or> currentTerm n' = currentTerm n \<and> role n' = role n \<and>
        (role n = LEADER \<longrightarrow> peerIds n' = peerIds n \<and> matchIndex n' = matchIndex n))"

lemma calm_same_arrays:
  assumes "node_rep N M p j n a" and "same_arrays n n'" and "log n' = log n" and "commitIndex n' = commitIndex n"
    and "saved n'" and "currentTerm n \<le> currentTerm n'"
    and "role n' = FOLLOWER \<or> currentTerm n' = currentTerm n \<and> role n' = role n"
  shows "calm n n'"
  using assms node_repD(6-8) [OF assms(1)] indexed_same_arrays [OF assms(2)]
  unfolding calm_def same_arrays_def by simp

lemma node_rep_calm:
  assumes "node_rep N M p j n a" and "calm n n'" and "voteless M'" and "\<And>args ps v. a' = Electing args ps v \<Longrightarrow> names args (body (log n))"
  shows "node_rep N (M \<union> M') (learned j (currentTerm n') p) j n' a'"
proof -
  note d = node_repD [OF assms(1)]
  from assms(2) have c: "log n' = log n" "currentTerm n \<le> currentTerm n'"
    "role n' = FOLLOWER \<or> currentTerm n' = currentTerm n \<and> role n' = role n \<and>
       (role n = LEADER \<longrightarrow> peerIds n' = peerIds n \<and> matchIndex n' = matchIndex n)"
    "commitIndex n' = commitIndex n \<or> commitIndex n' = 0" by (auto simp: calm_def)
  have "candidate_ok M p j n' \<and> leader_ok p j n'"
    using c(3) d(9,10) c(1) unfolding candidate_ok_def leader_ok_def by auto
  then have "candidate_ok (M \<union> M') p j n'" "leader_ok p j n'" using candidate_ok_quiet [OF _ recorded_refl assms(3)] by blast+
  moreover have "commit_ok N p (unat (currentTerm n')) (body (log n)) (unat (commitIndex n'))"
    using c(4)
  proof
    assume "commitIndex n' = commitIndex n"
    with commit_ok_later [OF d(11) recorded_refl] c(2) show ?thesis by (simp add: word_le_nat_alt)
  qed (simp add: commit_ok_def)
  ultimately show ?thesis
    using assms(2,4) d(2-4) c(1) unfolding node_rep_def sound_node_def calm_def by simp
qed

text \<open>The protocol can follow to a state that stands for this cluster.\<close>

definition tracks :: "u64 set \<Rightarrow> protocol \<Rightarrow> cluster \<Rightarrow> bool" where
  "tracks N p c \<longleftrightarrow> (\<exists>p'. (protocol_step N)\<^sup>*\<^sup>* p p' \<and> represents N c p')"

lemma tracksI: "(protocol_step N)\<^sup>*\<^sup>* p p' \<Longrightarrow> represents N c p' \<Longrightarrow> tracks N p c"
  unfolding tracks_def by blast

lemma represents_calm:
  assumes rep: "represents N c p" and "j \<in> N" and "calm (node c j) n" and "voteless M"
    and "\<And>m. m \<in> M \<Longrightarrow> message_rep N p m" and "\<And>args ps v. a = Electing args ps v \<Longrightarrow> names args (body (log (node c j)))"
  shows "tracks N p (update j n a M c)"
proof (rule tracksI)
  let ?p = "learned j (currentTerm n) p"
  note r = representsD [OF rep]
  have le: "currentTerm (node c j) \<le> currentTerm n" using assms(3) by (simp add: calm_def)
  show "(protocol_step N)\<^sup>*\<^sup>* p ?p"
    by (rule r_into_rtranclp, rule learned_step [OF node_repD(1) [OF r(1) [OF assms(2)]] le])
  show "represents N (update j n a M c) ?p"
  proof (rule represents_update [OF rep _ assms(2)])
    show "node_rep N (net c \<union> M) ?p j n a" by (rule node_rep_calm [OF r(1) [OF assms(2)] assms(3,4,6)])
    show "message_rep N ?p m" if "m \<in> M" for m using message_rep_later [OF assms(5) [OF that]] by simp
    show "candidate_ok (net c \<union> M) ?p i (node c i)" if "candidate_ok (net c) p i (node c i)" for i
      using candidate_ok_quiet [OF that recorded_refl assms(4)] by simp
    show "role (node c j) = CANDIDATE" if "currentTerm n = currentTerm (node c j)" "role n = CANDIDATE"
      using that assms(3) by (auto simp: calm_def)
  qed (use r(4) le in simp_all)
qed

end
