(* ===== verification/Steady_Steps.thy ===== *)
theory Steady_Steps
  imports Cluster_Protocol
begin

text \<open>
  The steps of a cluster one by one: those that leave the logs alone, then votes, elections, client
  requests, \<open>AppendEntries\<close> and the replies to it. For each, the protocol state that stands for the
  cluster can follow.
\<close>

section \<open>Steps that leave the logs alone\<close>

lemma calm_refl: "node_rep N M p j n a \<Longrightarrow> calm n n"
  using node_repD(5-8) [of N M p j n a] unfolding calm_def by simp

lemma represents_idle:
  assumes "represents N c p" and "j \<in> N" and "voteless M" and "\<And>m. m \<in> M \<Longrightarrow> message_rep N p m"
    and "\<And>args ps v. a = Electing args ps v \<Longrightarrow> \<exists>qs w. doing c j = Electing args qs w"
  shows "tracks N p (update j (node c j) a M c)"
proof (rule represents_calm [OF assms(1,2) calm_refl [OF representsD(1) [OF assms(1,2)]] assms(3,4)])
  fix args ps v
  assume "a = Electing args ps v"
  with assms(5) obtain qs w where "doing c j = Electing args qs w" by blast
  from node_repD(12) [OF representsD(1) [OF assms(1,2)] this] show "names args (body (log (node c j)))" .
qed

lemma calm_reactive:
  assumes "node_rep N M p j n a" and "reactive t n n'" and "same_arrays n n'" and "log n' = log n"
    and "commitIndex n' = commitIndex n" and "saved n'"
  shows "calm n n'"
proof (rule calm_same_arrays [OF assms(1,3-6)])
  show "currentTerm n \<le> currentTerm n'" by (rule reactiveD(3) [OF assms(2)])
  show "role n' = FOLLOWER \<or> currentTerm n' = currentTerm n \<and> role n' = role n"
    using reactiveD(8,9) [OF assms(2)] by blast
qed

lemma tracks_vote_refused:
  assumes "represents N c p" and "j \<in> N" and "handleRequestVote now args (node c j) = (r, n)"
    and "\<And>reply. r = Inr reply \<Longrightarrow> \<not> voteGranted reply"
  shows "tracks N p (update j n Idle (replies r (Vote_reply j args)) c)"
proof (rule represents_calm [OF assms(1,2)])
  note rep = representsD(1) [OF assms(1,2)]
  have n: "n = snd (handleRequestVote now args (node c j))" using assms(3) by simp
  show "calm (node c j) n"
    unfolding n
    by (rule calm_reactive [OF rep reactive_handleRequestVote same_arrays_handleRequestVote])
      (simp_all add: handleRequestVote_frame saved_handleRequestVote [OF node_repD(5) [OF rep]])
  show "voteless (replies r (Vote_reply j args))"
    using assms(4) by (auto simp: voteless_def grants_nothing_def replies_def split: sum.splits)
  show "message_rep N p m" if "m \<in> replies r (Vote_reply j args)" for m
    using that by (auto simp: replies_def split: sum.splits)
qed simp

lemma tracks_ask:
  assumes "represents N c p" and "cluster_ok N k c" and "j \<in> N" and "doing c j = Electing args (q # ps) v"
  shows "tracks N p (update j (node c j) (Electing args (q # ps) v) {Vote_request q args} c)"
proof (rule tracksI)
  let ?M = "net c \<union> {Vote_request q args}"
  note r = representsD [OF assms(1)]
  have "rv_candidateId args = j"
    using node_okD(9) [OF cluster_okD(1) [OF assms(2,3)]] assms(4) unfolding election_ok_def by blast
  have g: "granted_vote ?M = granted_vote (net c)" by (rule granted_vote_quiet_fun) simp
  have names: "names args (body (log (node c j)))" by (rule node_repD(12) [OF r(1) [OF assms(3)] assms(4)])
  show "(protocol_step N)\<^sup>*\<^sup>* p p" by simp
  show "represents N (update j (node c j) (Electing args (q # ps) v) {Vote_request q args} c) p"
  proof (rule represents_update [OF assms(1) recorded_refl assms(3)])
    have "candidate_ok ?M p j (node c j)"
      using node_repD(9) [OF r(1) [OF assms(3)]] names unfolding candidate_ok_def g by blast
    then show "node_rep N ?M p j (node c j) (Electing args (q # ps) v)"
      using r(1) [OF assms(3)] names unfolding node_rep_def by blast
    show "candidate_ok ?M p i (node c i)" if "i \<noteq> j" "candidate_ok (net c) p i (node c i)" for i
      using that \<open>rv_candidateId args = j\<close> unfolding candidate_ok_def g by blast
  qed (use r(4) in auto)
qed

lemma tracks_hear_vote:
  assumes "represents N c p" and "cluster_ok N k c" and "j \<in> N" and "doing c j = Electing args (q # ps) v"
    and "on_vote_result result v (node c j) = (r, n)"
  shows "tracks N p (update j n (after_vote args ps r) {} c)"
proof (rule represents_calm [OF assms(1,3)])
  note rep = representsD(1) [OF assms(1,3)]
  have disk: "disk_ok (node c j)" by (rule saved_disk_ok [OF node_repD(5) [OF rep]])
  from on_vote_result_cases [OF disk assms(5)] consider "n = node c j"
    | t where "currentTerm (node c j) < t" "n = snd (becomeFollower t (node c j))" by blast
  then show "calm (node c j) n"
  proof cases
    case 1
    with calm_refl [OF rep] show ?thesis by simp
  next
    case 2
    show ?thesis
      unfolding 2(2) by (rule calm_reactive [OF rep reactive_becomeFollower [OF 2(1)]]) (simp_all add: disk)
  qed
  show "names args' (body (log (node c j)))" if "after_vote args ps r = Electing args' ps' v'" for args' ps' v'
    using that node_repD(12) [OF rep assms(4)] by (auto simp: after_vote_def split: sum.splits option.splits)
qed simp_all

lemma snapshot_uncompacted:
  assumes "plain (log n)" and "uncompacted (log (snd (takeNodeSnapshot u n)))"
  shows "snd (takeNodeSnapshot u n) = n"
proof (rule ccontr)
  assume "snd (takeNodeSnapshot u n) \<noteq> n"
  then have u: "\<not> u \<le> getSnapshotIndex (log n)" "\<not> lastApplied n < u" by (auto simp: takeNodeSnapshot_def)
  then have "log (snd (takeNodeSnapshot u n)) = discardEntriesUpTo u (getTerm (log n) u) (log n)"
    by (simp add: takeNodeSnapshot_def Let_def)
  then have "log_snapshotIndex (log (snd (takeNodeSnapshot u n))) = u"
    using u(1) by (simp add: discardEntriesUpTo_def getSnapshotIndex_def Let_def)
  with assms u(1) show False by (simp add: uncompacted_def plain_def getSnapshotIndex_def)
qed

lemma tracks_snapshot:
  assumes "represents N c p" and "j \<in> N" and "n = node c j \<or> n = snd (takeNodeSnapshot u (node c j))"
    and "uncompacted (log n)"
  shows "tracks N p (update j n Idle {} c)"
proof -
  have "n = node c j"
    using assms(3,4) snapshot_uncompacted [OF node_repD(3) [OF representsD(1) [OF assms(1,2)]]] by blast
  then show ?thesis using represents_idle [OF assms(1,2), of "{}" Idle] by simp
qed

text \<open>A node without snapshots sends \<open>AppendEntries\<close>, and only a leader sends new ones.\<close>

lemma prepare_appends:
  assumes "represents N c p" and "j \<in> N" and "peerIdToIndexMap (node c j) q = Some i"
  shows "prepare_replication i (node c j) = Inr (Send_append (append_message i (node c j)))"
    and "i < length (peerIds (node c j))" and "peerIds (node c j) ! i = q" and "0 < nextIndex (node c j) ! i"
proof -
  note d = node_repD [OF representsD(1) [OF assms(1,2)]] and w = plainD [OF d(3)]
  note i = indexed_nth [OF d(6) assms(3)]
  from i show "i < length (peerIds (node c j))" "peerIds (node c j) ! i = q" .
  show pos: "0 < nextIndex (node c j) ! i" by (rule d(8) [OF i(1)])
  have "last_nat (log (node c j)) < 18446744073709551615" using fits_bound [OF d(3,4)] w(4) by simp
  then show "prepare_replication i (node c j) = Inr (Send_append (append_message i (node c j)))"
    by (rule prepare_uncompacted [OF w(1,2) _ pos])
qed

lemma leader_message:
  assumes "represents N c p" and "protocol_ok N p" and "j \<in> N" and "role (node c j) = LEADER"
    and "0 < nextIndex (node c j) ! i"
  shows "message_rep N p (Append_request q (append_message i (node c j)))"
proof -
  note d = node_repD [OF representsD(1) [OF assms(1,3)]]
  let ?m = "append_message i (node c j)"
  have m: "ae_term ?m = currentTerm (node c j)" "ae_leaderCommit ?m = commitIndex (node c j)"
    by (simp_all add: append_message_def)
  have "chain p (unat (currentTerm (node c j))) = Some (body (log (node c j)))"
    using d(10) assms(4) unfolding leader_ok_def by blast
  from on_chain_end [OF protocol_okD(1) [OF assms(2)] this] append_message_describes [OF d(3) assms(5)] d(11)
  show ?thesis unfolding message_rep.simps m by blast
qed

lemma tracks_send:
  assumes "represents N c p" and "protocol_ok N p" and "cluster_ok N k c" and "j \<in> N"
    and "peerIdToIndexMap (node c j) q = Some i" and "prepare_replication i (node c j) = Inr (Send_append args)"
    and "undisturbed N c (update j (node c j) (Heartbeat qs) {Append_request q args} c)"
  shows "tracks N p (update j (node c j) (Heartbeat qs) {Append_request q args} c)"
proof (rule represents_idle [OF assms(1,4)])
  note s = prepare_appends [OF assms(1,4,5)]
  have args: "args = append_message i (node c j)" using s(1) assms(6) by simp
  have "ae_leaderId args = j"
    using node_okD(1) [OF cluster_okD(1) [OF assms(3,4)]] by (simp add: args append_message_def)
  then have "Append_request q args \<in> net c \<or> role (node c j) = LEADER"
    using assms(7) unfolding undisturbed_def update_simps by blast
  then have "message_rep N p (Append_request q args)"
  proof
    assume "Append_request q args \<in> net c"
    then show ?thesis by (rule representsD(2) [OF assms(1)])
  qed (use leader_message [OF assms(1,2,4) _ s(4)] in \<open>simp only: args\<close>)
  then show "message_rep N p m" if "m \<in> {Append_request q args}" for m using that by blast
qed simp_all

lemma calm_restart:
  assumes "node_rep N M p j n a" and "stored n" and "persistence n = Some f" and "stateDir f \<noteq> []"
    and run: "RaftNode j (peerIds n) kv threshold (stateDir f) (fs f) rng j1 j2 now = (Inr (), n')"
  shows "calm n n'"
proof -
  note d = node_repD [OF assms(1)] and f = restart_finds [OF assms(2-4) run] and a = restart_arrays [OF run assms(4)]
  from restart_plain [OF d(5,3,4) assms(3,4) run] restart_saved [OF d(5,3,4) assms(3,4,2) run] f a
  show ?thesis unfolding calm_def indexed_def by simp
qed

lemma node_rep_start:
  assumes "fresh_node i N n"
  shows "node_rep N {} blank_protocol i n Idle"
proof -
  from assms obtain peers kv threshold dir disk rng j1 j2 now where
    run: "RaftNode i peers kv threshold dir disk rng j1 j2 now = (Inr (), n)"
    and f: "files disk (dir @ ''/raft_state.dat'') = None" "can_open (new_persistence dir disk)"
    unfolding fresh_node_def by (elim exE conjE)
  note n = run [unfolded RaftNode_fresh [OF f(1)] prod.inject, THEN conjunct2, symmetric]
  have "log n = new_log" "role n = FOLLOWER" "currentTerm n = 0" "commitIndex n = 0"
    by (simp_all add: n initial_node_def)
  moreover have "saved n"
    unfolding saved_def disk_ok_def using f
    by (simp add: n initial_node_def) (simp add: new_persistence_def getStatePath_def)
  moreover have "peerIdToIndexMap n = index_peers 0 (peerIds n) Map.empty" "nextIndex n = replicate (length (peerIds n)) 1"
    by (simp_all add: n initial_node_def)
  moreover have "log_fits new_log"
    using serializeLog_image [OF plainD(1) [OF plain_new(1)]]
    by (simp add: log_fits_def max_vector_size_def)
  ultimately show ?thesis
    by (simp add: node_rep_def sound_node_def candidate_ok_def leader_ok_def commit_ok_def blank_protocol_def indexed_def)
qed

lemma represents_start: "cluster_start N c \<Longrightarrow> represents N c blank_protocol"
  unfolding cluster_start_def represents_def
  by (simp add: node_rep_start led_rep_def chains_rep_def) (simp add: blank_protocol_def)

section \<open>Votes and elections\<close>

lemma handleRequestVote_log_check:
  assumes "handleRequestVote now args n = (Inr reply, n')" and "voteGranted reply"
  shows "isLogUpToDate (rv_lastLogIndex args) (rv_lastLogTerm args) n"
proof -
  have c: "isLogUpToDate (rv_lastLogIndex args) (rv_lastLogTerm args) n"
    if "consider_vote now args m = (Inr reply, n')" "log m = log n" for m
    using that assms(2) by (auto simp: consider_vote_def Let_def isLogUpToDate_def split: if_splits)
  have "log m = log n" if "becomeFollower t n = (r, m)" for t r m
    using becomeFollower_frame(4) [of t n] that by simp
  with assms c show ?thesis by (auto simp: handleRequestVote_def andThen_Inr_iff split: if_splits)
qed

text \<open>The ballot that a vote stands for, if the candidate is still at it.\<close>

definition cast :: "u64 \<Rightarrow> u64 \<Rightarrow> log_entry list \<Rightarrow> protocol \<Rightarrow> protocol" where
  "cast v t l p = p\<lparr>ballots := insert (v, unat t, l) (ballots p)\<rparr>"

lemma cast_simps [simp]:
  "p_term (cast v t l p) = p_term p" "p_log (cast v t l p) = p_log p"
  "ballots (cast v t l p) = insert (v, unat t, l) (ballots p)"
  "starts (cast v t l p) = starts p" "chain (cast v t l p) = chain p" "acked (cast v t l p) = acked p"
  "on_chain (cast v t l p) = on_chain p" "recorded p (cast v t l p)" "chains_rep (cast v t l p) = chains_rep p"
  by (simp_all add: cast_def recorded_def chains_rep_def subset_insertI)

lemma cast_step:
  "p_term p v = unat t \<Longrightarrow> up_to_date l (p_log p v) \<Longrightarrow> protocol_step N p (cast v t l p)"
  unfolding cast_def using protocol_step.vote [of l p v N] by simp

lemma candidate_okD:
  assumes "candidate_ok M p i n" and "role n = CANDIDATE"
  shows "0 < unat (currentTerm n)" and "(i, unat (currentTerm n), body (log n)) \<in> ballots p"
    and "granted_vote M q i (currentTerm n) \<Longrightarrow> (q, unat (currentTerm n), body (log n)) \<in> ballots p"
    and "Vote_request q args \<in> M \<Longrightarrow> rv_candidateId args = i \<Longrightarrow> rv_term args = currentTerm n \<Longrightarrow> names args (body (log n))"
  using assms unfolding candidate_ok_def by blast+

lemma candidate_okI:
  assumes "role n = CANDIDATE \<Longrightarrow> 0 < unat (currentTerm n)"
    and "role n = CANDIDATE \<Longrightarrow> (i, unat (currentTerm n), body (log n)) \<in> ballots p"
    and "\<And>q. role n = CANDIDATE \<Longrightarrow> granted_vote M q i (currentTerm n) \<Longrightarrow> (q, unat (currentTerm n), body (log n)) \<in> ballots p"
    and "\<And>q args. role n = CANDIDATE \<Longrightarrow> Vote_request q args \<in> M \<Longrightarrow> rv_candidateId args = i \<Longrightarrow>
      rv_term args = currentTerm n \<Longrightarrow> names args (body (log n))"
  shows "candidate_ok M p i n"
  using assms unfolding candidate_ok_def by blast

lemma candidate_ok_cast:
  assumes "candidate_ok M p i n"
  shows "candidate_ok M (cast v t l p) i n"
  using assms unfolding candidate_ok_def by auto

lemma tracks_vote_granted:
  assumes "represents N c p" and "cluster_ok N k c" and "cluster_ok N (Suc k) (update j n Idle {Vote_reply j args reply} c)"
    and "j \<in> N" and "Vote_request j args \<in> net c"
    and "handleRequestVote now args (node c j) = (Inr reply, n)" and "voteGranted reply"
  shows "tracks N p (update j n Idle {Vote_reply j args reply} c)"
proof -
  let ?n = "node c j" and ?x = "rv_candidateId args" and ?t = "rv_term args"
  let ?M = "net c \<union> {Vote_reply j args reply}" and ?p = "learned j ?t p"
  note r = representsD [OF assms(1)] and g = handleRequestVote_granted [OF assms(6,7)]
  note d = node_repD [OF r(1) [OF assms(4)]]
  have x: "?x \<in> N" "?x \<noteq> j" using cluster_ok_message [OF assms(2,5)] by simp_all
  have n: "n = snd (handleRequestVote now args ?n)" using assms(6) by simp
  have grant: "granted_vote ?M q y t \<longleftrightarrow> granted_vote (net c) q y t \<or> q = j \<and> y = ?x \<and> t = ?t" for q y t
    unfolding granted_vote_insert using assms(7) by blast
  have fol: "role n = FOLLOWER"
  proof -
    have "votes_kept ?M j n"
      using node_okD(7) [OF cluster_okD(1) [OF assms(3,4)]] by simp
    moreover have "granted_vote ?M j ?x ?t" using grant by blast
    ultimately show ?thesis using g(2) unfolding votes_kept_def by (metis less_irrefl)
  qed
  let ?wants = "role (node c ?x) = CANDIDATE \<and> currentTerm (node c ?x) = ?t"
  define p' where "p' = (if ?wants then cast j ?t (body (log (node c ?x))) ?p else ?p)"
  have p': "p_term p' = (p_term p)(j := unat ?t)" "p_log p' = p_log p" "starts p' = starts p" "chain p' = chain p"
    "acked p' = acked p" "chains_rep p' = chains_rep p" "ballots p \<subseteq> ballots p'"
    "?wants \<Longrightarrow> (j, unat ?t, body (log (node c ?x))) \<in> ballots p'"
    by (auto simp: p'_def)
  have rec: "recorded p p'" using p' by (simp add: recorded_def)
  have calm: "calm ?n n"
    unfolding n
    by (rule calm_reactive [OF r(1) [OF assms(4)] reactive_handleRequestVote same_arrays_handleRequestVote])
      (simp_all add: handleRequestVote_frame saved_handleRequestVote [OF d(5)])
  show ?thesis
  proof (rule tracksI)
    have "protocol_step N p ?p" by (rule learned_step [OF d(1) g(1)])
    moreover have "protocol_step N ?p (cast j ?t (body (log (node c ?x))) ?p)" if w: ?wants
    proof (rule cast_step)
      have "names args (body (log (node c ?x)))"
        by (rule candidate_okD(4) [OF node_repD(9) [OF r(1) [OF x(1)]] _ assms(5)]) (use w in simp_all)
      with handleRequestVote_log_check [OF assms(6,7)] d(2) show "up_to_date (body (log (node c ?x))) (p_log ?p j)"
        by (simp add: up_to_date_plain [OF d(3)] names_def up_to_date_def)
    qed simp
    ultimately show "(protocol_step N)\<^sup>*\<^sup>* p p'"
      unfolding p'_def by (auto intro: rtranclp.rtrancl_into_rtrancl)
    show "represents N (update j n Idle {Vote_reply j args reply} c) p'"
    proof (rule represents_update [OF assms(1) rec assms(4)])
      have "commit_ok N p' (unat (currentTerm n)) (body (log n)) (unat (commitIndex n))"
        using commit_ok_later [OF d(11) rec, of "unat ?t"] g(1,2) n by (simp add: word_le_nat_alt handleRequestVote_frame)
      then show "node_rep N ?M p' j n Idle"
        using fol calm d(2-4) p'(1,2) g(2) unfolding node_rep_def sound_node_def calm_def candidate_ok_def leader_ok_def
        by simp
      show "candidate_ok ?M p' i (node c i)" if "i \<noteq> j" "candidate_ok (net c) p i (node c i)" for i
      proof (rule candidate_okI)
        note o = candidate_okD [OF that(2)]
        assume c: "role (node c i) = CANDIDATE"
        from o(1) [OF c] show "0 < unat (currentTerm (node c i))" .
        from o(2) [OF c] p'(7) show "(i, unat (currentTerm (node c i)), body (log (node c i))) \<in> ballots p'" by blast
        show "(q, unat (currentTerm (node c i)), body (log (node c i))) \<in> ballots p'"
          if "granted_vote ?M q i (currentTerm (node c i))" for q
          using that o(3) [OF c] p'(7,8) c unfolding grant by auto
        show "names as (body (log (node c i)))"
          if "Vote_request q as \<in> ?M" "rv_candidateId as = i" "rv_term as = currentTerm (node c i)" for q as
          by (rule o(4) [OF c _ that(2,3)]) (use that(1) in simp)
      qed
    qed (use r(4) g(1,2) fol in \<open>simp_all add: p'\<close>)
  qed
qed

text \<open>Nobody granted or was asked for a vote in a term that its candidate only starts.\<close>

lemma tracks_election:
  assumes "represents N c p" and "cluster_ok N k c" and "history_ok N c" and "k < 18446744073709551615" and "j \<in> N"
    and "begin_election now (node c j) = (Inr args, n)"
  shows "tracks N p (update j n (Electing args (peerIds n) 1) {} c)"
proof -
  let ?n = "node c j" and ?t = "currentTerm n"
  let ?p = "learned j ?t p"
  let ?l = "body (log ?n)"
  let ?q = "cast j ?t ?l ?p"
  note r = representsD [OF assms(1)] and ok = node_okD [OF cluster_okD(1) [OF assms(2,5)]]
  note d = node_repD [OF r(1) [OF assms(5)]]
  have "unat (currentTerm ?n) < 18446744073709551615" using ok(5) assms(4) by simp
  note b = begin_election_newer [OF assms(6) this]
  have rec: "recorded p ?q" by (rule recorded_trans [of _ ?p]) simp_all
  have fresh: "\<not> stood (net c) j ?t"
  proof
    assume "stood (net c) j ?t"
    with assms(3,5) have "?t \<le> currentTerm ?n" unfolding history_ok_def remembers_def by blast
    with b(1) show False by simp
  qed
  have names: "names args ?l" unfolding names_def b(8,9) by (simp add: last_index [OF d(3)] last_term [OF d(3)])
  have n: "n = snd (begin_election now ?n)" using assms(6) by simp
  have arrays: "same_arrays ?n n" unfolding n by (simp add: begin_election_def becomeCandidate_def Let_def snd_andThen split: sum.split) (simp add: same_arrays_def)
  show ?thesis
  proof (rule tracksI)
    have "protocol_step N p ?p" by (rule learned_step [OF d(1) less_imp_le [OF b(1)]])
    moreover have "protocol_step N ?p ?q" by (rule cast_step) (simp_all add: d(2) up_to_date_def)
    ultimately show "(protocol_step N)\<^sup>*\<^sup>* p ?q" by (auto intro: rtranclp.rtrancl_into_rtrancl)
    show "represents N (update j n (Electing args (peerIds n) 1) {} c) ?q"
    proof (rule represents_update [OF assms(1) rec assms(5)])
      have "commit_ok N ?q (unat ?t) ?l (unat (commitIndex ?n))"
        using commit_ok_later [OF d(11) rec, of "unat ?t"] b(1) by (simp add: word_less_nat_alt)
      moreover have "candidate_ok (net c \<union> {}) ?q j n"
      proof (rule candidate_okI)
        show "0 < unat ?t" using b(1) by (simp add: word_less_nat_alt)
        show "(j, unat ?t, body (log n)) \<in> ballots ?q" by (simp add: b(5))
        have "votes_ok N (net c)" using assms(3) by (simp add: history_ok_def)
        then show "(q, unat ?t, body (log n)) \<in> ballots ?q" if "granted_vote (net c \<union> {}) q j ?t" for q
          using votes_okD(1) [of N "net c" q j ?t] fresh that by simp
        show "names as (body (log n))" if "Vote_request q as \<in> net c \<union> {}" "rv_candidateId as = j" "rv_term as = ?t" for q as
          using fresh that unfolding stood_def by simp
      qed
      moreover have "sound_node n"
        using d(3-8) b(5) arrays indexed_same_arrays [OF arrays] saved_begin_election [of ?n now]
        unfolding sound_node_def same_arrays_def n by simp
      ultimately show "node_rep N (net c \<union> {}) ?q j n (Electing args (peerIds n) 1)"
        using d(1,2) b names unfolding node_rep_def leader_ok_def by simp
      show "candidate_ok (net c \<union> {}) ?q i (node c i)" if "candidate_ok (net c) p i (node c i)" for i
        using candidate_ok_cast [of "net c" ?p i "node c i"] that by simp
      show "role ?n = CANDIDATE" if "?t = currentTerm ?n" using that b(1) by simp
    qed (use r(4) b(1) in simp_all)
  qed
qed

section \<open>A leader and its log\<close>

text \<open>Node \<open>v\<close> takes over the log \<open>l\<close>; node \<open>v\<close> acknowledges \<open>m\<close> positions of its term.\<close>

definition adopted :: "u64 \<Rightarrow> log_entry list \<Rightarrow> protocol \<Rightarrow> protocol" where
  "adopted v l p = p\<lparr>p_log := (p_log p)(v := l)\<rparr>"

definition agreed :: "u64 \<Rightarrow> nat \<Rightarrow> protocol \<Rightarrow> protocol" where
  "agreed v m p = p\<lparr>acked := acked p \<union> {(v, p_term p v, i) | i. i \<le> m}\<rparr>"

definition elected :: "nat \<Rightarrow> log_entry list \<Rightarrow> protocol \<Rightarrow> protocol" where
  "elected t l p = p\<lparr>starts := (starts p)(t \<mapsto> l), chain := (chain p)(t \<mapsto> l)\<rparr>"

definition extended :: "nat \<Rightarrow> log_entry list \<Rightarrow> protocol \<Rightarrow> protocol" where
  "extended t l p = p\<lparr>chain := (chain p)(t \<mapsto> l)\<rparr>"

lemma adopted_simps [simp]:
  "p_term (adopted v l p) = p_term p" "p_log (adopted v l p) = (p_log p)(v := l)" "ballots (adopted v l p) = ballots p"
  "starts (adopted v l p) = starts p" "chain (adopted v l p) = chain p" "acked (adopted v l p) = acked p"
  "on_chain (adopted v l p) = on_chain p" "recorded p (adopted v l p)" "chains_rep (adopted v l p) = chains_rep p"
  by (simp_all add: adopted_def recorded_def chains_rep_def)

lemma agreed_simps [simp]:
  "p_term (agreed v m p) = p_term p" "p_log (agreed v m p) = p_log p" "ballots (agreed v m p) = ballots p"
  "starts (agreed v m p) = starts p" "chain (agreed v m p) = chain p"
  "(x, t, i) \<in> acked (agreed v m p) \<longleftrightarrow> (x, t, i) \<in> acked p \<or> x = v \<and> t = p_term p v \<and> i \<le> m"
  "on_chain (agreed v m p) = on_chain p" "recorded p (agreed v m p)" "chains_rep (agreed v m p) = chains_rep p"
  by (auto simp: agreed_def recorded_def chains_rep_def)

lemma elected_simps [simp]:
  "p_term (elected t l p) = p_term p" "p_log (elected t l p) = p_log p" "ballots (elected t l p) = ballots p"
  "starts (elected t l p) = (starts p)(t \<mapsto> l)" "chain (elected t l p) = (chain p)(t \<mapsto> l)" "acked (elected t l p) = acked p"
  by (simp_all add: elected_def)

lemma extended_simps [simp]:
  "p_term (extended t l p) = p_term p" "p_log (extended t l p) = p_log p" "ballots (extended t l p) = ballots p"
  "starts (extended t l p) = starts p" "chain (extended t l p) = (chain p)(t \<mapsto> l)" "acked (extended t l p) = acked p"
  by (simp_all add: extended_def)

lemma candidate_ok_same:
  "candidate_ok M (adopted v l p) i n = candidate_ok M p i n" "candidate_ok M (agreed v m p) i n = candidate_ok M p i n"
  "candidate_ok M (elected t l p) i n = candidate_ok M p i n" "candidate_ok M (extended t l p) i n = candidate_ok M p i n"
  by (simp_all only: candidate_ok_def adopted_simps agreed_simps elected_simps extended_simps)

lemma agreed_step:
  "chain p (p_term p v) = Some c \<Longrightarrow> m \<le> length c \<Longrightarrow> prefix (take m c) (p_log p v) \<Longrightarrow> protocol_step N p (agreed v m p)"
  unfolding agreed_def by (rule protocol_step.acknowledge)

text \<open>Whoever wins a term without leading it yet is the first to start its chain.\<close>

lemma not_started:
  assumes "represents N c p" and "cluster_ok N k c" and "history_ok N c" and "won N (net c) j (currentTerm (node c j))"
    and "role (node c j) = CANDIDATE"
  shows "starts p (unat (currentTerm (node c j))) = None"
proof (rule ccontr)
  assume "starts p (unat (currentTerm (node c j))) \<noteq> None"
  with representsD(3) [OF assms(1)] obtain x tx where x: "unat tx = unat (currentTerm (node c j))" "won N (net c) x tx"
    "tx = currentTerm (node c x) \<Longrightarrow> role (node c x) \<noteq> CANDIDATE" unfolding led_rep_def by blast
  from x(1) have t: "tx = currentTerm (node c j)" by (rule word_unat_eq_iff [THEN iffD2])
  have "votes_ok N (net c)" using assms(3) by (simp add: history_ok_def)
  moreover have "\<forall>i \<in> N. votes_unique (net c) i" using cluster_okD(2) [OF assms(2)] by blast
  ultimately have "x = j" using one_winner x(2) assms(4) unfolding t by blast
  with x(3) t assms(5) show False by simp
qed

lemma other_leader:
  assumes "cluster_ok N k c" and "history_ok N c" and "won N (net c) j t" and "i \<in> N" and "i \<noteq> j" and "role (node c i) = LEADER"
  shows "unat (currentTerm (node c i)) \<noteq> unat t"
proof
  assume "unat (currentTerm (node c i)) = unat t"
  then have t: "currentTerm (node c i) = t" by (rule word_unat_eq_iff [THEN iffD2])
  have w: "won N (net c) i t" using node_okD(8) [OF cluster_okD(1) [OF assms(1,4)] assms(6)] by (simp add: t)
  have "votes_ok N (net c)" using assms(2) by (simp add: history_ok_def)
  moreover have "\<forall>i \<in> N. votes_unique (net c) i" using cluster_okD(2) [OF assms(1)] by blast
  ultimately show False using one_winner w assms(3,5) by blast
qed

lemma tracks_finish:
  assumes "represents N c p" and "protocol_ok N p" and "cluster_ok N k c" and "history_ok N c" and "j \<in> N"
    and "role (node c j) = CANDIDATE" and "won N (net c) j (currentTerm (node c j))" and "a = Heartbeat ps"
  shows "tracks N p (update j (becomeLeader (node c j)) a {} c)"
proof -
  let ?n = "node c j" and ?m = "becomeLeader (node c j)"
  let ?T = "unat (currentTerm ?n)" and ?l = "body (log ?n)"
  let ?p = "elected ?T ?l p"
  let ?q = "agreed j (length ?l) ?p"
  note r = representsD [OF assms(1)]
  note d = node_repD [OF r(1) [OF assms(5)]] and cand = candidate_okD [OF node_repD(9) [OF r(1) [OF assms(5)]] assms(6)]
  note ok = protocol_okD [OF assms(2)]
  have none: "starts p ?T = None" by (rule not_started [OF assms(1,3,4,7,6)])
  have "chain p ?T = None" using ok(1) none unfolding chains_ok_def by (metis domIff)
  then have rec: "recorded p ?q" using none by (auto simp: recorded_def map_le_def)
  obtain G where G: "G \<subseteq> N - {j}" "majority_of N (insert j G)" "\<forall>i \<in> G. granted_vote (net c) i j (currentTerm ?n)"
    using assms(7) unfolding won_def by blast
  have e1: "protocol_step N p ?p"
    unfolding elected_def
  proof (rule protocol_step.elect [OF cand(1) none _ G(2)])
    have "?l = [] \<or> (\<exists>t \<le> ?T. on_chain p t ?l)" using ok(2) d(1,2) unfolding nodes_ok_def by metis
    moreover have "\<not> on_chain p ?T ?l" using none unfolding on_chain_def by simp
    ultimately show "?l = [] \<or> (\<exists>t < ?T. on_chain p t ?l)" by (metis le_neq_implies_less)
    show "\<forall>v \<in> insert j G. (v, ?T, ?l) \<in> ballots p" using G(3) cand(2,3) by blast
  qed
  have e2: "protocol_step N ?p ?q" by (rule agreed_step [of _ _ ?l]) (simp_all add: d(1,2))
  have m: "log ?m = log ?n" "currentTerm ?m = currentTerm ?n" "commitIndex ?m = commitIndex ?n" "role ?m = LEADER"
    "peerIds ?m = peerIds ?n" "peerIdToIndexMap ?m = peerIdToIndexMap ?n"
    "persistence ?m = persistence ?n" "votedFor ?m = votedFor ?n"
    "nextIndex ?m = replicate (length (peerIds ?n)) (getLastIndex (log ?n) + 1) @ drop (length (peerIds ?n)) (nextIndex ?n)"
    "matchIndex ?m = replicate (length (peerIds ?n)) 0 @ drop (length (peerIds ?n)) (matchIndex ?n)"
    by (simp_all add: becomeLeader_def Let_def)
  have "unat (getLastIndex (log ?n) + 1) = Suc (length ?l)"
    using unat_u64_plus1 [of "getLastIndex (log ?n)"] fits_bound [OF d(3,4)] last_index [OF d(3)] by simp
  then have "0 < getLastIndex (log ?n) + 1" by (simp add: word_less_nat_alt)
  then have sound: "sound_node ?m"
    using d(3-7) m saved_unchanged [OF m(7,2,8,1)] unfolding sound_node_def indexed_def by (simp add: nth_append)
  show ?thesis
  proof (rule tracksI)
    from e1 e2 show "(protocol_step N)\<^sup>*\<^sup>* p ?q" by (auto intro: rtranclp.rtrancl_into_rtrancl)
    show "represents N (update j ?m a {} c) ?q"
    proof (rule represents_update [OF assms(1) rec assms(5)])
      have "leader_ok ?q j ?m" unfolding leader_ok_def using m d(1) by (simp add: nth_append)
      moreover have "commit_ok N ?q ?T ?l (unat (commitIndex ?n))" by (rule commit_ok_later [OF d(11) rec order_refl])
      ultimately show "node_rep N (net c \<union> {}) ?q j ?m a"
        using d(1,2) m(1-4) sound assms(8) unfolding node_rep_def candidate_ok_def by simp
      show "chain ?q (unat (currentTerm (node c i))) = chain p (unat (currentTerm (node c i)))"
        if "i \<in> N" "i \<noteq> j" "role (node c i) = LEADER" for i
        using other_leader [OF assms(3,4,7) that] by simp
      show "candidate_ok (net c \<union> {}) ?q i (node c i)" if "candidate_ok (net c) p i (node c i)" for i
        using that by (simp add: candidate_ok_same)
      show "chains_rep ?q"
        using r(4) body_consecutive [OF d(3)] fits_bound [OF d(3,4)] unfolding chains_rep_def by simp
      show "starts p t \<noteq> None \<or> t = unat (currentTerm ?m) \<and> won N (net c) j (currentTerm ?m) \<and> role ?m \<noteq> CANDIDATE"
        if "starts ?q t \<noteq> None" for t
        using that assms(7) m(2,4) by (auto split: if_splits)
    qed (simp_all add: m)
  qed
qed

lemma commit_ok_prefix: "commit_ok N p T l ci \<Longrightarrow> prefix l l' \<Longrightarrow> commit_ok N p T l' ci"
  unfolding commit_ok_def using prefix_take [of l l' ci] prefix_length_le [of l l'] by auto

text \<open>A leader appends the command of a client.\<close>

lemma tracks_client:
  assumes "represents N c p" and "protocol_ok N p" and "cluster_ok N k c" and "history_ok N c" and "j \<in> N"
    and "n = snd (handleClientRequest request (node c j))" and "log_fits (log n)"
  shows "tracks N p (update j n Idle {} c)"
proof (cases "log n = log (node c j)")
  case True
  note rep = representsD(1) [OF assms(1,5)]
  have "calm (node c j) n"
    by (rule calm_reactive [OF rep])
      (use True assms(6) reactive_handleClientRequest same_arrays_handleClientRequest
        saved_handleClientRequest [OF node_repD(5) [OF rep]] in simp_all)
  then show ?thesis by (rule represents_calm [OF assms(1,5)]) simp_all
next
  case False
  let ?n = "node c j"
  let ?T = "unat (currentTerm ?n)" and ?l = "body (log ?n)"
  note r = representsD [OF assms(1)] and d = node_repD [OF representsD(1) [OF assms(1,5)]]
  note ok = protocol_okD [OF assms(2)] and bound = fits_bound [OF d(3,4)]
  have plain: "plain (log n)" by (rule client_plain(1) [OF d(3) bound assms(6)])
  obtain e where e: "role ?n = LEADER" "e_term e = currentTerm ?n" "body (log n) = ?l @ [e]"
    using client_plain(2) [OF d(3) bound assms(6)] False by blast
  have n: "currentTerm n = currentTerm ?n" "commitIndex n = commitIndex ?n" "role n = LEADER"
    using e(1) by (simp_all add: assms(6))
  have won: "won N (net c) j (currentTerm ?n)" by (rule node_okD(8) [OF cluster_okD(1) [OF assms(3,5)] e(1)])
  have chain: "chain p ?T = Some ?l" "(j, ?T, length ?l) \<in> acked p"
    using d(10) e(1) unfolding leader_ok_def by blast+
  obtain s where s: "starts p ?T = Some s" using chains_ok_starts [OF ok(1) chain(1)] by blast
  let ?p1 = "extended ?T (?l @ [e]) p"
  let ?p2 = "adopted j (?l @ [e]) ?p1"
  let ?q = "agreed j (Suc (length ?l)) ?p2"
  have s1: "protocol_step N p ?p1"
    unfolding extended_def by (rule protocol_step.extend [OF chain(1)]) (simp add: tm_def e(2))
  have ok1: "protocol_ok N ?p1" by (rule protocol_step_ok [OF s1 assms(2)])
  have on: "on_chain ?p1 ?T (?l @ [e])" by (rule on_chain_end [OF protocol_okD(1) [OF ok1]]) simp
  have s2: "protocol_step N ?p1 ?p2"
    unfolding adopted_def by (rule protocol_step.adopt) (use on d(1,2) in \<open>simp_all add: strict_prefix_def\<close>)
  have s3: "protocol_step N ?p2 ?q" by (rule agreed_step [of _ _ "?l @ [e]"]) (simp_all add: d(1))
  have rec: "recorded p ?q" using chain(1) by (intro recordedI) (auto simp: s)
  have arrays: "same_arrays ?n n" unfolding assms(6) by (rule same_arrays_handleClientRequest)
  have sound: "sound_node n"
    using d(6-8) plain assms(7) saved_handleClientRequest [OF d(5)] arrays indexed_same_arrays [OF arrays d(6)]
    unfolding sound_node_def same_arrays_def by (simp add: assms(6))
  show ?thesis
  proof (rule tracksI)
    from s1 s2 s3 show "(protocol_step N)\<^sup>*\<^sup>* p ?q" by (auto intro: rtranclp.rtrancl_into_rtrancl)
    show "represents N (update j n Idle {} c) ?q"
    proof (rule represents_update [OF assms(1) rec assms(5)])
      have "leader_ok ?q j n"
        using d(1,10) e n arrays unfolding leader_ok_def same_arrays_def by auto
      moreover have "commit_ok N ?q ?T (?l @ [e]) (unat (commitIndex ?n))"
        by (rule commit_ok_prefix [OF commit_ok_later [OF d(11) rec order_refl]]) simp
      ultimately show "node_rep N (net c \<union> {}) ?q j n Idle"
        using d(1) e(3) n sound unfolding node_rep_def candidate_ok_def by simp
      show "chain ?q (unat (currentTerm (node c i))) = chain p (unat (currentTerm (node c i)))"
        if "i \<in> N" "i \<noteq> j" "role (node c i) = LEADER" for i
        using other_leader [OF assms(3,4) won that] by simp
      show "candidate_ok (net c \<union> {}) ?q i (node c i)" if "candidate_ok (net c) p i (node c i)" for i
        using that by (simp add: candidate_ok_same)
      show "chains_rep ?q"
        using r(4) body_consecutive [OF plain] fits_bound [OF plain assms(7)] e(3) unfolding chains_rep_def by simp
    qed (simp_all add: n e(1))
  qed
qed

section \<open>AppendEntries\<close>

lemma plain_eq:
  assumes "plain l" and "plain l'" and "body l = body l'"
  shows "l = l'"
proof (rule raft_log.equality)
  show "Entries l = Entries l'" unfolding plainD(3) [OF assms(1)] plainD(3) [OF assms(2)] assms(3) ..
qed (use assms(1,2) in \<open>simp_all add: plain_def\<close>)

lemma voteless_reply [simp]: "voteless {Append_reply j args reply}"
  by (simp add: voteless_def grants_nothing_def)

text \<open>What was committed survives the log of a leader that is not behind.\<close>

lemma commit_ok_adopt:
  assumes "protocol_ok N p" and "commit_ok N p T mine ci" and "T \<le> t" and "on_chain p t l" and "\<not> prefix l mine"
  shows "commit_ok N p t l ci"
proof (cases "ci = 0")
  case True
  then show ?thesis by (simp add: commit_ok_def)
next
  case False
  with assms(2) obtain u m where u: "ci \<le> length mine" "u \<le> T" "committed N p u m" "ci \<le> m"
    "take ci mine = take ci (entries_to p u m)" unfolding commit_ok_def by blast
  let ?es = "entries_to p u m"
  have own: "own_entry p u m" using u(3) by (simp add: committed_def)
  then have len: "length ?es = m" by (auto simp: own_entry_def entries_to_def)
  have on: "on_chain p u ?es" by (rule entries_to_on_chain [OF protocol_okD(1) [OF assms(1)] own])
  have "prefix ?es l \<or> prefix l ?es"
  proof (cases "u = t")
    case True
    with on_chain_comparable [OF on] assms(4) show ?thesis by blast
  next
    case False
    with u(2) assms(3) have "u < t" by simp
    obtain s where s: "starts p t = Some s" "prefix s l" using assms(4) unfolding on_chain_def by blast
    from leaders_complete [OF assms(1) u(3) s(1) \<open>u < t\<close>] s(2) show ?thesis by (metis prefix_order.order_trans)
  qed
  moreover have "\<not> (prefix l ?es \<and> length l < ci)"
  proof
    assume l: "prefix l ?es \<and> length l < ci"
    then have "l = take (length l) ?es" using prefix_take [of l ?es "length l"] by simp
    also have "\<dots> = take (length l) (take ci ?es)" using l by (simp add: min_absorb1)
    also have "\<dots> = take (length l) mine" using l by (simp add: u(5) [symmetric] min_absorb1)
    finally have "prefix l mine" by (metis take_is_prefix)
    with assms(5) show False by blast
  qed
  ultimately have ci: "ci \<le> length l \<and> take ci l = take ci ?es"
  proof (elim disjE)
    assume "prefix ?es l"
    from prefix_take [OF this, of ci] prefix_length_le [OF this] len u(4) show ?thesis by simp
  next
    assume "prefix l ?es" and "\<not> (prefix l ?es \<and> length l < ci)"
    with prefix_take [of l ?es ci] show ?thesis by simp
  qed
  have "u \<le> t" using u(2) assms(3) by simp
  with u(3,4) ci show ?thesis unfolding commit_ok_def by blast
qed

lemma on_chain_rep:
  assumes "chains_rep p" and "on_chain p t l"
  shows "consecutive 1 l" and "length l < 18446744073709551615"
proof -
  from assms obtain c where c: "consecutive 1 c" "length c < 18446744073709551615" "prefix l c"
    unfolding chains_rep_def on_chain_def by blast
  from c(3) obtain xs where "c = l @ xs" by (rule prefixE)
  with c show "consecutive 1 l" "length l < 18446744073709551615" by (simp_all add: consecutive_append)
qed

lemma logs_match:
  assumes "protocol_ok N p" and "on_chain p t l"
  shows "matching (p_log p j) l"
  unfolding matching_def
proof (intro allI impI)
  fix i
  assume i: "i < length (p_log p j)" "i < length l" "e_term (p_log p j ! i) = e_term (l ! i)"
  then have "p_log p j \<noteq> []" by auto
  then obtain u where "on_chain p u (p_log p j)" using protocol_okD(2) [OF assms(1)] unfolding nodes_ok_def by blast
  from chains_match [OF protocol_okD(1) [OF assms(1)] this assms(2) i(1,2)] i(3)
  show "take (Suc i) (p_log p j) = take (Suc i) l" by (simp add: tm_def)
qed

lemma log_terms_positive:
  assumes "protocol_ok N p" and "e \<in> set (p_log p j)"
  shows "0 < tm e"
proof -
  from assms(2) obtain i where i: "i < length (p_log p j)" "e = p_log p j ! i" by (metis in_set_conv_nth)
  then have "p_log p j \<noteq> []" by auto
  then obtain u where "on_chain p u (p_log p j)" using protocol_okD(2) [OF assms(1)] unfolding nodes_ok_def by blast
  from on_chain_term(1) [OF protocol_okD(1) [OF assms(1)] this i(1)] i(2) show ?thesis by simp
qed

text \<open>A message that changes nothing but the term and the timers.\<close>

lemma tracks_append_refused:
  assumes "represents N c p" and "j \<in> N" and "handleAppendEntries now args (node c j) = (Inr reply, n)"
    and "\<not> aer_success reply" and "log n = log (node c j)" and "commitIndex n = commitIndex (node c j)" and "saved n"
  shows "tracks N p (update j n Idle {Append_reply j args reply} c)"
proof (rule represents_calm [OF assms(1,2)])
  have n: "n = snd (handleAppendEntries now args (node c j))" using assms(3) by simp
  have "reactive (ae_term args) (node c j) n" unfolding n by (rule reactive_handleAppendEntries)
  moreover have "same_arrays (node c j) n" unfolding n by (rule same_arrays_handleAppendEntries)
  ultimately show "calm (node c j) n" by (rule calm_reactive [OF representsD(1) [OF assms(1,2)] _ _ assms(5-7)])
qed (use assms(4) in simp_all)

text \<open>The message matched: the node ends with the log of the leader, or with its own when that is longer.\<close>

lemma append_matched_commit:
  assumes "protocol_ok N p" and "commit_ok N p T mine ci" and "T \<le> t"
    and "on_chain p t l" and "commit_ok N p t l (unat lc)" and "plain new"
    and "body new = (if prefix l mine then mine else l)"
    and "ci' = (if unat lc > ci then unat (min lc (getLastIndex new)) else ci)"
  shows "commit_ok N p t (body new) ci'"
proof (cases "unat lc > ci")
  case True
  have pre: "prefix l (body new)" using assms(7) by simp
  have "unat lc \<le> length l" using assms(5) by (simp add: commit_ok_def)
  also have "\<dots> \<le> unat (getLastIndex new)" using prefix_length_le [OF pre] by (simp add: last_index [OF assms(6)])
  finally have "ci' = unat lc" using assms(8) True by (simp add: word_le_nat_alt)
  with commit_ok_prefix [OF assms(5) pre] show ?thesis by simp
next
  case False
  with assms(8) have "ci' = ci" by simp
  moreover have "commit_ok N p t (body new) ci"
  proof (cases "prefix l mine")
    case True
    with assms(7) commit_ok_later [OF assms(2) recorded_refl assms(3)] show ?thesis by simp
  next
    case False
    with assms(7) commit_ok_adopt [OF assms(1-4) False] show ?thesis by simp
  qed
  ultimately show ?thesis by simp
qed

lemma tracks_append_matched:
  assumes "represents N c p" and "protocol_ok N p" and "j \<in> N"
    and "currentTerm (node c j) \<le> ae_term args" and "handleAppendEntries now args (node c j) = (Inr reply, n)"
    and l: "on_chain p (unat (ae_term args)) l" "describes args l"
      "commit_ok N p (unat (ae_term args)) l (unat (ae_leaderCommit args))"
    and n: "currentTerm n = ae_term args" "role n = FOLLOWER" "plain (log n)" "saved n" "log_fits (log n)"
      "body (log n) = (if prefix l (body (log (node c j))) then body (log (node c j)) else l)"
      "commitIndex n = (if ae_leaderCommit args > commitIndex (node c j)
        then min (ae_leaderCommit args) (getLastIndex (log n)) else commitIndex (node c j))"
  shows "tracks N p (update j n Idle {Append_reply j args reply} c)"
proof -
  let ?n = "node c j" and ?mine = "body (log (node c j))" and ?t = "unat (ae_term args)"
  note r = representsD [OF assms(1)] and d = node_repD [OF representsD(1) [OF assms(1,3)]]
  let ?p1 = "learned j (ae_term args) p"
  let ?p2 = "adopted j (body (log n)) ?p1"
  let ?q = "agreed j (length l) ?p2"
  have pre: "prefix l (body (log n))" using n(6) by simp
  obtain ch where ch: "chain p ?t = Some ch" "prefix l ch" using l(1) unfolding on_chain_def by blast
  have s1: "(protocol_step N)\<^sup>*\<^sup>* p ?p1" by (rule r_into_rtranclp, rule learned_step [OF d(1) assms(4)])
  have s2: "(protocol_step N)\<^sup>*\<^sup>* ?p1 ?p2"
  proof (cases "prefix l ?mine")
    case True
    then have "(p_log p)(j := body (log n)) = p_log p" using n(6) d(2) by (simp add: fun_upd_idem)
    then have "?p2 = ?p1" by (simp add: adopted_def learned_def)
    then show ?thesis by simp
  next
    case False
    have "protocol_step N ?p1 ?p2"
      unfolding adopted_def by (rule protocol_step.adopt) (use False n(6) l(1) d(2) in \<open>simp_all add: strict_prefix_def\<close>)
    then show ?thesis by (rule r_into_rtranclp)
  qed
  have s3: "protocol_step N ?p2 ?q"
    by (rule agreed_step [of _ _ ch]) (use ch pre prefix_length_le [OF ch(2)] in \<open>simp_all add: prefix_take [symmetric]\<close>)
  have rec: "recorded p ?q"
    by (rule recorded_trans [of _ ?p1], simp, rule recorded_trans [of _ ?p2]) simp_all
  have arrays: "same_arrays ?n n" using same_arrays_handleAppendEntries [of ?n now args] assms(5) by simp
  have T: "unat (currentTerm ?n) \<le> ?t" using assms(4) by (simp add: word_le_nat_alt)
  have commit: "commit_ok N p ?t (body (log n)) (unat (commitIndex n))"
    by (rule append_matched_commit [OF assms(2) d(11) T l(1,3) n(3,6)]) (simp add: n(7) word_less_nat_alt)
  show ?thesis
  proof (rule tracksI)
    from s1 s2 s3 show "(protocol_step N)\<^sup>*\<^sup>* p ?q" by (meson rtranclp.rtrancl_into_rtrancl rtranclp_trans)
    show "represents N (update j n Idle {Append_reply j args reply} c) ?q"
    proof (rule represents_update [OF assms(1) rec assms(3)])
      have "sound_node n"
        using d(6-8) n(3-5) arrays indexed_same_arrays [OF arrays d(6)] unfolding sound_node_def same_arrays_def by simp
      moreover have "commit_ok N ?q ?t (body (log n)) (unat (commitIndex n))"
        by (rule commit_ok_later [OF commit rec order_refl])
      ultimately show "node_rep N (net c \<union> {Append_reply j args reply}) ?q j n Idle"
        using n(1,2) unfolding node_rep_def candidate_ok_def leader_ok_def by simp
      show "candidate_ok (net c \<union> {Append_reply j args reply}) ?q i (node c i)" if "candidate_ok (net c) p i (node c i)" for i
        unfolding candidate_ok_same learned_simps
        by (rule candidate_ok_quiet [OF that recorded_refl]) simp
      show "message_rep N ?q m" if "m \<in> {Append_reply j args reply}" for m
      proof -
        have "on_chain ?q ?t l" "(j, ?t, length l) \<in> acked ?q" using l(1) by simp_all
        with l(2) that show ?thesis by auto
      qed
    qed (use r(4) n(1,2) assms(4) in simp_all)
  qed
qed

text \<open>What an \<open>AppendEntries\<close> does to a node.\<close>

lemma append_outcome:
  assumes "represents N c p" and "protocol_ok N p" and "j \<in> N" and "Append_request j args \<in> net c"
    and "handleAppendEntries now args (node c j) = (r, n)"
  obtains (stale) "n = node c j" "\<And>reply. r = Inr reply \<Longrightarrow> \<not> aer_success reply"
  | (refused) reply where "r = Inr reply" "\<not> aer_success reply" "log n = log (node c j)"
      "commitIndex n = commitIndex (node c j)" "saved n"
  | (matched) reply l where "r = Inr reply" "currentTerm (node c j) \<le> ae_term args"
      "on_chain p (unat (ae_term args)) l" "describes args l"
      "commit_ok N p (unat (ae_term args)) l (unat (ae_leaderCommit args))"
      "currentTerm n = ae_term args" "role n = FOLLOWER" "plain (log n)" "saved n"
      "body (log n) = (if prefix l (body (log (node c j))) then body (log (node c j)) else l)"
      "commitIndex n = (if ae_leaderCommit args > commitIndex (node c j)
        then min (ae_leaderCommit args) (getLastIndex (log n)) else commitIndex (node c j))"
proof (cases "ae_term args < currentTerm (node c j)")
  case True
  with append_stale [OF True assms(5)] stale show ?thesis by blast
next
  case False
  then have le: "currentTerm (node c j) \<le> ae_term args" by simp
  note d = node_repD [OF representsD(1) [OF assms(1,3)]]
  have "message_rep N p (Append_request j args)" by (rule representsD(2) [OF assms(1,4)])
  then obtain l where l: "on_chain p (unat (ae_term args)) l" "describes args l \<or> overshoots args l"
    "commit_ok N p (unat (ae_term args)) l (unat (ae_leaderCommit args))" by auto
  note lr = on_chain_rep [OF representsD(4) [OF assms(1)] l(1)]
  have m: "matching (body (log (node c j))) l" using logs_match [OF assms(2) l(1), of j] d(2) by simp
  from l(2) show ?thesis
  proof
    assume desc: "describes args l"
    from append_describes [OF d(5,3) le desc lr m, of now] assms(5) obtain reply where
      h: "r = Inr reply" "currentTerm n = ae_term args" "role n = FOLLOWER" "plain (log n)" "saved n"
      "body (log n) = (if aer_success reply \<and> \<not> prefix l (body (log (node c j))) then l else body (log (node c j)))"
      "commitIndex n = (if aer_success reply \<and> ae_leaderCommit args > commitIndex (node c j)
        then min (ae_leaderCommit args) (getLastIndex (log n)) else commitIndex (node c j))" by auto
    show ?thesis
    proof (cases "aer_success reply")
      case True
      show ?thesis by (rule matched [OF h(1) le l(1) desc l(3) h(2-5)]) (use h(6,7) True in simp_all)
    next
      case False
      with h(6) have "log n = log (node c j)" by (intro plain_eq [OF h(4) d(3)]) simp
      with False h refused show ?thesis by simp
    qed
  next
    assume over: "overshoots args l"
    have "0 < tm e" if "e \<in> set (body (log (node c j)))" for e
      using log_terms_positive [OF assms(2)] that d(2) by metis
    from append_overshoots [OF d(5,3) le over this, of now] assms(5) obtain reply where
      h: "r = Inr reply" "\<not> aer_success reply" "plain (log n)" "saved n" "body (log n) = body (log (node c j))"
      "commitIndex n = commitIndex (node c j)" by auto
    have "log n = log (node c j)" by (rule plain_eq [OF h(3) d(3) h(5)])
    with h refused show ?thesis by simp
  qed
qed

lemma tracks_append:
  assumes "represents N c p" and "protocol_ok N p" and "j \<in> N" and "Append_request j args \<in> net c"
    and "handleAppendEntries now args (node c j) = (r, n)" and "log_fits (log n)"
  shows "tracks N p (update j n Idle (replies r (Append_reply j args)) c)"
proof (cases rule: append_outcome [OF assms(1-5)])
  case 1
  show ?thesis
    unfolding 1(1) by (rule represents_idle [OF assms(1,3)]) (use 1(2) in \<open>auto simp: replies_def split: sum.splits\<close>)
next
  case (2 reply)
  with assms(5) show ?thesis by (simp add: replies_def) (intro tracks_append_refused [OF assms(1,3)], simp_all)
next
  case (3 reply l)
  have "tracks N p (update j n Idle {Append_reply j args reply} c)"
    by (rule tracks_append_matched [OF assms(1-3) 3(2) _ 3(3-9) assms(6) 3(10,11)])
      (use assms(5) 3(1) in simp)
  then show ?thesis by (simp add: replies_def 3(1))
qed

text \<open>The log never ends before the commit index.\<close>

lemma append_keeps_committed:
  assumes "represents N c p" and "protocol_ok N p" and "j \<in> N" and "Append_request j args \<in> net c"
    and "handleAppendEntries now args (node c j) = (r, n)"
  shows "unat (commitIndex (node c j)) \<le> length (body (log n))"
proof -
  note d = node_repD [OF representsD(1) [OF assms(1,3)]]
  have here: "unat (commitIndex (node c j)) \<le> length (body (log (node c j)))" using d(11) by (simp add: commit_ok_def)
  show ?thesis
  proof (cases rule: append_outcome [OF assms])
    case (3 reply l)
    have "unat (currentTerm (node c j)) \<le> unat (ae_term args)" using 3(2) by (simp add: word_le_nat_alt)
    from commit_ok_adopt [OF assms(2) d(11) this 3(3)] here 3(10) show ?thesis
      unfolding commit_ok_def by (metis (no_types))
  qed (use here in simp_all)
qed

section \<open>The replies to a leader\<close>

text \<open>An index that passes the test of the commit rule is an entry of the own term of the leader.\<close>

lemma committable_own:
  assumes "protocol_ok N p" and "plain (log n)" and "leader_ok p j n" and "role n = LEADER"
    and "committable n ci" and "ci \<le> getLastIndex (log n)"
  shows "0 < unat ci" and "own_entry p (unat (currentTerm n)) (unat ci)" and "unat ci \<le> length (body (log n))"
proof -
  let ?T = "unat (currentTerm n)" and ?l = "body (log n)" and ?c = "unat ci"
  from assms(3,4) have lead: "chain p ?T = Some ?l" unfolding leader_ok_def by blast
  obtain s where s: "starts p ?T = Some s" using chains_ok_starts [OF protocol_okD(1) [OF assms(1)] lead] by blast
  note start = chains_okD [OF protocol_okD(1) [OF assms(1)] s]
  from start(4) lead obtain es where es: "?l = s @ es" by auto
  have trm: "getTerm (log n) ci = currentTerm n" using assms(5) by (simp add: committable_def)
  show le: "?c \<le> length ?l" using assms(6) by (simp add: word_le_nat_alt last_index [OF assms(2)])
  show pos: "0 < ?c"
  proof (rule ccontr)
    assume "\<not> 0 < ?c"
    then have "getTerm (log n) ci = 0" by (simp add: term_at [OF assms(2)])
    with trm start(1) show False by simp
  qed
  have "length s < ?c"
  proof (rule ccontr)
    assume "\<not> length s < ?c"
    with pos have "?c - 1 < length s" by linarith
    then have "?l ! (?c - 1) \<in> set s" by (simp add: es nth_append)
    from start(2) [OF this] trm le pos show False by (simp add: term_at [OF assms(2)] tm_def)
  qed
  then show "own_entry p ?T ?c" using s lead le unfolding own_entry_def by blast
qed

text \<open>The leader and the peers that \<open>replicationCount\<close> counts.\<close>

definition counted :: "u64 \<Rightarrow> u64 \<Rightarrow> raft_node \<Rightarrow> u64 set" where
  "counted j ci n = insert j ((\<lambda>k. peerIds n ! k) ` {k. k < length (peerIds n) \<and> k < length (matchIndex n) \<and> ci \<le> matchIndex n ! k})"

lemma counted_majority:
  assumes "finite N" and "j \<in> N" and "distinct (peerIds n)" and "set (peerIds n) = N - {j}" and "committable n ci"
  shows "majority_of N (counted j ci n)"
proof -
  let ?ps = "peerIds n" and ?ms = "matchIndex n"
  let ?K = "{k. k < length ?ps \<and> k < length ?ms \<and> ci \<le> ?ms ! k}"
  have inj: "inj_on (\<lambda>k. ?ps ! k) ?K" using assms(3) by (auto intro!: inj_onI simp: nth_eq_iff_index_eq)
  have sub: "(\<lambda>k. ?ps ! k) ` ?K \<subseteq> N - {j}" using assms(4) by (auto dest!: nth_mem)
  have "{k. k < length (take (length ?ps) ?ms) \<and> ci \<le> take (length ?ps) ?ms ! k} = ?K" by auto
  then have "replicationCount ci n = Suc (card ?K)"
    by (simp add: replicationCount_def length_filter_conv_card)
  also have "\<dots> = card (counted j ci n)"
    unfolding counted_def using card_image [OF inj] sub by (subst card_insert_disjoint) auto
  finally have card: "majority n \<le> card (counted j ci n)" using assms(5) by (simp add: committable_def)
  have "card N = length ?ps + 1"
    using assms(1-4) by (metis Suc_eq_plus1 card_Suc_Diff1 distinct_card)
  with card sub assms(1,2) show ?thesis unfolding majority_of_def majority_def counted_def by auto
qed

lemma counted_acked:
  assumes "protocol_reach N p" and "leader_ok p j n" and "role n = LEADER" and "0 < unat ci"
    and "unat ci \<le> length (body (log n))" and "v \<in> counted j ci n"
  shows "(v, unat (currentTerm n), unat ci) \<in> acked p"
proof -
  let ?T = "unat (currentTerm n)" and ?ps = "peerIds n" and ?ms = "matchIndex n"
  from assms(2,3) have lead: "(j, ?T, length (body (log n))) \<in> acked p"
    "\<And>k. k < length ?ps \<Longrightarrow> k < length ?ms \<Longrightarrow> ?ms ! k = 0 \<or> (?ps ! k, ?T, unat (?ms ! k)) \<in> acked p"
    unfolding leader_ok_def by blast+
  from assms(6) consider "v = j" | k where "k < length ?ps" "k < length ?ms" "ci \<le> ?ms ! k" "v = ?ps ! k"
    unfolding counted_def by blast
  then show ?thesis
  proof cases
    case 1
    with acked_before [OF assms(1) lead(1) assms(5)] show ?thesis by simp
  next
    case (2 k)
    then have k: "unat ci \<le> unat (?ms ! k)" by (simp add: word_le_nat_alt)
    with assms(4) have "?ms ! k \<noteq> 0" by auto
    with lead(2) [OF 2(1,2)] 2(4) have "(v, ?T, unat (?ms ! k)) \<in> acked p" by simp
    from acked_before [OF assms(1) this k] show ?thesis .
  qed
qed

text \<open>So it is committed: a majority acknowledged it.\<close>

lemma committable_commits:
  assumes "protocol_reach N p" and "finite N" and "j \<in> N" and "distinct (peerIds n)" and "set (peerIds n) = N - {j}"
    and "plain (log n)" and "leader_ok p j n" and "role n = LEADER"
    and "committable n ci" and "ci \<le> getLastIndex (log n)"
  shows "commit_ok N p (unat (currentTerm n)) (body (log n)) (unat ci)"
proof -
  let ?T = "unat (currentTerm n)" and ?l = "body (log n)" and ?c = "unat ci"
  note own = committable_own [OF protocol_reach_ok [OF assms(1)] assms(6-10)]
  have "committed N p ?T ?c"
    using own(2) counted_majority [OF assms(2-5,9)] counted_acked [OF assms(1,7,8) own(1,3)]
    unfolding committed_def by blast
  moreover have "take ?c ?l = take ?c (entries_to p ?T ?c)"
    using assms(7,8) by (simp add: entries_to_def leader_ok_def)
  ultimately show ?thesis unfolding commit_ok_def using own(3) by blast
qed

lemma noted_frame [simp]:
  "log (noted i args n) = log n" "role (noted i args n) = role n" "currentTerm (noted i args n) = currentTerm n"
  "commitIndex (noted i args n) = commitIndex n" "peerIds (noted i args n) = peerIds n"
  "persistence (noted i args n) = persistence n" "votedFor (noted i args n) = votedFor n"
  "peerIdToIndexMap (noted i args n) = peerIdToIndexMap n" "length (matchIndex (noted i args n)) = length (matchIndex n)"
  "length (nextIndex (noted i args n)) = length (nextIndex n)"
  by (simp_all add: noted_def)

text \<open>A follower that holds the whole log acknowledged all of it.\<close>

lemma noted_ok:
  assumes "represents N c p" and "j \<in> N" and "peerIdToIndexMap (node c j) q = Some i"
    and "Append_reply q args reply \<in> net c" and "aer_success reply" and "ae_term args = currentTerm (node c j)"
  shows "leader_ok p j (noted i args (node c j))"
    and "length (peerIds (node c j)) \<le> length (nextIndex (noted i args (node c j)))"
    and "k < length (peerIds (node c j)) \<Longrightarrow> 0 < nextIndex (noted i args (node c j)) ! k"
proof -
  let ?n = "node c j" and ?e = "e_index (last (ae_entries args))"
  note r = representsD [OF assms(1)] and d = node_repD [OF representsD(1) [OF assms(1,2)]]
  note at = indexed_nth [OF d(6) assms(3)]
  from r(2) [OF assms(4)] assms(5) obtain l where l: "on_chain p (unat (ae_term args)) l" "describes args l"
    "(q, unat (ae_term args), length l) \<in> acked p" by auto
  note lr = on_chain_rep [OF r(4) l(1)]
  have e: "unat ?e = length l" if "ae_entries args \<noteq> []"
  proof -
    have "drop (unat (ae_prevLogIndex args)) l \<noteq> []" "ae_entries args = drop (unat (ae_prevLogIndex args)) l"
      using l(2) that unfolding describes_def by simp_all
    then have "l \<noteq> []" "last (ae_entries args) = last l" by (auto simp: last_drop)
    then have "last (ae_entries args) = l ! (length l - 1)" "length l - 1 < length l" by (simp_all add: last_conv_nth)
    with lr(1) \<open>l \<noteq> []\<close> show ?thesis unfolding consecutive_def by auto
  qed
  show "leader_ok p j (noted i args ?n)"
    unfolding leader_ok_def
  proof (intro impI conjI allI)
    assume "role (noted i args ?n) = LEADER"
    then have role: "role ?n = LEADER" by simp
    have lead: "chain p (unat (currentTerm ?n)) = Some (body (log ?n))"
      "(j, unat (currentTerm ?n), length (body (log ?n))) \<in> acked p"
      "\<And>k. k < length (peerIds ?n) \<Longrightarrow> k < length (matchIndex ?n) \<Longrightarrow> matchIndex ?n ! k = 0 \<or>
        (peerIds ?n ! k, unat (currentTerm ?n), unat (matchIndex ?n ! k)) \<in> acked p"
      using d(10) role unfolding leader_ok_def by blast+
    show "chain p (unat (currentTerm (noted i args ?n))) = Some (body (log (noted i args ?n)))"
      "(j, unat (currentTerm (noted i args ?n)), length (body (log (noted i args ?n)))) \<in> acked p"
      using lead(1,2) by simp_all
    fix k
    assume k: "k < length (peerIds (noted i args ?n))" "k < length (matchIndex (noted i args ?n))"
    then have k': "k < length (peerIds ?n)" "k < length (matchIndex ?n)" by simp_all
    show "matchIndex (noted i args ?n) ! k = 0 \<or>
        (peerIds (noted i args ?n) ! k, unat (currentTerm (noted i args ?n)), unat (matchIndex (noted i args ?n) ! k)) \<in> acked p"
      using lead(3) [OF k'] k' l(3) e at(2) assms(6) by (cases "k = i") (auto simp: noted_def)
  qed
  show "length (peerIds ?n) \<le> length (nextIndex (noted i args ?n))" using d(7) by simp
  assume k: "k < length (peerIds ?n)"
  have "0 < ?e + 1" if "ae_entries args \<noteq> []"
    using e [OF that] lr(2) unat_u64_plus1 [of ?e] by (simp add: word_less_nat_alt)
  then show "0 < nextIndex (noted i args ?n) ! k"
    using d(8) [OF k] d(7) k by (cases "k = i") (simp_all add: noted_def)
qed

lemma tracks_hear_append:
  assumes "represents N c p" and "protocol_reach N p" and "cluster_ok N k c" and "j \<in> N"
    and "peerIdToIndexMap (node c j) q = Some i" and "ae_term args = currentTerm (node c j)"
    and "append_result (net c) q args reply" and "n = snd (on_append_reply i args reply (node c j))" and "\<not> electing a"
  shows "tracks N p (update j n a {} c)"
proof -
  let ?n = "node c j"
  note r = representsD [OF assms(1)] and d = node_repD [OF representsD(1) [OF assms(1,4)]]
  have act: "a \<noteq> Electing as ps v" for as ps v using assms(9) by (auto simp: electing_def)
  show ?thesis
  proof (cases rule: on_append_reply_cases [of ?n reply i args])
    case 1
    have "calm ?n n"
      unfolding assms(8) 1(2)
      by (intro calm_reactive [OF r(1) [OF assms(4)] reactive_becomeFollower [OF 1(1)]])
        (simp_all add: saved_disk_ok [OF d(5)])
    then show ?thesis by (rule represents_calm [OF assms(1,4)]) (use act in simp_all)
  next
    case 2
    have "0 < max 1 (conflictIndex reply)" by (simp add: less_max_iff_disj)
    then have m: "0 < (nextIndex ?n)[i := max 1 (conflictIndex reply)] ! k" if "k < length (peerIds ?n)" for k
      using d(7) d(8) [OF that] that by (cases "k = i") simp_all
    have "calm ?n n"
      unfolding assms(8) 2(3) calm_def
      using d(5-8) m saved_unchanged [of "?n\<lparr>nextIndex := (nextIndex ?n)[i := max 1 (conflictIndex reply)]\<rparr>" ?n]
      by (simp add: indexed_def)
    then show ?thesis by (rule represents_calm [OF assms(1,4)]) (use act in simp_all)
  next
    case 3
    let ?m = "noted i args ?n"
    from assms(7) 3(2) have "Append_reply q args reply \<in> net c" unfolding append_result_def by blast
    note t = noted_ok [OF assms(1,4,5) this 3(2) assms(6)]
    have n: "n = snd (updateCommitIndex ?m)" unfolding assms(8) by (rule 3(3))
    have s: "same_vote ?m n" "same_indices ?m n"
      unfolding n by (rule updateCommitIndex_same_vote updateCommitIndex_same_indices)+
    have v: "role n = role ?n" "currentTerm n = currentTerm ?n" "votedFor n = votedFor ?n" "persistence n = persistence ?n" "log n = log ?n"
      using s by (simp_all add: same_vote_def same_indices_def)
    have arr: "peerIds n = peerIds ?n" "peerIdToIndexMap n = peerIdToIndexMap ?n" "nextIndex n = nextIndex ?m" "matchIndex n = matchIndex ?m"
      using s(2) by (simp_all add: same_indices_def)
    have sound: "sound_node n"
      using d(3-6) t(2,3) v arr saved_unchanged [OF v(4,2,3,5)] unfolding sound_node_def indexed_def by simp
    have lead: "leader_ok p j n" using t(1) v arr unfolding leader_ok_def by simp
    have commit: "commit_ok N p (unat (currentTerm ?n)) (body (log ?n)) (unat (commitIndex n))"
      using updateCommitIndex_commits [of ?m] unfolding n [symmetric]
    proof
      assume "commitIndex n = commitIndex ?m"
      with d(11) show ?thesis by simp
    next
      assume c: "role ?m = LEADER \<and> committable ?m (commitIndex n) \<and> commitIndex n \<le> getLastIndex (log ?m)"
      have "finite N" using assms(3) by (simp add: cluster_ok_def)
      note ok = node_okD [OF cluster_okD(1) [OF assms(3,4)]]
      have "commit_ok N p (unat (currentTerm ?m)) (body (log ?m)) (unat (commitIndex n))"
        by (rule committable_commits [OF assms(2) \<open>finite N\<close> assms(4)]) (use c t(1) d(3) ok(2,3) in simp_all)
      then show ?thesis by simp
    qed
    show ?thesis
    proof (rule tracksI)
      show "(protocol_step N)\<^sup>*\<^sup>* p p" by simp
      show "represents N (update j n a {} c) p"
      proof (rule represents_update [OF assms(1) recorded_refl assms(4)])
        have "candidate_ok (net c) p j n" using d(9) by (simp only: candidate_ok_def v)
        then show "node_rep N (net c \<union> {}) p j n a"
          using d(1,2) v sound lead commit act unfolding node_rep_def by simp
      qed (use r(4) v in simp_all)
    qed
  qed
qed

end
