(* ===== verification/State_Machine_Safety.thy ===== *)
theory State_Machine_Safety
  imports Steady_Steps
begin

text \<open>
  A steady run of the cluster, step by step, is a run of the abstract protocol. So in every cluster
  that a steady run reaches the logs match, a leader holds what was committed before, and no two
  nodes have a different entry at an index that both committed.
\<close>

section \<open>A steady run is a run of the protocol\<close>

lemma tracks_step:
  assumes "cluster_step N c c'" and rep: "represents N c p" and reach: "protocol_reach N p" and hist: "history_ok N c"
    and ok: "cluster_ok N k c" and ok': "cluster_ok N (Suc k) c'" and "k < 18446744073709551615" and und: "undisturbed N c c'"
  shows "tracks N p c'"
  using assms(1)
proof (cases rule: cluster_step.cases)
  case (vote j args now r n)
  show ?thesis
  proof (cases "\<exists>reply. r = Inr reply \<and> voteGranted reply")
    case True
    then obtain reply where r: "r = Inr reply" "voteGranted reply" by blast
    then have c': "c' = update j n Idle {Vote_reply j args reply} c" using vote(1) by (simp add: replies_def)
    show ?thesis
      unfolding c' by (rule tracks_vote_granted [OF rep ok ok' [unfolded c'] vote(2,4) _ r(2)]) (use vote(5) r(1) in simp)
  next
    case False
    then show ?thesis unfolding vote(1) by (intro tracks_vote_refused [OF rep vote(2,5)]) blast
  qed
next
  case (append j args now r n)
  have "log_fits (log n)" using und append(2) unfolding undisturbed_def append(1) by auto
  then show ?thesis
    unfolding append(1) by (rule tracks_append [OF rep protocol_reach_ok [OF reach] append(2,4,5)])
next
  case (snapshot j args now r n)
  from representsD(2) [OF rep snapshot(4)] show ?thesis by simp
next
  case (client j request)
  have "log_fits (log (snd (handleClientRequest request (node c j))))"
    using und client(2) unfolding undisturbed_def client(1) by auto
  then show ?thesis
    unfolding client(1) by (rule tracks_client [OF rep protocol_reach_ok [OF reach] ok hist client(2) refl])
next
  case (compact j)
  have "uncompacted (log (snd (snapshotTimer_tick (node c j))))"
    using und compact(2) unfolding undisturbed_def compact(1) by auto
  with snapshotTimer_tick_snd [of "node c j"] show ?thesis
    unfolding compact(1) by (intro tracks_snapshot [OF rep compact(2), of _ "lastApplied (node c j)"]) blast+
next
  case (trigger j)
  have "uncompacted (log (snd (triggerSnapshot (node c j))))"
    using und trigger(2) unfolding undisturbed_def trigger(1) by auto
  then show ?thesis
    unfolding trigger(1) by (intro tracks_snapshot [OF rep trigger(2)]) (auto simp: triggerSnapshot_def)
next
  case (election j now now' args n)
  show ?thesis unfolding election(1) by (rule tracks_election [OF rep ok hist assms(7) election(2,7)])
next
  case (ask_vote j args p ps v)
  show ?thesis unfolding ask_vote(1) by (rule tracks_ask [OF rep ok ask_vote(2,3)])
next
  case (hear_vote j args p ps v result r n)
  show ?thesis unfolding hear_vote(1) by (rule tracks_hear_vote [OF rep ok hear_vote(2,3,5)])
next
  case (finish j args v)
  have "role (node c j) = CANDIDATE"
    using node_okD(9) [OF cluster_okD(1) [OF ok finish(2)]] finish(3) unfolding election_ok_def by blast
  show ?thesis
  proof (cases "majority (node c j) \<le> v")
    case True
    then have c': "c' = update j (becomeLeader (node c j)) (Heartbeat (peerIds (node c j))) {} c"
      using finish(1) by (simp add: finish_election_def)
    have "won N (net c) j (currentTerm (node c j))"
      using node_okD(8) [OF cluster_okD(1) [OF ok' finish(2)]] by (simp add: c' becomeLeader_def Let_def)
    then show ?thesis
      unfolding c' by (rule tracks_finish [OF rep protocol_reach_ok [OF reach] ok hist finish(2) \<open>role (node c j) = CANDIDATE\<close> _ refl])
  next
    case False
    then have c': "c' = update j (node c j) Idle {} c" using finish(1) by (simp add: finish_election_def)
    show ?thesis unfolding c' by (rule represents_idle [OF rep finish(2)]) simp_all
  qed
next
  case (heartbeat j)
  show ?thesis unfolding heartbeat(1) by (rule represents_idle [OF rep heartbeat(2)]) simp_all
next
  case (skip_peer j p ps)
  show ?thesis unfolding skip_peer(1) by (rule represents_idle [OF rep skip_peer(2)]) simp_all
next
  case (send_append j p ps i args)
  show ?thesis
    unfolding send_append(1)
    by (rule tracks_send [OF rep protocol_reach_ok [OF reach] ok send_append(2,4,5) und [unfolded send_append(1)]])
next
  case (hear_append j p ps i args reply r n)
  have "n = snd (on_append_reply i args reply (node c j))" using hear_append(7) by simp
  then show ?thesis
    unfolding hear_append(1)
    by (rule tracks_hear_append [OF rep reach ok hear_append(2,4) prepare_replication_term(1) [OF hear_append(5)] hear_append(6)])
      (simp add: after_heartbeat_def electing_def split: sum.split)
next
  case (send_snapshot j p ps i args)
  from prepare_appends(1) [OF rep send_snapshot(2,4)] send_snapshot(5) show ?thesis by simp
next
  case (hear_snapshot j p ps i args reply r n)
  from prepare_appends(1) [OF rep hear_snapshot(2,4)] hear_snapshot(5) show ?thesis by simp
next
  case (end_heartbeat j)
  show ?thesis unfolding end_heartbeat(1) by (rule represents_idle [OF rep end_heartbeat(2)]) simp_all
next
  case (stop j)
  show ?thesis unfolding stop(1) by (rule represents_idle [OF rep stop(2)]) simp_all
next
  case (restart j f kv threshold rng j1 j2 now n)
  have "stored (node c j)" by (rule node_okD(4) [OF cluster_okD(1) [OF ok restart(2)]])
  from calm_restart [OF representsD(1) [OF rep restart(2)] this restart(4-6)] show ?thesis
    unfolding restart(1) by (intro represents_calm [OF rep restart(2)]) simp_all
qed

text \<open>A steady step, and what the protocol recorded before it.\<close>

definition steady_step :: "u64 set \<Rightarrow> cluster \<Rightarrow> cluster \<Rightarrow> bool" where
  "steady_step N c c' \<longleftrightarrow> cluster_step N c c' \<and> undisturbed N c c'"

lemma recorded_steps:
  assumes "(protocol_step N)\<^sup>*\<^sup>* p p'" and "protocol_reach N p"
  shows "recorded p p' \<and> protocol_reach N p'"
  using assms
proof (induction rule: rtranclp_induct)
  case (step q r)
  then have q: "recorded p q" "protocol_reach N q" by blast+
  from recorded_step [OF step(2) protocol_okD(1) [OF protocol_reach_ok [OF q(2)]]] q
  show ?case using recorded_trans protocol_reach_step [OF q(2) step(2)] by blast
qed simp

lemma protocol_follows:
  assumes "steady N k c" and "steady_step N c c'" and "Suc k \<le> 18446744073709551615"
    and "history_ok N c" and "protocol_reach N p" and "represents N c p"
  shows "history_ok N c' \<and> (\<exists>p'. (protocol_step N)\<^sup>*\<^sup>* p p' \<and> protocol_reach N p' \<and> represents N c' p')"
proof -
  have s: "cluster_step N c c'" "undisturbed N c c'" and k: "k < 18446744073709551615"
    using assms(2,3) by (simp_all add: steady_step_def)
  have ok: "cluster_ok N k c" by (rule reach_ok [OF steady_reach [OF assms(1)]]) (use k in simp)
  have ok': "cluster_ok N (Suc k) c'"
    by (rule reach_ok [OF reach.step [OF steady_reach [OF assms(1)] s(1)] assms(3)])
  have "indexed (node c j)" if "j \<in> N" for j by (rule node_repD(6) [OF representsD(1) [OF assms(6) that]])
  from history_step [OF s(1) assms(4) ok ok' k s(2) this] have "history_ok N c'" .
  moreover obtain p' where p': "(protocol_step N)\<^sup>*\<^sup>* p p'" "represents N c' p'"
    using tracks_step [OF s(1) assms(6,5,4) ok ok' k s(2)] unfolding tracks_def by blast
  ultimately show ?thesis using recorded_steps [OF p'(1) assms(5)] by blast
qed

lemma steady_protocol:
  "steady N k c \<Longrightarrow> k \<le> 18446744073709551615 \<Longrightarrow> history_ok N c \<and> (\<exists>p. protocol_reach N p \<and> represents N c p)"
proof (induction rule: steady.induct)
  case (start c)
  have "protocol_reach N blank_protocol" by (simp add: protocol_reach_def)
  with history_start [OF start(1)] represents_start [OF start(1)] show ?case by blast
next
  case (step k c c')
  then obtain p where p: "history_ok N c" "protocol_reach N p" "represents N c p" by auto
  have "steady_step N c c'" using step.hyps(2,3) by (simp add: steady_step_def)
  from protocol_follows [OF step.hyps(1) this step.prems p] show ?case by blast
qed

lemma steady_later:
  "(steady_step N ^^ m) c c' \<Longrightarrow> steady N k c \<Longrightarrow> steady N (k + m) c'"
proof (induction m arbitrary: c')
  case (Suc m)
  then obtain d where "(steady_step N ^^ m) c d" "steady_step N d c'" by auto
  with Suc show ?case by (auto simp: steady_step_def intro: steady.step)
qed simp

text \<open>Simulations: what one step keeps, any number of steps keeps.\<close>

locale simulation =
  fixes cstep :: "'c \<Rightarrow> 'c \<Rightarrow> bool" and astep :: "'a \<Rightarrow> 'a \<Rightarrow> bool" and rel :: "'c \<Rightarrow> 'a \<Rightarrow> bool"
  assumes simulate: "rel c a \<Longrightarrow> cstep c c' \<Longrightarrow> \<exists>a'. astep\<^sup>*\<^sup>* a a' \<and> rel c' a'"
begin

lemma simulate_steps: "(cstep ^^ m) c c' \<Longrightarrow> rel c a \<Longrightarrow> \<exists>a'. astep\<^sup>*\<^sup>* a a' \<and> rel c' a'"
proof (induction m arbitrary: c')
  case (Suc m)
  then obtain d where d: "(cstep ^^ m) c d" "cstep d c'" by auto
  from Suc.IH [OF d(1) Suc.prems(2)] obtain b where b: "astep\<^sup>*\<^sup>* a b" "rel d b" by blast
  from simulate [OF b(2) d(2)] b(1) show ?case by (metis rtranclp_trans)
qed auto

end

text \<open>The cluster with the number of its steps is simulated by the protocol.\<close>

definition counted_step :: "u64 set \<Rightarrow> nat \<times> cluster \<Rightarrow> nat \<times> cluster \<Rightarrow> bool" where
  "counted_step N s s' \<longleftrightarrow> fst s' = Suc (fst s) \<and> fst s' \<le> 18446744073709551615 \<and> steady_step N (snd s) (snd s')"

definition stands_for :: "u64 set \<Rightarrow> nat \<times> cluster \<Rightarrow> protocol \<Rightarrow> bool" where
  "stands_for N s p \<longleftrightarrow> steady N (fst s) (snd s) \<and> history_ok N (snd s) \<and> protocol_reach N p \<and> represents N (snd s) p"

interpretation abstraction: simulation "counted_step N" "protocol_step N" "stands_for N" for N
proof
  fix s s' p
  assume rel: "stands_for N s p" and step: "counted_step N s s'"
  then have st: "steady_step N (snd s) (snd s')" and k: "fst s' = Suc (fst s)" "Suc (fst s) \<le> 18446744073709551615"
    by (simp_all add: counted_step_def)
  from rel have r: "steady N (fst s) (snd s)" "history_ok N (snd s)" "protocol_reach N p" "represents N (snd s) p"
    by (simp_all add: stands_for_def)
  have "steady N (fst s') (snd s')" using steady.step [OF r(1)] st k(1) by (simp add: steady_step_def)
  with protocol_follows [OF r(1) st k(2) r(2-4)] show "\<exists>p'. (protocol_step N)\<^sup>*\<^sup>* p p' \<and> stands_for N s' p'"
    unfolding stands_for_def by blast
qed

lemma counted_steps:
  "(steady_step N ^^ m) c c' \<Longrightarrow> k + m \<le> 18446744073709551615 \<Longrightarrow> (counted_step N ^^ m) (k, c) (k + m, c')"
proof (induction m arbitrary: c')
  case (Suc m)
  then obtain d where d: "(steady_step N ^^ m) c d" "steady_step N d c'" by auto
  have "(counted_step N ^^ m) (k, c) (k + m, d)" by (rule Suc.IH [OF d(1)]) (use Suc.prems(2) in simp)
  moreover have "counted_step N (k + m, d) (k + Suc m, c')" using d(2) Suc.prems(2) by (simp add: counted_step_def)
  ultimately show ?case by auto
qed simp

lemma steady_pair:
  assumes "(steady_step N ^^ m) c c'" and "steady N k c" and "k + m \<le> 18446744073709551615"
  shows "\<exists>p p'. history_ok N c' \<and> protocol_reach N p \<and> represents N c p \<and>
    protocol_reach N p' \<and> represents N c' p' \<and> recorded p p'"
proof -
  obtain p where p: "history_ok N c" "protocol_reach N p" "represents N c p"
    using steady_protocol [OF assms(2)] assms(3) by auto
  then have "stands_for N (k, c) p" using assms(2) by (simp add: stands_for_def)
  from abstraction.simulate_steps [OF counted_steps [OF assms(1,3)] this] obtain p' where
    p': "(protocol_step N)\<^sup>*\<^sup>* p p'" "stands_for N (k + m, c') p'" by blast
  with p recorded_steps [OF p'(1) p(2)] show ?thesis unfolding stands_for_def by auto
qed

section \<open>The logs of a steady run\<close>

lemma steady_rep:
  assumes "steady N k c" and "(steady_step N ^^ m) c c'" and "k + m \<le> 18446744073709551615"
  shows "\<exists>p p'. protocol_ok N p' \<and> recorded p p' \<and> (\<forall>i \<in> N. node_rep N (net c) p i (node c i) (doing c i)) \<and>
    (\<forall>i \<in> N. node_rep N (net c') p' i (node c' i) (doing c' i))"
  using steady_pair [OF assms(2,1,3)] representsD(1) protocol_reach_ok by meson

text \<open>Two logs with the same first entries answer the same up to there.\<close>

lemma getEntry_prefix:
  assumes "plain l" and "plain l'" and "unat x \<le> m" and "m \<le> length (body l)" and "m \<le> length (body l')"
    and "take m (body l) = take m (body l')"
  shows "getEntry l x = getEntry l' x"
proof (cases "x = 0")
  case True
  then show ?thesis using assms(1,2) by (simp add: getEntry_def plain_def)
next
  case False
  then have x: "0 < unat x" by (simp add: unat_gt_0)
  then have "getEntry l x = Inr (body l ! (unat x - 1))" "getEntry l' x = Inr (body l' ! (unat x - 1))"
    using assms(3-5) by (simp_all add: entry_at [OF assms(1)] entry_at [OF assms(2)])
  moreover have "take m (body l) ! (unat x - 1) = take m (body l') ! (unat x - 1)" by (simp only: assms(6))
  ultimately show ?thesis using x assms(3) by simp
qed

lemma body_on_chain:
  assumes "protocol_ok N p" and "node_rep N M p i n a" and "body (log n) \<noteq> []"
  shows "\<exists>t. on_chain p t (body (log n))"
  using protocol_okD(2) [OF assms(1)] node_repD(2) [OF assms(2)] assms(3) unfolding nodes_ok_def by metis

lemma matching_logs:
  assumes "steady N k c" and "k \<le> 18446744073709551615" and "i \<in> N" and "j \<in> N"
    and "getEntry (log (node c i)) x = Inr e" and "getEntry (log (node c j)) x = Inr e'" and "e_term e = e_term e'"
    and "y \<le> x"
  shows "getEntry (log (node c i)) y = getEntry (log (node c j)) y"
proof -
  obtain p where rep: "protocol_ok N p" "\<forall>i \<in> N. node_rep N (net c) p i (node c i) (doing c i)"
    using steady_protocol [OF assms(1,2)] representsD(1) protocol_reach_ok by meson
  note p = rep(1) bspec [OF rep(2)]
  let ?l = "body (log (node c i))" and ?m = "body (log (node c j))" and ?x = "unat x - 1"
  note di = node_repD [OF p(2) [OF assms(3)]] and dj = node_repD [OF p(2) [OF assms(4)]]
  have x: "0 < unat x" "unat x \<le> length ?l" "unat x \<le> length ?m" "tm (?l ! ?x) = tm (?m ! ?x)"
    using assms(5-7) entry_at [OF di(3)] entry_at [OF dj(3)] by (auto simp: tm_def)
  then obtain t u where "on_chain p t ?l" "on_chain p u ?m"
    using body_on_chain [OF p(1) p(2) [OF assms(3)]] body_on_chain [OF p(1) p(2) [OF assms(4)]] by fastforce
  from chains_match [OF protocol_okD(1) [OF p(1)] this _ _ x(4)] x(1-3) have "take (unat x) ?l = take (unat x) ?m" by simp
  then show ?thesis
    by (rule getEntry_prefix [OF di(3) dj(3) _ x(2,3), rotated]) (use assms(8) in \<open>simp add: word_le_nat_alt\<close>)
qed

text \<open>What a node committed: the first entries of a committed prefix.\<close>

lemma committed_entries:
  assumes "node_rep N M p i n a" and "0 < x" and "x \<le> commitIndex n"
  obtains t m where "t \<le> unat (currentTerm n)" "committed N p t m" "unat x \<le> m" "unat x \<le> length (body (log n))"
    "take (unat x) (body (log n)) = take (unat x) (entries_to p t m)"
proof -
  note d = node_repD [OF assms(1)]
  have x: "unat x \<le> unat (commitIndex n)" "0 < unat x" using assms(2,3) by (simp_all add: word_le_nat_alt word_gt_0 unat_gt_0)
  with d(11) obtain t m where t: "unat (commitIndex n) \<le> length (body (log n))" "t \<le> unat (currentTerm n)" "committed N p t m"
    "unat (commitIndex n) \<le> m" "take (unat (commitIndex n)) (body (log n)) = take (unat (commitIndex n)) (entries_to p t m)"
    unfolding commit_ok_def by auto
  have "take (unat x) (body (log n)) = take (unat x) (take (unat (commitIndex n)) (body (log n)))"
    using x(1) by (simp add: min_absorb1)
  also have "\<dots> = take (unat x) (entries_to p t m)" unfolding t(5) using x(1) by (simp add: min_absorb1)
  finally show ?thesis using that [OF t(2,3)] t(1,4) x(1) by simp
qed

lemma getEntry_both:
  assumes "plain l" and "plain l'" and "0 < x" and "unat x \<le> length (body l)" and "unat x \<le> length (body l')"
    and "take (unat x) (body l) = take (unat x) (body l')"
  shows "\<exists>e. getEntry l x = Inr e \<and> getEntry l' x = Inr e"
proof -
  have "getEntry l x = getEntry l' x" by (rule getEntry_prefix [OF assms(1,2) order_refl assms(4-6)])
  moreover have "0 < unat x" using assms(3) by (simp add: word_gt_0 unat_gt_0)
  then have "getEntry l x = Inr (body l ! (unat x - 1))" using assms(4) by (simp add: entry_at [OF assms(1)])
  ultimately show ?thesis by metis
qed

lemma committed_length: "committed N p t m \<Longrightarrow> length (entries_to p t m) = m"
  by (auto simp: committed_def own_entry_def entries_to_def)

lemma agreement:
  assumes "steady N k c" and "(steady_step N ^^ m) c c'" and "k + m \<le> 18446744073709551615" and "i \<in> N" and "j \<in> N"
    and "0 < x" and "x \<le> commitIndex (node c i)" and "x \<le> commitIndex (node c' j)"
  shows "unat x \<le> length (body (log (node c i)))" and "unat x \<le> length (body (log (node c' j)))"
    and "take (unat x) (body (log (node c i))) = take (unat x) (body (log (node c' j)))"
    and "\<exists>e. getEntry (log (node c i)) x = Inr e \<and> getEntry (log (node c' j)) x = Inr e"
proof -
  obtain p p' where rep: "protocol_ok N p'" "recorded p p'" "\<forall>i \<in> N. node_rep N (net c) p i (node c i) (doing c i)"
    "\<forall>i \<in> N. node_rep N (net c') p' i (node c' i) (doing c' i)" using steady_rep [OF assms(1-3)] by blast
  note p = bspec [OF rep(3)] and p' = bspec [OF rep(4)]
  obtain t a where t: "committed N p t a" "unat x \<le> a" "unat x \<le> length (body (log (node c i)))"
    "take (unat x) (body (log (node c i))) = take (unat x) (entries_to p t a)"
    by (rule committed_entries [OF p [OF assms(4)] assms(6,7)])
  obtain u b where u: "committed N p' u b" "unat x \<le> b" "unat x \<le> length (body (log (node c' j)))"
    "take (unat x) (body (log (node c' j))) = take (unat x) (entries_to p' u b)"
    by (rule committed_entries [OF p' [OF assms(5)] assms(6,8)])
  have t': "committed N p' t a" "entries_to p' t a = entries_to p t a"
    using recorded_committed [OF rep(2) t(1)] recorded_own(2) [OF rep(2)] t(1) by (simp_all add: committed_def)
  have "take (unat x) (entries_to p' t a) = take (unat x) (entries_to p' u b)"
    using committed_agree [OF rep(1) t'(1) u(1)] prefix_take [of "entries_to p' t a" "entries_to p' u b" "unat x"]
      prefix_take [of "entries_to p' u b" "entries_to p' t a" "unat x"] committed_length [OF t'(1)] committed_length [OF u(1)]
      t(2) u(2) by auto
  with t(4) u(4) t'(2) show same: "take (unat x) (body (log (node c i))) = take (unat x) (body (log (node c' j)))" by simp
  show "unat x \<le> length (body (log (node c i)))" "unat x \<le> length (body (log (node c' j)))" by (rule t(3) u(3))+
  then show "\<exists>e. getEntry (log (node c i)) x = Inr e \<and> getEntry (log (node c' j)) x = Inr e"
    by (rule getEntry_both [OF node_repD(3) [OF p [OF assms(4)]] node_repD(3) [OF p' [OF assms(5)]] assms(6) _ _ same])
qed

lemma leader_holds:
  assumes "steady N k c" and "(steady_step N ^^ m) c c'" and "k + m \<le> 18446744073709551615" and "i \<in> N" and "j \<in> N"
    and "role (node c' j) = LEADER" and "currentTerm (node c i) \<le> currentTerm (node c' j)"
    and "0 < x" and "x \<le> commitIndex (node c i)"
  shows "\<exists>e. getEntry (log (node c i)) x = Inr e \<and> getEntry (log (node c' j)) x = Inr e"
proof -
  obtain p p' where rep: "protocol_ok N p'" "recorded p p'" "\<forall>i \<in> N. node_rep N (net c) p i (node c i) (doing c i)"
    "\<forall>i \<in> N. node_rep N (net c') p' i (node c' i) (doing c' i)" using steady_rep [OF assms(1-3)] by blast
  note di = node_repD [OF bspec [OF rep(3) assms(4)]] and dj = node_repD [OF bspec [OF rep(4) assms(5)]]
  obtain t a where t: "t \<le> unat (currentTerm (node c i))" "committed N p t a" "unat x \<le> a" "unat x \<le> length (body (log (node c i)))"
    "take (unat x) (body (log (node c i))) = take (unat x) (entries_to p t a)"
    by (rule committed_entries [OF bspec [OF rep(3) assms(4)] assms(8,9)])
  have t': "committed N p' t a" "entries_to p' t a = entries_to p t a"
    using recorded_committed [OF rep(2) t(2)] recorded_own(2) [OF rep(2)] t(2) by (simp_all add: committed_def)
  let ?T = "unat (currentTerm (node c' j))" and ?l = "body (log (node c' j))"
  have chain: "chain p' ?T = Some ?l" using dj(10) assms(6) unfolding leader_ok_def by blast
  note ok = protocol_okD(1) [OF rep(1)]
  obtain s where s: "starts p' ?T = Some s" using chains_ok_starts [OF ok chain] by blast
  have "prefix (entries_to p' t a) ?l"
  proof (cases "t = ?T")
    case True
    then show ?thesis by (simp add: entries_to_def chain take_is_prefix)
  next
    case False
    with t(1) assms(7) have "t < ?T" by (simp add: word_le_nat_alt)
    from leaders_complete [OF rep(1) t'(1) s this] have "prefix (entries_to p' t a) s" .
    moreover have "prefix s ?l" using chains_okD(4) [OF ok s] chain by auto
    ultimately show ?thesis by (rule prefix_order.order_trans)
  qed
  from prefix_take [OF this, of "unat x"] prefix_length_le [OF this] t(3-5) t'(2) committed_length [OF t'(1)]
  show ?thesis by (intro getEntry_both [OF di(3) dj(3) assms(8)]) simp_all
qed

end
