(* ===== verification/Replica_History.thy ===== *)
theory Replica_History
  imports State_Machine_Safety Replicated_Service
begin

text \<open>
  What the replicas of a steady run hold: each has executed the entries it committed, from the
  store it was given at its start, so all of them are prefixes of one history.
\<close>

section \<open>Replaying a log\<close>

definition replay :: "service \<Rightarrow> raft_log \<Rightarrow> u64 \<Rightarrow> service" where
  "replay s l c = fold exec_once (decode_commands (take (unat c) (body l))) s"

lemma plain_map:
  assumes "plain l" and "0 < k" and "k \<le> length (body l)"
  shows "log_map l k = Some (body l ! (k - 1))"
proof -
  have "Entries l ! k = body l ! (k - 1)" unfolding plainD(3) [OF assms(1)] using assms(2) by (cases k) simp_all
  then show ?thesis using assms plainD(4) [OF assms(1)] by (simp add: log_map_def plain_def)
qed

lemma plain_entries_between:
  assumes "plain l" and "a \<le> b" and "b \<le> length (body l)"
  shows "entries_between l a b = drop a (take b (body l))"
proof (rule nth_equalityI)
  show "length (entries_between l a b) = length (drop a (take b (body l)))"
    using assms(2,3) by (simp add: entries_between_def del: upt_Suc)
  fix i
  assume "i < length (entries_between l a b)"
  then have i: "i < b - a" by (simp add: entries_between_def del: upt_Suc)
  then have "log_map l (Suc (a + i)) = Some (body l ! (a + i))" using plain_map [OF assms(1), of "Suc (a + i)"] assms(3) by simp
  with i assms(2,3) show "entries_between l a b ! i = drop a (take b (body l)) ! i"
    by (simp add: entries_between_def nth_append del: upt_Suc)
qed

lemma replay_on:
  assumes "plain l" and "a \<le> b" and "unat b \<le> length (body l)"
  shows "fold exec_once (decode_commands (entries_between l (unat a) (unat b))) (replay s l a) = replay s l b"
proof -
  have ab: "unat a \<le> unat b" using assms(2) by (simp add: word_le_nat_alt)
  have "take (unat b) (body l) = take (unat a) (body l) @ drop (unat a) (take (unat b) (body l))"
    using append_take_drop_id [of "unat a" "take (unat b) (body l)"] ab by (simp add: min_absorb1)
  then show ?thesis
    unfolding replay_def plain_entries_between [OF assms(1) ab assms(3)] by (metis decode_commands_append fold_append o_apply)
qed

section \<open>Every node has executed what it committed\<close>

definition served :: "service \<Rightarrow> raft_node \<Rightarrow> bool" where
  "served s n \<longleftrightarrow> kv_wf (kvStore n) \<and> lastApplied n = commitIndex n \<and> service_of n = replay s (log n) (commitIndex n)"

lemma served_same:
  assumes "served s n" and "same_service n n'" and "take (unat (commitIndex n)) (body (log n')) = take (unat (commitIndex n)) (body (log n))"
  shows "served s n'"
  using assms by (simp add: served_def same_service_def service_of_def replay_def)

text \<open>Executing up to index \<open>c\<close> of a log that has the same committed entries.\<close>

lemma served_apply:
  assumes "served s n" and "same_service n m" and "plain (log m)"
    and "take (unat (commitIndex n)) (body (log m)) = take (unat (commitIndex n)) (body (log n))"
    and "commitIndex n \<le> c" and "unat c \<le> length (body (log m))"
    and "applyCommittedEntries (m\<lparr>commitIndex := c\<rparr>) = (Inr u, n')"
  shows "served s n'"
proof -
  have m: "kv_wf (kvStore m)" "lastApplied m = commitIndex m" "commitIndex m = commitIndex n"
    "service_of m = replay s (log m) (commitIndex n)"
    using assms(1,2,4) by (simp_all add: served_def same_service_def service_of_def replay_def)
  have "applicable m c"
    using m(1-3) assms(3,5,6) plainD(1) [OF assms(3)] last_index [OF assms(3)]
    by (simp add: applicable_def plain_def word_le_nat_alt)
  from apply_to [OF this] assms(7) have n': "commitIndex n' = c" "lastApplied n' = c" "service_of n' = service_at m c"
    "log n' = log m" "kv_wf (kvStore n')" by auto
  have "service_at m c = replay s (log m) c"
    unfolding service_at_def m(4) using replay_on [OF assms(3,5,6)] m(2,3) by simp
  with n' show ?thesis by (simp add: served_def)
qed

text \<open>Handlers that execute nothing.\<close>

lemma same_service_refl [simp]: "same_service n n"
  by (simp add: same_service_def)

lemma served_quiet: "served s n \<Longrightarrow> same_service n n' \<Longrightarrow> log n' = log n \<Longrightarrow> served s n'"
  by (rule served_same) simp_all

lemma same_service_persistState [simp]: "same_service n (snd (persistState m)) = same_service n m"
  by (simp add: same_service_def)

lemma same_service_begin_election: "same_service n (snd (begin_election now n))"
  by (simp add: begin_election_def becomeCandidate_def Let_def snd_andThen split: sum.split) (simp add: same_service_def)

lemma same_service_finish_election: "same_service n (finish_election v n)"
  by (simp add: same_service_def finish_election_def becomeLeader_def Let_def)

lemma restoreState_applied:
  "lastApplied n = commitIndex n \<Longrightarrow> lastApplied (snd (restoreState n)) = commitIndex (snd (restoreState n))"
  by (simp add: restoreState_def Let_def split: option.split prod.split sum.split)

lemma restart_applied:
  assumes "RaftNode nid peers kv threshold dir disk rng j1 j2 now = (Inr (), n)"
  shows "lastApplied n = commitIndex n"
proof -
  have i: "lastApplied (initial_node nid peers kv threshold rng j1 j2 now) = commitIndex (initial_node nid peers kv threshold rng j1 j2 now)"
    by (simp add: initial_node_def)
  have "lastApplied (snd (RaftNode nid peers kv threshold dir disk rng j1 j2 now)) =
      commitIndex (snd (RaftNode nid peers kv threshold dir disk rng j1 j2 now))"
    using restoreState_applied [of "(initial_node nid peers kv threshold rng j1 j2 now)\<lparr>persistence := Some (new_persistence dir disk)\<rparr>"]
    by (auto simp: RaftNode_def Let_def snd_andThen i split: sum.split intro!: restoreState_applied)
  with assms show ?thesis by simp
qed

text \<open>A leader executes what it just committed.\<close>

lemma served_updateCommitIndex:
  assumes "served s n" and "plain (log n)" and "log_fits (log n)" and "unat (commitIndex n) \<le> length (body (log n))"
  shows "served s (snd (updateCommitIndex n))"
proof (cases "role n = LEADER")
  case False
  with assms(1) show ?thesis by (simp add: updateCommitIndex_def)
next
  case True
  let ?last = "getLastIndex (log n)"
  have ser: "kv_wf (kvStore n)" "lastApplied n = commitIndex n" "service_of n = replay s (log n) (commitIndex n)"
    using assms(1) by (simp_all add: served_def)
  have app: "applicable n ?last"
    using ser assms(2,4) plainD(1) [OF assms(2)] last_index [OF assms(2)]
    by (simp add: applicable_def plain_def word_le_nat_alt)
  have max: "unat ?last < 18446744073709551615" using fits_bound [OF assms(2,3)] last_index [OF assms(2)] by simp
  have "commitIndex n \<le> ?last" using app by (simp add: applicable_def)
  from less_max_plus1 [OF this max] have lt: "commitIndex n < commitIndex n + 1" by (simp add: word_less_nat_alt)
  obtain n' where loop: "commit_loop (commitIndex n + 1) ?last n = Some (Inr (), n')" "commit_result (commitIndex n + 1) n n'"
    using commit_loop_result [OF app max lt] by blast
  have n': "snd (updateCommitIndex n) = n'" using loop(1) True by (simp add: updateCommitIndex_def)
  have wf: "kv_wf (kvStore n')" using kv_wf_updateCommitIndex [OF ser(1)] n' by simp
  from loop(2) consider "n' = n" | "commitIndex n + 1 \<le> commitIndex n'" "commitIndex n' \<le> ?last" "lastApplied n' = commitIndex n'"
    "service_of n' = service_at n (commitIndex n')" "log n' = log n" unfolding commit_result_def by blast
  then show ?thesis
  proof cases
    case 1
    with assms(1) n' show ?thesis by simp
  next
    case 2
    have "commitIndex n \<le> commitIndex n'" using less_imp_le [OF lt] 2(1) by (rule order_trans)
    moreover have "unat (commitIndex n') \<le> length (body (log n))" using 2(2) last_index [OF assms(2)] by (simp add: word_le_nat_alt)
    ultimately have "service_of n' = replay s (log n) (commitIndex n')"
      unfolding 2(4) service_at_def ser(2,3) by (rule replay_on [OF assms(2)])
    with 2(3,5) wf show ?thesis by (simp add: served_def n')
  qed
qed

lemma served_on_append_reply:
  assumes "served s n" and "plain (log n)" and "log_fits (log n)" and "unat (commitIndex n) \<le> length (body (log n))"
  shows "served s (snd (on_append_reply i args reply n))"
proof (cases rule: on_append_reply_cases [of n reply i args])
  case 1
  show ?thesis unfolding 1(2) by (rule served_quiet [OF assms(1)]) (simp_all add: same_service_def)
next
  case 2
  show ?thesis unfolding 2(3) by (rule served_quiet [OF assms(1)]) (simp_all add: same_service_def)
next
  case 3
  have "same_service n (noted i args n)" by (simp add: same_service_def) (simp add: noted_def)
  from served_quiet [OF assms(1) this] have "served s (noted i args n)" by simp
  from served_updateCommitIndex [OF this] assms(2-4) show ?thesis unfolding 3(3) by simp
qed

text \<open>The log of an \<open>AppendEntries\<close> is executed up to its commit index, on top of what was executed.\<close>

lemma served_append:
  assumes "served s n" and "handleAppendEntries now args n = (r, n')" and "\<And>e. r \<noteq> Inl e"
    and "plain (log n')" and "unat (commitIndex n) \<le> length (body (log n'))"
    and kept: "commitIndex n \<le> commitIndex n' \<Longrightarrow>
      take (unat (commitIndex n)) (body (log n')) = take (unat (commitIndex n)) (body (log n))"
  shows "served s n'"
proof -
  obtain reply where r: "r = Inr reply" using assms(3) by (cases r) auto
  from handleAppendEntries_executes [OF assms(2) [unfolded r]] consider "same_service n n'"
    | n1 where "same_service n n1" "log n1 = log n'" "commitIndex n < ae_leaderCommit args"
      "applyCommittedEntries (n1\<lparr>commitIndex := min (ae_leaderCommit args) (getLastIndex (log n'))\<rparr>) = (Inr (), n')"
    unfolding executes_def by blast
  then show ?thesis
  proof cases
    case 1
    with kept show ?thesis by (intro served_same [OF assms(1) 1]) (simp add: same_service_def)
  next
    case (2 n1)
    let ?c = "min (ae_leaderCommit args) (getLastIndex (log n'))"
    have le: "commitIndex n \<le> ?c" "unat ?c \<le> length (body (log n'))"
      using 2(3) assms(5) last_index [OF assms(4)] by (auto simp: word_le_nat_alt word_less_nat_alt min_def)
    have "commitIndex n' = ?c" using applyCommittedEntries_frame(2) [of "n1\<lparr>commitIndex := ?c\<rparr>"] 2(4) by simp
    with le kept have "take (unat (commitIndex n)) (body (log n')) = take (unat (commitIndex n)) (body (log n))" by simp
    then show ?thesis
      using served_apply [OF assms(1) 2(1) _ _ le(1) _ 2(4)] assms(4) le(2) unfolding 2(2) by blast
  qed
qed

section \<open>The history of a steady run\<close>

text \<open>A node that has executed nothing holds the store \<open>s\<close> that it was constructed with.\<close>

definition begins :: "u64 set \<Rightarrow> service \<Rightarrow> cluster \<Rightarrow> bool" where
  "begins N s c \<longleftrightarrow> (\<forall>i \<in> N. lastApplied (node c i) = 0 \<longrightarrow> kv_wf (kvStore (node c i)) \<and> service_of (node c i) = s)"

lemma begins_served: "begins N s c \<Longrightarrow> i \<in> N \<Longrightarrow> lastApplied (node c i) = 0 \<Longrightarrow> commitIndex (node c i) = 0 \<Longrightarrow> served s (node c i)"
  by (auto simp: begins_def served_def replay_def decode_commands_def)

lemma served_step:
  assumes steady: "steady N k c" and run: "steady_step N c c'" and bound: "Suc k \<le> 18446744073709551615"
    and ser: "\<And>i. i \<in> N \<Longrightarrow> served s (node c i)" and beg: "begins N s c'" and "i \<in> N"
  shows "served s (node c' i)"
proof -
  have st: "cluster_step N c c'" and und: "undisturbed N c c'" using run by (simp_all add: steady_step_def)
  have run1: "(steady_step N ^^ 1) c c'" "k + 1 \<le> 18446744073709551615" using run bound by (simp_all add: eq_OO)
  have kept: "take (unat (commitIndex (node c j))) (body (log (node c' j))) = take (unat (commitIndex (node c j))) (body (log (node c j)))"
    if "j \<in> N" "commitIndex (node c j) \<le> commitIndex (node c' j)" for j
  proof (cases "0 < commitIndex (node c j)")
    case True
    from agreement(3) [OF steady run1 that(1,1) True order_refl that(2)] show ?thesis by (rule sym)
  next
    case False
    then have "commitIndex (node c j) = 0" by (simp add: word_gt_0)
    then show ?thesis by simp
  qed
  obtain p where p: "protocol_reach N p" "represents N c p"
    using steady_protocol [OF steady] bound by auto
  note rep = node_repD [OF representsD(1) [OF p(2)]]
  have ci: "unat (commitIndex (node c j)) \<le> length (body (log (node c j)))" if "j \<in> N" for j
    using rep(11) [OF that] by (simp add: commit_ok_def)
  have "\<exists>j n a M. c' = update j n a M c \<and> (j \<in> N \<longrightarrow> served s n)"
    using st
  proof (cases rule: cluster_step.cases)
    case (vote j args now r n)
    have n: "n = snd (handleRequestVote now args (node c j))" using vote(5) by simp
    have "served s n"
      unfolding n
      by (rule served_quiet [OF ser [OF vote(2)]]) (simp_all add: same_service_def handleRequestVote_frame)
    with vote(1) show ?thesis by blast
  next
    case (append j args now r n)
    have c': "node c' j = n" by (simp add: append(1))
    have len: "unat (commitIndex (node c j)) \<le> length (body (log n))"
      by (rule append_keeps_committed [OF p(2) protocol_reach_ok [OF p(1)] append(2,4,5)])
    have "served s n"
    proof (cases rule: append_outcome [OF p(2) protocol_reach_ok [OF p(1)] append(2,4,5)])
      case 1
      with ser [OF append(2)] show ?thesis by simp
    next
      case (2 reply)
      show ?thesis
        by (rule served_append [OF ser [OF append(2)] append(5) _ _ len]) (use 2 rep(3) [OF append(2)] in simp_all)
    next
      case (3 reply l)
      show ?thesis
        by (rule served_append [OF ser [OF append(2)] append(5) _ _ len])
          (use 3(1,8) kept [OF append(2), unfolded c'] in simp_all)
    qed
    with append(1) show ?thesis by blast
  next
    case (snapshot j args now r n)
    from representsD(2) [OF p(2) snapshot(4)] show ?thesis by simp
  next
    case (client j request)
    let ?n = "snd (handleClientRequest request (node c j))"
    have "take (unat (commitIndex (node c j))) (body (log ?n)) = take (unat (commitIndex (node c j))) (body (log (node c j)))"
      using kept [OF client(2)] by (simp add: client(1))
    then have "served s ?n" by (intro served_same [OF ser [OF client(2)]]) (simp_all add: same_service_def)
    with client(1) show ?thesis by blast
  next
    case (compact j)
    have "uncompacted (log (snd (snapshotTimer_tick (node c j))))"
      using und compact(2) unfolding undisturbed_def compact(1) by auto
    then have "snd (snapshotTimer_tick (node c j)) = node c j"
      using snapshotTimer_tick_snd [of "node c j"] snapshot_uncompacted [OF rep(3) [OF compact(2)]] by metis
    with compact(1) ser show ?thesis by metis
  next
    case (trigger j)
    have "uncompacted (log (snd (triggerSnapshot (node c j))))"
      using und trigger(2) unfolding undisturbed_def trigger(1) by auto
    then have "snd (triggerSnapshot (node c j)) = node c j"
      using snapshot_uncompacted [OF rep(3) [OF trigger(2)]] by (auto simp: triggerSnapshot_def)
    with trigger(1) ser show ?thesis by metis
  next
    case (election j now now' args n)
    have n: "n = snd (begin_election now' (node c j))" using election(7) by simp
    have "log n = log (node c j)" unfolding n by (simp add: begin_election_def Let_def snd_andThen split: sum.split)
    then have "served s n" by (intro served_quiet [OF ser [OF election(2)]]) (simp_all add: n same_service_begin_election)
    with election(1) show ?thesis by blast
  next
    case (hear_vote j args q ps v result r n)
    from on_vote_result_cases [OF saved_disk_ok [OF rep(5) [OF hear_vote(2)]] hear_vote(5)]
    have "n = node c j \<or> (\<exists>t. n = snd (becomeFollower t (node c j)))" by blast
    then have "same_service (node c j) n \<and> log n = log (node c j)" by (auto simp: same_service_def)
    then have "served s n" by (intro served_quiet [OF ser [OF hear_vote(2)]]) simp_all
    with hear_vote(1) show ?thesis by blast
  next
    case (finish j args v)
    have "served s (finish_election v (node c j))"
      by (rule served_quiet [OF ser [OF finish(2)] same_service_finish_election])
        (simp add: finish_election_def becomeLeader_def Let_def)
    with finish(1) show ?thesis by blast
  next
    case (hear_append j q ps i args reply r n)
    have n: "n = snd (on_append_reply i args reply (node c j))" using hear_append(7) by simp
    have "served s n"
      unfolding n by (rule served_on_append_reply [OF ser rep(3,4) ci]) (rule hear_append(2))+
    with hear_append(1) show ?thesis by blast
  next
    case (hear_snapshot j q ps i args reply r n)
    from prepare_appends(1) [OF p(2) hear_snapshot(2,4)] hear_snapshot(5) show ?thesis by simp
  next
    case (restart j f kv threshold rng j1 j2 now n)
    have "commitIndex n = 0"
      using restart_plain [OF rep(5,3,4) restart(4-6)] restart(2) by blast
    with restart_applied [OF restart(6)] have "lastApplied (node c' j) = 0" "commitIndex (node c' j) = 0"
      by (simp_all add: restart(1))
    from begins_served [OF beg restart(2) this] have "served s n" by (simp add: restart(1))
    with restart(1) show ?thesis by blast
  qed (use ser in blast)+
  then obtain j n a M where c': "c' = update j n a M c" "j \<in> N \<Longrightarrow> served s n" by blast
  show ?thesis
  proof (cases "i = j")
    case True
    with c' assms(6) show ?thesis by simp
  next
    case False
    with c'(1) ser [OF assms(6)] show ?thesis by simp
  qed
qed

text \<open>Steady runs in which every node is constructed with the same store.\<close>

inductive serving :: "u64 set \<Rightarrow> service \<Rightarrow> nat \<Rightarrow> cluster \<Rightarrow> bool" for N s where
  start: "cluster_start N c \<Longrightarrow> begins N s c \<Longrightarrow> serving N s 0 c"
| step: "serving N s k c \<Longrightarrow> steady_step N c c' \<Longrightarrow> begins N s c' \<Longrightarrow> serving N s (Suc k) c'"

lemma serving_steady: "serving N s k c \<Longrightarrow> steady N k c"
  by (induction rule: serving.induct) (auto simp: steady_step_def intro: steady.intros)

lemma serving_served: "serving N s k c \<Longrightarrow> k \<le> 18446744073709551615 \<Longrightarrow> i \<in> N \<Longrightarrow> served s (node c i)"
proof (induction arbitrary: i rule: serving.induct)
  case (start c)
  then have fresh: "fresh_node i N (node c i)" by (simp add: cluster_start_def)
  have ci: "commitIndex (node c i) = 0" using node_repD(11) [OF node_rep_start [OF fresh]] node_repD(2) [OF node_rep_start [OF fresh]]
    by (simp add: commit_ok_def blank_protocol_def unat_eq_0)
  have "lastApplied (node c i) = commitIndex (node c i)"
    using fresh unfolding fresh_node_def by (elim exE conjE) (rule restart_applied)
  with ci begins_served [OF start(2,4)] show ?case by simp
next
  case (step k c c')
  show ?case
    by (rule served_step [OF serving_steady [OF step(1)] step(2,5) _ step(3,6)]) (use step in simp)
qed

text \<open>The node that is behind executes the missing entries to come to the state of the other.\<close>

lemma one_history:
  assumes "serving N s k c" and "k \<le> 18446744073709551615" and "i \<in> N" and "j \<in> N"
    and "commitIndex (node c i) \<le> commitIndex (node c j)"
  shows "service_of (node c j) = fold exec_once (decode_commands (entries_between (log (node c j))
    (unat (commitIndex (node c i))) (unat (commitIndex (node c j))))) (service_of (node c i))"
proof -
  let ?a = "commitIndex (node c i)" and ?b = "commitIndex (node c j)"
  note si = serving_served [OF assms(1,2,3)] and sj = serving_served [OF assms(1,2,4)]
  have run: "(steady_step N ^^ 0) c c" "k + 0 \<le> 18446744073709551615" using assms(2) by simp_all
  have "take (unat ?a) (body (log (node c i))) = take (unat ?a) (body (log (node c j)))"
  proof (cases "0 < ?a")
    case True
    show ?thesis by (rule agreement(3) [OF serving_steady [OF assms(1)] run assms(3,4) True order_refl assms(5)])
  next
    case False
    then have "?a = 0" by (simp add: word_gt_0)
    then show ?thesis by simp
  qed
  then have i: "service_of (node c i) = replay s (log (node c j)) ?a" using si by (simp add: served_def replay_def)
  obtain p where "protocol_reach N p" "represents N c p"
    using steady_protocol [OF serving_steady [OF assms(1)] assms(2)] by auto
  then have rep: "node_rep N (net c) p j (node c j) (doing c j)" using representsD(1) assms(4) by blast
  have "unat ?b \<le> length (body (log (node c j)))" using node_repD(11) [OF rep] by (simp add: commit_ok_def)
  from replay_on [OF node_repD(3) [OF rep] assms(5) this, of s] sj show ?thesis unfolding i by (simp add: served_def)
qed

end
