(* ===== verification/Sample_Run.thy ===== *)
theory Sample_Run
  imports Replica_History
begin

text \<open>
  A steady run of a cluster of two that shows the laws of such runs at work: node 1 wins the first
  term, appends the command of a client, replicates it and commits it, and tells node 2 so.
\<close>

section \<open>Steps of the run\<close>

definition ok_node :: "service \<Rightarrow> raft_node \<Rightarrow> bool" where
  "ok_node s n \<longleftrightarrow> uncompacted (log n) \<and> log_fits (log n) \<and> (lastApplied n = 0 \<longrightarrow> kv_wf (kvStore n) \<and> service_of n = s)"

definition good :: "u64 set \<Rightarrow> service \<Rightarrow> nat \<Rightarrow> cluster \<Rightarrow> bool" where
  "good N s k c \<longleftrightarrow> serving N s k c \<and> (\<forall>i \<in> N. ok_node s (node c i))"

lemma good_steady:
  assumes "good N s k c" and "cluster_step N c (update j n a M c)" and "ok_node s n"
    and "\<And>p args. Append_request p args \<in> M \<Longrightarrow> role (node c (ae_leaderId args)) = LEADER"
  shows "steady_step N c (update j n a M c)"
proof -
  have ok: "ok_node s (node (update j n a M c) i)" if "i \<in> N" for i
    using assms(1,3) that by (simp add: good_def)
  have "undisturbed N c (update j n a M c)" using ok assms(4) unfolding undisturbed_def ok_node_def by auto
  with assms(2) show ?thesis by (simp add: steady_step_def)
qed

lemma good_step:
  assumes "good N s k c" and "cluster_step N c (update j n a M c)" and "ok_node s n"
    and "\<And>p args. Append_request p args \<in> M \<Longrightarrow> role (node c (ae_leaderId args)) = LEADER"
  shows "good N s (Suc k) (update j n a M c)"
proof -
  have ok: "ok_node s (node (update j n a M c) i)" if "i \<in> N" for i
    using assms(1,3) that by (simp add: good_def)
  have "steady_step N c (update j n a M c)" by (rule good_steady [OF assms])
  moreover have "begins N s (update j n a M c)" using ok unfolding begins_def ok_node_def by blast
  ultimately have "serving N s (Suc k) (update j n a M c)" using assms(1) serving.step unfolding good_def by blast
  with ok show ?thesis by (simp add: good_def)
qed

lemma good_start: "cluster_start N c \<Longrightarrow> (\<And>i. i \<in> N \<Longrightarrow> ok_node s (node c i)) \<Longrightarrow> (\<And>i. i \<in> N \<Longrightarrow> lastApplied (node c i) = 0) \<Longrightarrow> good N s 0 c"
  unfolding good_def by (auto intro!: serving.start simp: begins_def ok_node_def)

section \<open>The states of the two nodes\<close>

definition no_service :: service where
  "no_service = (Map.empty, \<lambda>k. Get k empty_kvstore)"

definition elected_leader :: raft_node where
  "elected_leader = becomeLeader sample_candidate"

definition voter :: raft_node where
  "voter = snd (handleRequestVote 5 sample_args (start_node 2))"

lemma elected_leader: "elected_leader = (initial_node 1 [2] empty_kvstore 10000 (sconst 0) 0 0 0)
  \<lparr>currentTerm := 1, role := LEADER, votedFor := 1, lastHeartbeat := 5, electionTimeout := 150, nextIndex := [1],
   matchIndex := [0], peerIdToIndexMap := [2 \<mapsto> 0], running := True, currentLeaderId := 1\<rparr>"
  by (simp add: elected_leader_def sample_candidate_def start_node_eq becomeLeader_def becomeCandidate_def persistState_def
      Let_def initial_node_def resetElectionTimer_def uniform_int_def)

lemma voter: "voter = (initial_node 2 [1] empty_kvstore 10000 (sconst 0) 0 0 0)
  \<lparr>currentTerm := 1, votedFor := 1, lastHeartbeat := 5, electionTimeout := 150, nextIndex := [1], matchIndex := [0],
   peerIdToIndexMap := [1 \<mapsto> 0], running := True\<rparr>"
  by (simp add: voter_def sample_args_def start_node_eq handleRequestVote_def becomeFollower_def consider_vote_def
      isLogUpToDate_def persistState_def Let_def initial_node_def resetElectionTimer_def uniform_int_def)

definition run_entry :: log_entry where
  "run_entry = \<lparr>e_index = 1, e_term = 1, command_data = command_image (PutCommand \<lparr>clientId = 7, sequenceNum = 1\<rparr> ''k'' ''v'')\<rparr>"

definition run_log :: raft_log where
  "run_log = \<lparr>Entries = [dummy_entry, run_entry], log_snapshotIndex = 0, log_snapshotTerm = 0\<rparr>"

lemma run_log_wf [simp]: "log_wf run_log" "uncompacted run_log" "getLastIndex run_log = 1" "last_nat run_log = 1"
  "log_snapshotIndex run_log = 0"
  by (simp_all add: log_wf_def run_log_def run_entry_def dummy_entry_def uncompacted_def getLastIndex_def last_nat_def less_Suc_eq)

lemma log_fits_new [simp]: "log_fits new_log"
  using serializeLog_image [OF plainD(1) [OF plain_new(1)]] by (simp add: log_fits_def max_vector_size_def)

lemma log_fits_run [simp]: "log_fits run_log"
  unfolding log_fits_def serializeLog_image [OF run_log_wf(1)]
  by (simp add: max_vector_size_def entry_fits_def run_log_def run_entry_def entry_bytes_def key_value_body_def
      meta_image_def string_image_def)

text \<open>The leader appends the command and sends it; the follower takes it over.\<close>

definition writing_leader :: raft_node where
  "writing_leader = elected_leader\<lparr>log := run_log\<rparr>"

definition first_message :: append_entries_args where
  "first_message = \<lparr>ae_term = 1, ae_leaderId = 1, ae_prevLogIndex = 0, ae_prevLogTerm = 0, ae_entries = [run_entry], ae_leaderCommit = 0\<rparr>"

definition accepted :: append_entries_reply where
  "accepted = \<lparr>aer_term = 1, aer_success = True, conflictIndex = 0, conflictTerm = 0\<rparr>"

definition holder :: raft_node where
  "holder = voter\<lparr>log := run_log, currentLeaderId := 1\<rparr>"

lemma run_client: "snd (handleClientRequest sample_request elected_leader) = writing_leader"
  by (simp add: sample_request_def handleClientRequest_def elected_leader writing_leader_def Let_def initial_node_def
      persistState_def already_applied_def serialize_image string_ok_def log_append_def run_entry_def run_log_def new_log_def
      dummy_entry_def getLastIndex_def split: unit.split)

lemma run_prepare: "prepare_replication 0 writing_leader = Inr (Send_append first_message)"
proof -
  have "prepare_replication 0 writing_leader = Inr (Send_append (append_message 0 writing_leader))"
    by (rule prepare_uncompacted) (simp_all add: writing_leader_def elected_leader initial_node_def)
  also have "append_message 0 writing_leader = first_message"
    by (simp add: first_message_def append_message_def writing_leader_def elected_leader initial_node_def run_log_def getTerm_def dummy_entry_def)
  finally show ?thesis .
qed

lemma run_append: "handleAppendEntries 5 first_message voter = (Inr accepted, holder)"
  by (simp add: first_message_def holder_def voter handleAppendEntries_def process_entries_def Let_def check_previous_def
      store_entries_def advance_commit_def initial_node_def persistState_def resetElectionTimer_def uniform_int_def accepted_def
      new_log_def getLastIndex_def dummy_entry_def log_append_def run_log_def) (simp add: run_entry_def)

text \<open>Then the leader commits and executes it.\<close>

definition committing_leader :: raft_node where
  "committing_leader = snd (on_append_reply 0 first_message accepted writing_leader)"

lemma committing_leader:
  "role committing_leader = LEADER" "currentTerm committing_leader = 1" "commitIndex committing_leader = 1"
  "lastApplied committing_leader = 1" "log committing_leader = run_log" "nextIndex committing_leader = [2]"
  "nodeId committing_leader = 1" "peerIds committing_leader = [2]" "peerIdToIndexMap committing_leader = [2 \<mapsto> 0]"
  "running committing_leader" "fst (on_append_reply 0 first_message accepted writing_leader) = Inr ()"
proof -
  let ?n = "writing_leader\<lparr>matchIndex := [1], nextIndex := [2]\<rparr>"
  have w: "role ?n = LEADER" "currentTerm ?n = 1" "commitIndex ?n = 0" "lastApplied ?n = 0" "log ?n = run_log"
    "nodeId ?n = 1" "peerIds ?n = [2]" "peerIdToIndexMap ?n = [2 \<mapsto> 0]" "running ?n" "kvStore ?n = empty_kvstore" "matchIndex ?n = [1]"
    by (simp_all add: writing_leader_def elected_leader initial_node_def)
  have run: "on_append_reply 0 first_message accepted writing_leader = updateCommitIndex ?n"
    by (simp add: on_append_reply_def accepted_def first_message_def writing_leader_def elected_leader initial_node_def run_entry_def)
  have t: "getTerm run_log 1 = 1" by (simp add: getTerm_def run_log_def run_entry_def)
  have "applicable ?n 1" by (simp add: applicable_def w(3-5,10))
  from apply_to [OF this] obtain m where m: "applyCommittedEntries (?n\<lparr>commitIndex := 1\<rparr>) = (Inr (), m)" "commitIndex m = 1"
    "lastApplied m = 1" "log m = run_log" "currentTerm m = 1" by (auto simp: w(2,5))
  have f: "snd (applyCommittedEntries (?n\<lparr>commitIndex := 1\<rparr>)) = m" by (simp add: m(1))
  have m': "role m = LEADER" "nextIndex m = [2]" "nodeId m = 1" "peerIds m = [2]" "peerIdToIndexMap m = [2 \<mapsto> 0]" "running m"
    unfolding f [symmetric] using w by simp_all
  have "\<not> (2 :: u64) \<le> 1" by (simp add: word_le_nat_alt)
  then have stop: "commit_loop 2 1 m = Some (Inr (), m)" by (subst commit_loop.simps) simp
  have "commit_loop 1 1 ?n = Some (Inr (), m)"
    by (subst commit_loop.simps) (simp add: m(1) stop t w(2,5,7,11) majority_def replicationCount_def)
  then have "updateCommitIndex ?n = (Inr (), m)" using w(1,3,5) by (simp add: updateCommitIndex_def)
  with run have r: "committing_leader = m" "fst (on_append_reply 0 first_message accepted writing_leader) = Inr ()"
    by (simp_all add: committing_leader_def)
  show "role committing_leader = LEADER" "currentTerm committing_leader = 1" "commitIndex committing_leader = 1"
    "lastApplied committing_leader = 1" "log committing_leader = run_log" "nextIndex committing_leader = [2]"
    "nodeId committing_leader = 1" "peerIds committing_leader = [2]" "peerIdToIndexMap committing_leader = [2 \<mapsto> 0]"
    "running committing_leader" "fst (on_append_reply 0 first_message accepted writing_leader) = Inr ()"
    using m(2-5) m' r by simp_all
qed

text \<open>With the next heartbeat the follower learns of it.\<close>

definition second_message :: append_entries_args where
  "second_message = \<lparr>ae_term = 1, ae_leaderId = 1, ae_prevLogIndex = 1, ae_prevLogTerm = 1, ae_entries = [], ae_leaderCommit = 1\<rparr>"

lemma run_prepare_again: "prepare_replication 0 committing_leader = Inr (Send_append second_message)"
proof -
  have "prepare_replication 0 committing_leader = Inr (Send_append (append_message 0 committing_leader))"
    by (rule prepare_uncompacted) (simp_all add: committing_leader)
  also have "append_message 0 committing_leader = second_message"
    by (simp add: second_message_def append_message_def committing_leader) (simp add: run_log_def getTerm_def run_entry_def)
  finally show ?thesis .
qed

definition committing_follower :: raft_node where
  "committing_follower = snd (handleAppendEntries 5 second_message holder)"

lemma committing_follower:
  "handleAppendEntries 5 second_message holder = (Inr accepted, committing_follower)"
  "commitIndex committing_follower = 1" "lastApplied committing_follower = 1" "log committing_follower = run_log"
proof -
  let ?n = "resetElectionTimer 5 (holder\<lparr>currentLeaderId := 1\<rparr>)"
  have w: "role ?n = FOLLOWER" "currentTerm ?n = 1" "commitIndex ?n = 0" "lastApplied ?n = 0" "log ?n = run_log" "kvStore ?n = empty_kvstore"
    "role holder = FOLLOWER" "currentTerm holder = 1" "persistence ?n = None"
    by (simp_all add: holder_def voter initial_node_def resetElectionTimer_def)
  have t: "getTerm run_log 1 = 1" by (simp add: getTerm_def run_log_def run_entry_def)
  have "applicable ?n 1" unfolding applicable_def w by simp
  from apply_to [OF this] obtain m where m: "applyCommittedEntries (?n\<lparr>commitIndex := 1\<rparr>) = (Inr (), m)" "commitIndex m = 1"
    "lastApplied m = 1" "log m = run_log" "currentTerm m = 1" unfolding w by blast
  have "check_previous second_message ?n = None"
    unfolding check_previous_def w by (simp add: second_message_def t)
  moreover have "store_entries second_message ?n = (Inr (), ?n)" by (simp add: store_entries_def second_message_def)
  moreover have "advance_commit second_message ?n = (Inr (), m)"
    unfolding advance_commit_def w using m(1) by (simp add: second_message_def)
  ultimately have "process_entries 5 second_message holder = (Inr accepted, m)"
    unfolding process_entries_def Let_def by (simp add: second_message_def m(5) accepted_def)
  then have "handleAppendEntries 5 second_message holder = (Inr accepted, m)"
    by (simp add: handleAppendEntries_def w(7,8)) (simp add: second_message_def)
  with m show "handleAppendEntries 5 second_message holder = (Inr accepted, committing_follower)"
    "commitIndex committing_follower = 1" "lastApplied committing_follower = 1" "log committing_follower = run_log"
    by (simp_all add: committing_follower_def)
qed

section \<open>The run\<close>

lemma run_logs [simp]:
  "ok_node no_service elected_leader" "ok_node no_service voter" "ok_node no_service writing_leader" "ok_node no_service holder"
  "ok_node no_service committing_leader" "ok_node no_service committing_follower"
  using committing_leader(4,5) committing_follower(3,4)
  by (simp_all add: ok_node_def writing_leader_def elected_leader holder_def voter initial_node_def service_of_def no_service_def)

lemma start_node_ok [simp]: "lastApplied (start_node i) = 0" "ok_node no_service (start_node i)"
  by (simp_all add: ok_node_def) (simp_all add: start_node_eq initial_node_def service_of_def no_service_def)

lemma sample_candidate_ok [simp]: "ok_node no_service sample_candidate"
  using start_node_ok(2) [of 1]
  by (simp add: ok_node_def sample_candidate_def becomeCandidate_def) (simp add: service_of_def persistState_def start_node_eq initial_node_def)

text \<open>Where both nodes and their threads stand.\<close>

definition stands :: "cluster \<Rightarrow> raft_node \<Rightarrow> raft_node \<Rightarrow> activity \<Rightarrow> bool" where
  "stands c n m a \<longleftrightarrow> node c 1 = n \<and> node c 2 = m \<and> doing c 1 = a \<and> doing c 2 = Idle"

lemma run_election: "\<exists>c. good {1, 2} no_service 5 c \<and> stands c elected_leader voter (Heartbeat [2])"
proof -
  have v: "handleRequestVote 5 sample_args (start_node 2) = (Inr sample_reply, voter)"
    using sample_vote by (auto simp: voter_def)
  let ?c1 = "update 1 sample_candidate (Electing sample_args [2] 1) {} sample_cluster"
  let ?c2 = "update 1 sample_candidate (Electing sample_args (2 # []) 1) {Vote_request 2 sample_args} ?c1"
  let ?c3 = "update 2 voter Idle {Vote_reply 2 sample_args sample_reply} ?c2"
  let ?c4 = "update 1 sample_candidate (Electing sample_args [] 2) {} ?c3"
  let ?c5 = "update 1 elected_leader (Heartbeat [2]) {} ?c4"
  have "good {1, 2} no_service 0 sample_cluster"
    by (rule good_start [OF sample_cluster_start]) (simp_all add: sample_cluster_def)
  moreover have "cluster_step {1, 2} sample_cluster ?c1"
    using cluster_step.election [of 1 "{1, 2}" sample_cluster 1000000000 5 sample_args sample_candidate]
    by (simp add: sample_cluster_def sample_begin to_milliseconds_def)
  ultimately have "good {1, 2} no_service (Suc 0) ?c1" by (rule good_step) simp_all
  moreover have "cluster_step {1, 2} ?c1 ?c2"
    using cluster_step.ask_vote [of 1 "{1, 2}" ?c1 sample_args 2 "[]" 1] by simp
  ultimately have "good {1, 2} no_service (Suc (Suc 0)) ?c2" by (rule good_step) simp_all
  moreover have "cluster_step {1, 2} ?c2 ?c3"
    using cluster_step.vote [of 2 "{1, 2}" ?c2 sample_args 5 "Inr sample_reply" voter] v by (simp add: replies_def sample_cluster_def)
  ultimately have "good {1, 2} no_service (Suc (Suc (Suc 0))) ?c3" by (rule good_step) simp_all
  moreover have "cluster_step {1, 2} ?c3 ?c4"
    using cluster_step.hear_vote [of 1 "{1, 2}" ?c3 sample_args 2 "[]" 1 "Inr sample_reply" "Inr (Some 2)" sample_candidate] sample_heard
    by (simp add: after_vote_def)
  ultimately have "good {1, 2} no_service (Suc (Suc (Suc (Suc 0)))) ?c4" by (rule good_step) simp_all
  moreover have "cluster_step {1, 2} ?c4 ?c5"
    using cluster_step.finish [of 1 "{1, 2}" ?c4 sample_args 2] by (simp add: finish_election_def majority_def elected_leader_def)
  ultimately have "good {1, 2} no_service (Suc (Suc (Suc (Suc (Suc 0))))) ?c5" by (rule good_step) simp_all
  then have "good {1, 2} no_service 5 ?c5" by (simp only: numeral_nat)
  moreover have "stands ?c5 elected_leader voter (Heartbeat [2])" by (simp add: stands_def sample_cluster_def)
  ultimately show ?thesis by blast
qed

text \<open>A round of the heartbeat that finds nobody, and the request of the client.\<close>

lemma run_write: "\<exists>c. good {1, 2} no_service 8 c \<and> stands c writing_leader voter Idle"
proof -
  obtain c where c: "good {1, 2} no_service 5 c" "stands c elected_leader voter (Heartbeat [2])" using run_election by blast
  let ?lost = "\<lparr>aer_term = 0, aer_success = False, conflictIndex = 0, conflictTerm = 0\<rparr>"
  let ?c1 = "update 1 elected_leader (Heartbeat []) {} c"
  let ?c2 = "update 1 elected_leader Idle {} ?c1"
  let ?c3 = "update 1 writing_leader Idle {} ?c2"
  note s = c(2) [unfolded stands_def]
  have prep: "prepare_replication 0 elected_leader = Inr (Send_append (append_message 0 elected_leader))"
    by (rule prepare_uncompacted) (simp_all add: elected_leader initial_node_def)
  have none: "elected_leader\<lparr>nextIndex := [1]\<rparr> = elected_leader" by (simp add: elected_leader)
  have "on_append_reply 0 (append_message 0 elected_leader) ?lost elected_leader = (Inr (), elected_leader\<lparr>nextIndex := [1]\<rparr>)"
    by (simp add: on_append_reply_def elected_leader initial_node_def)
  then have "cluster_step {1, 2} c ?c1"
    using cluster_step.hear_append [of 1 "{1, 2}" c 2 "[]" 0 "append_message 0 elected_leader" ?lost "Inr ()" elected_leader] s prep
    by (simp add: after_heartbeat_def append_result_def none) (simp add: elected_leader initial_node_def)
  with c(1) have "good {1, 2} no_service (Suc 5) ?c1" by (rule good_step) simp_all
  moreover have "cluster_step {1, 2} ?c1 ?c2" using cluster_step.end_heartbeat [of 1 "{1, 2}" ?c1] by simp
  ultimately have "good {1, 2} no_service (Suc (Suc 5)) ?c2" by (rule good_step) simp_all
  moreover have "cluster_step {1, 2} ?c2 ?c3" using cluster_step.client [of 1 "{1, 2}" ?c2 sample_request] by (simp add: run_client)
  ultimately have "good {1, 2} no_service (Suc (Suc (Suc 5))) ?c3" by (rule good_step) simp_all
  moreover have "stands ?c3 writing_leader voter Idle" using s by (simp add: stands_def)
  ultimately show ?thesis by (intro exI [of _ ?c3]) simp
qed

text \<open>The next round replicates the entry and commits it.\<close>

lemma run_commit: "\<exists>c. good {1, 2} no_service 13 c \<and> stands c committing_leader holder Idle"
proof -
  obtain c where c: "good {1, 2} no_service 8 c" "stands c writing_leader voter Idle" using run_write by blast
  note s = c(2) [unfolded stands_def]
  have w: "role writing_leader = LEADER" "running writing_leader" "peerIds writing_leader = [2]" "peerIdToIndexMap writing_leader 2 = Some 0"
    by (simp_all add: writing_leader_def elected_leader initial_node_def)
  have heard: "on_append_reply 0 first_message accepted writing_leader = (Inr (), committing_leader)"
    using committing_leader(11) by (metis committing_leader_def prod.collapse)
  let ?c1 = "update 1 writing_leader (Heartbeat [2]) {} c"
  let ?c2 = "update 1 writing_leader (Heartbeat (2 # [])) {Append_request 2 first_message} ?c1"
  let ?c3 = "update 2 holder Idle {Append_reply 2 first_message accepted} ?c2"
  let ?c4 = "update 1 committing_leader (Heartbeat []) {} ?c3"
  let ?c5 = "update 1 committing_leader Idle {} ?c4"
  have "cluster_step {1, 2} c ?c1" using cluster_step.heartbeat [of 1 "{1, 2}" c] s w by simp
  with c(1) have "good {1, 2} no_service (Suc 8) ?c1" by (rule good_step) simp_all
  moreover have "cluster_step {1, 2} ?c1 ?c2"
    using cluster_step.send_append [of 1 "{1, 2}" ?c1 2 "[]" 0 first_message] w run_prepare by simp
  ultimately have "good {1, 2} no_service (Suc (Suc 8)) ?c2" by (rule good_step) (simp_all add: first_message_def w)
  moreover have "cluster_step {1, 2} ?c2 ?c3"
    using cluster_step.append [of 2 "{1, 2}" ?c2 first_message 5 "Inr accepted" holder] s run_append by (simp add: replies_def)
  ultimately have "good {1, 2} no_service (Suc (Suc (Suc 8))) ?c3" by (rule good_step) simp_all
  moreover have "cluster_step {1, 2} ?c3 ?c4"
    using heard cluster_step.hear_append [of 1 "{1, 2}" ?c3 2 "[]" 0 first_message accepted "Inr ()" committing_leader] w run_prepare
    by (simp add: after_heartbeat_def append_result_def)
  ultimately have "good {1, 2} no_service (Suc (Suc (Suc (Suc 8)))) ?c4" by (rule good_step) simp_all
  moreover have "cluster_step {1, 2} ?c4 ?c5" using cluster_step.end_heartbeat [of 1 "{1, 2}" ?c4] by simp
  ultimately have "good {1, 2} no_service (Suc (Suc (Suc (Suc (Suc 8))))) ?c5" by (rule good_step) simp_all
  moreover have "stands ?c5 committing_leader holder Idle" using s by (simp add: stands_def)
  ultimately show ?thesis by (intro exI [of _ ?c5]) simp
qed

text \<open>And with the round after that the follower has committed it, too, in steps that a steady run can take.\<close>

lemma run_heard:
  "\<exists>c c'. good {1, 2} no_service 13 c \<and> stands c committing_leader holder Idle \<and> (steady_step {1, 2} ^^ 3) c c' \<and>
     good {1, 2} no_service 16 c' \<and> stands c' committing_leader committing_follower (Heartbeat [2])"
proof -
  obtain c where c: "good {1, 2} no_service 13 c" "stands c committing_leader holder Idle" using run_commit by blast
  note s = c(2) [unfolded stands_def]
  let ?c1 = "update 1 committing_leader (Heartbeat [2]) {} c"
  let ?c2 = "update 1 committing_leader (Heartbeat (2 # [])) {Append_request 2 second_message} ?c1"
  let ?c3 = "update 2 committing_follower Idle {Append_reply 2 second_message accepted} ?c2"
  have st1: "cluster_step {1, 2} c ?c1" using cluster_step.heartbeat [of 1 "{1, 2}" c] s by (simp add: committing_leader)
  with c(1) have g1: "good {1, 2} no_service (Suc 13) ?c1" by (rule good_step) simp_all
  have st2: "cluster_step {1, 2} ?c1 ?c2"
    using cluster_step.send_append [of 1 "{1, 2}" ?c1 2 "[]" 0 second_message] run_prepare_again by (simp add: committing_leader)
  with g1 have g2: "good {1, 2} no_service (Suc (Suc 13)) ?c2" by (rule good_step) (simp_all add: second_message_def committing_leader)
  have st3: "cluster_step {1, 2} ?c2 ?c3"
    using cluster_step.append [of 2 "{1, 2}" ?c2 second_message 5 "Inr accepted" committing_follower] s committing_follower(1)
    by (simp add: replies_def)
  with g2 have g3: "good {1, 2} no_service (Suc (Suc (Suc 13))) ?c3" by (rule good_step) simp_all
  have "steady_step {1, 2} c ?c1" "steady_step {1, 2} ?c1 ?c2" "steady_step {1, 2} ?c2 ?c3"
    using good_steady [OF c(1) st1] good_steady [OF g1 st2] good_steady [OF g2 st3] by (simp_all add: second_message_def committing_leader)
  then have "(steady_step {1, 2} ^^ Suc (Suc (Suc 0))) c ?c3" by auto
  moreover have "stands ?c3 committing_leader committing_follower (Heartbeat [2])" using s by (simp add: stands_def)
  ultimately show ?thesis using c g3 by (intro exI [of _ c] exI [of _ ?c3]) (simp add: numeral_3_eq_3)
qed

end
