(* ===== verification/Cluster_Safety.thy ===== *)
theory Cluster_Safety
  imports Sample_Run
begin

text \<open>
  What the protocol promises for a steady run of the whole cluster (\<open>Vote_History\<close> says which runs
  these are): one leader per term for ever, matching logs, complete leaders, one committed entry per
  index, one history of the service. The run of \<open>Sample_Run\<close> is such a run.
\<close>

section \<open>One leader per term\<close>

lemma net_grows: "cluster_step N c c' \<Longrightarrow> net c \<subseteq> net c'"
  by (induction rule: cluster_step.induct) auto

lemma net_grows_later: "(steady_step N ^^ m) c c' \<Longrightarrow> net c \<subseteq> net c'"
proof (induction m arbitrary: c')
  case (Suc m)
  then obtain d where d: "(steady_step N ^^ m) c d" "steady_step N d c'" by auto
  from Suc.IH [OF d(1)] net_grows [of N d c'] d(2) show ?case unfolding steady_step_def by blast
qed simp

text \<open>
  C6. A term has one leader for ever. When node \<open>i\<close> leads a term, no other node leads the same term,
  neither then nor after any number of further steps. This is more than election safety, which
  compares nodes at one moment: here the winner may have stepped down or lost its vote meanwhile.
\<close>

theorem term_leader_forever:
  assumes "steady N k c" and "(steady_step N ^^ m) c c'" and "k + m \<le> 18446744073709551615" and "i \<in> N" and "j \<in> N"
    and "role (node c i) = LEADER" and "role (node c' j) = LEADER" and "currentTerm (node c i) = currentTerm (node c' j)"
  shows "i = j"
proof -
  have later: "steady N (k + m) c'" by (rule steady_later [OF assms(2,1)])
  have ok: "cluster_ok N k c" by (rule reach_ok [OF steady_reach [OF assms(1)]]) (use assms(3) in simp)
  have ok': "cluster_ok N (k + m) c'" by (rule reach_ok [OF steady_reach [OF later] assms(3)])
  have "won N (net c) i (currentTerm (node c' j))"
    using leader_won [OF cluster_okD(1) [OF ok assms(4)] assms(6)] assms(8) by simp
  then have "won N (net c') i (currentTerm (node c' j))"
    using won_mono [of N "net c" i _ "net c'"] net_grows_later [OF assms(2)] by (simp add: Un_absorb1)
  moreover have "won N (net c') j (currentTerm (node c' j))" by (rule leader_won [OF cluster_okD(1) [OF ok' assms(5)] assms(7)])
  moreover have "votes_ok N (net c')" using steady_protocol [OF later assms(3)] by (simp add: history_ok_def)
  moreover have "\<forall>v \<in> N. votes_unique (net c') v" using cluster_okD(2) [OF ok'] by blast
  ultimately show ?thesis using one_winner by blast
qed

text \<open>The run at the moment when the leader committed, and when the follower learned of it.\<close>

lemma run_steady:
  "\<exists>c c'. serving {1, 2} no_service 13 c \<and> steady {1, 2} 13 c \<and> (steady_step {1, 2} ^^ 3) c c' \<and>
     serving {1, 2} no_service 16 c' \<and> steady {1, 2} 16 c' \<and> node c 1 = committing_leader \<and> node c 2 = holder \<and>
     node c' 1 = committing_leader \<and> node c' 2 = committing_follower"
  using run_heard serving_steady unfolding good_def stands_def by metis

theorem term_leader_forever_witness:
  "\<exists>c c'. (steady_step {1, 2} ^^ 3) c c' \<and> role (node c 1) = LEADER \<and> currentTerm (node c 1) = 1 \<and>
     {j \<in> {1, 2}. role (node c' j) = LEADER \<and> currentTerm (node c' j) = 1} = {1}"
proof -
  obtain c c' where r: "steady {1, 2} 13 c" "(steady_step {1, 2} ^^ 3) c c'" "node c 1 = committing_leader"
    "node c' 1 = committing_leader" using run_steady by blast
  have one: "1 = j" if "j \<in> {1, 2}" "role (node c' j) = LEADER" "currentTerm (node c' j) = 1" for j
    by (rule term_leader_forever [OF r(1,2) _ _ that(1) _ that(2)])
      (simp_all add: that(3) r(3) committing_leader(1,2))
  have "{j \<in> {1, 2}. role (node c' j) = LEADER \<and> currentTerm (node c' j) = 1} \<subseteq> {1}"
  proof
    fix j
    assume "j \<in> {j \<in> {1, 2}. role (node c' j) = LEADER \<and> currentTerm (node c' j) = 1}"
    then have "j \<in> {1, 2}" "role (node c' j) = LEADER" "currentTerm (node c' j) = 1" by simp_all
    from one [OF this] show "j \<in> {1}" by simp
  qed
  moreover have "role (node c' 1) = LEADER \<and> currentTerm (node c' 1) = 1" by (simp add: r(4) committing_leader(1,2))
  ultimately have "{j \<in> {1, 2}. role (node c' j) = LEADER \<and> currentTerm (node c' j) = 1} = {1}" by blast
  with r(2) show ?thesis using committing_leader(1,2) by (intro exI [of _ c] exI [of _ c']) (simp add: r(3))
qed

section \<open>Logs\<close>

text \<open>
  C5. Log matching. When the logs of two nodes have entries of the same term at an index, they answer
  \<open>getEntry\<close> alike for that index and every smaller one.
\<close>

theorem log_matching:
  assumes "steady N k c" and "k \<le> 18446744073709551615" and "i \<in> N" and "j \<in> N"
    and "getEntry (log (node c i)) x = Inr e" and "getEntry (log (node c j)) x = Inr e'" and "e_term e = e_term e'"
    and "y \<le> x"
  shows "getEntry (log (node c i)) y = getEntry (log (node c j)) y"
  by (rule matching_logs [OF assms])

theorem log_matching_witness:
  "\<exists>c. steady {1, 2} 13 c \<and> commitIndex (node c 1) = 1 \<and> commitIndex (node c 2) = 0 \<and>
     getEntry (log (node c 1)) 1 = getEntry (log (node c 2)) 1 \<and> getEntry (log (node c 2)) 1 = Inr run_entry"
proof -
  obtain c where r: "steady {1, 2} 13 c" "node c 1 = committing_leader" "node c 2 = holder" using run_steady by blast
  have l: "log (node c 1) = run_log" "log (node c 2) = run_log" "commitIndex (node c 1) = 1" "commitIndex (node c 2) = 0"
    using r(2,3) committing_leader(3,5) by (simp_all add: holder_def voter initial_node_def)
  have e: "getEntry run_log 1 = Inr run_entry" by (simp add: getEntry_def Let_def) (simp add: run_log_def)
  have "getEntry (log (node c 1)) 1 = getEntry (log (node c 2)) 1"
    by (rule log_matching [OF r(1), of 1 2 1 run_entry run_entry]) (simp_all add: l e)
  with r(1) l e show ?thesis by (intro exI [of _ c]) simp
qed

text \<open>
  C4. Leader completeness. What a node has committed is in the log of every leader of the same or a
  higher term, then and after any number of further steps.
\<close>

theorem leader_completeness:
  assumes "steady N k c" and "(steady_step N ^^ m) c c'" and "k + m \<le> 18446744073709551615" and "i \<in> N" and "j \<in> N"
    and "role (node c' j) = LEADER" and "currentTerm (node c i) \<le> currentTerm (node c' j)"
    and "0 < x" and "x \<le> commitIndex (node c i)"
  shows "\<exists>e. getEntry (log (node c i)) x = Inr e \<and> getEntry (log (node c' j)) x = Inr e"
  by (rule leader_holds [OF assms])

theorem leader_completeness_witness:
  "\<exists>c. steady {1, 2} 16 c \<and> role (node c 1) = LEADER \<and> commitIndex (node c 2) = 1 \<and>
     (\<exists>e. getEntry (log (node c 2)) 1 = Inr e \<and> getEntry (log (node c 1)) 1 = Inr e)"
proof -
  obtain c where r: "steady {1, 2} 16 c" "node c 1 = committing_leader" "node c 2 = committing_follower" using run_steady by blast
  have t: "currentTerm committing_follower \<le> 1"
    using handleAppendEntries_cases(2) [of second_message holder 5]
    by (simp add: committing_follower_def second_message_def holder_def voter initial_node_def)
  have "\<exists>e. getEntry (log (node c 2)) 1 = Inr e \<and> getEntry (log (node c 1)) 1 = Inr e"
    by (rule leader_completeness [OF r(1), of 0 c 2 1 1])
      (use r t in \<open>simp_all add: committing_leader committing_follower\<close>)
  with r committing_leader(1) committing_follower(2) show ?thesis by (intro exI [of _ c]) simp
qed

text \<open>
  C2. State machine safety. An index that two nodes have committed holds the same entry on both, also
  when the second node commits it any number of steps later: a committed entry is never replaced.
\<close>

theorem state_machine_safety:
  assumes "steady N k c" and "(steady_step N ^^ m) c c'" and "k + m \<le> 18446744073709551615" and "i \<in> N" and "j \<in> N"
    and "0 < x" and "x \<le> commitIndex (node c i)" and "x \<le> commitIndex (node c' j)"
  shows "\<exists>e. getEntry (log (node c i)) x = Inr e \<and> getEntry (log (node c' j)) x = Inr e"
  by (rule agreement(4) [OF assms])

theorem state_machine_safety_witness:
  "\<exists>c c'. (steady_step {1, 2} ^^ 3) c c' \<and> commitIndex (node c 2) = 0 \<and> commitIndex (node c' 2) = 1 \<and>
     getEntry (log (node c 1)) 1 = Inr run_entry \<and> getEntry (log (node c' 2)) 1 = Inr run_entry"
proof -
  obtain c c' where r: "steady {1, 2} 13 c" "(steady_step {1, 2} ^^ 3) c c'" "node c 1 = committing_leader"
    "node c 2 = holder" "node c' 2 = committing_follower" using run_steady by blast
  have e: "getEntry (log (node c 1)) 1 = Inr run_entry"
    using r(3) committing_leader(5) by (simp add: getEntry_def Let_def) (simp add: run_log_def)
  have "\<exists>e. getEntry (log (node c 1)) 1 = Inr e \<and> getEntry (log (node c' 2)) 1 = Inr e"
    by (rule state_machine_safety [OF r(1,2), of 1 2 1]) (use r in \<open>simp_all add: committing_leader committing_follower\<close>)
  with e r committing_follower(2) show ?thesis
    by (intro exI [of _ c] exI [of _ c']) (simp add: holder_def voter initial_node_def)
qed

section \<open>The service\<close>

text \<open>
  C3. One history. When all nodes are constructed with the same store, every node has executed
  exactly the entries it has committed, and the service of a node that is ahead is the service of
  one that is behind after the commands in between, each executed once per client and sequence
  number. Two nodes with the same commit index give the same answers.
\<close>

theorem replicas_one_history:
  assumes "serving N s k c" and "k \<le> 18446744073709551615" and "i \<in> N" and "j \<in> N"
    and "commitIndex (node c i) \<le> commitIndex (node c j)"
  shows "lastApplied (node c i) = commitIndex (node c i) \<and>
    service_of (node c j) = fold exec_once (decode_commands (entries_between (log (node c j))
      (unat (commitIndex (node c i))) (unat (commitIndex (node c j))))) (service_of (node c i))"
  using one_history [OF assms] serving_served [OF assms(1-3)] by (simp add: served_def)

theorem replicas_one_history_witness:
  "\<exists>c c'. serving {1, 2} no_service 13 c \<and> serving {1, 2} no_service 16 c' \<and>
     snd (service_of (node c 2)) ''k'' = None \<and> snd (service_of (node c 1)) ''k'' = Some ''v'' \<and>
     service_of (node c' 1) = service_of (node c' 2)"
proof -
  obtain c c' where r: "serving {1, 2} no_service 13 c" "serving {1, 2} no_service 16 c'" "node c 1 = committing_leader"
    "node c 2 = holder" "node c' 1 = committing_leader" "node c' 2 = committing_follower" using run_steady by blast
  have "entries_between run_log 0 1 = [run_entry]"
    by (simp add: entries_between_def log_map_def) (simp add: run_log_def)
  moreover have "deserialize (command_data run_entry) = Inr (PutCommand \<lparr>clientId = 7, sequenceNum = 1\<rparr> ''k'' ''v'')"
    using deserialize_image [of "PutCommand \<lparr>clientId = 7, sequenceNum = 1\<rparr> ''k'' ''v''" "[]"]
    by (simp add: run_entry_def string_ok_def)
  moreover have "service_of (node c 1) = fold exec_once (decode_commands (entries_between run_log 0 1)) (service_of holder)"
    using replicas_one_history [OF r(1), of 2 1] r(3,4) by (simp add: committing_leader holder_def voter initial_node_def)
  moreover have "service_of holder = (Map.empty, Map.empty)"
    by (simp add: service_of_def holder_def voter initial_node_def Get_def empty_kvstore_def fun_eq_iff)
  ultimately have "snd (service_of (node c 1)) ''k'' = Some ''v''" "snd (service_of (node c 2)) ''k'' = None"
    using r(4) by (simp_all add: decode_commands_def exec_once_def upd_put_def)
  moreover have "service_of (node c' 1) = service_of (node c' 2)"
    using replicas_one_history [OF r(2), of 2 1] r(5,6)
    by (simp add: committing_leader committing_follower entries_between_def decode_commands_def)
  ultimately show ?thesis using r(1,2) by blast
qed

text \<open>
  C7. Refinement. A steady run of the nodes is a run of the abstract protocol: in some state that
  the protocol reaches, every node has the term of the implementation and its log holds the very
  entries.
\<close>

theorem steady_refines_protocol:
  assumes "steady N k c" and "k \<le> 18446744073709551615"
  shows "\<exists>p. (protocol_step N)\<^sup>*\<^sup>* blank_protocol p \<and>
    (\<forall>i \<in> N. p_term p i = unat (currentTerm (node c i)) \<and> Entries (log (node c i)) = dummy_entry # p_log p i)"
proof -
  obtain p where p: "protocol_reach N p" "represents N c p" using steady_protocol [OF assms] by blast
  have "p_term p i = unat (currentTerm (node c i)) \<and> Entries (log (node c i)) = dummy_entry # p_log p i" if "i \<in> N" for i
    using node_repD(1,2) [OF representsD(1) [OF p(2) that]] plainD(3) [OF node_repD(3) [OF representsD(1) [OF p(2) that]]] by simp
  with p(1) show ?thesis unfolding protocol_reach_def by blast
qed

theorem steady_refines_protocol_witness:
  "\<exists>p. (protocol_step {1, 2})\<^sup>*\<^sup>* blank_protocol p \<and> p_term p 1 = 1 \<and> p_log p 1 = [run_entry] \<and> p_log p 2 = [run_entry]"
proof -
  obtain c where r: "steady {1, 2} 16 c" "node c 1 = committing_leader" "node c 2 = committing_follower" using run_steady by blast
  from steady_refines_protocol [OF r(1)] obtain p where p: "(protocol_step {1, 2})\<^sup>*\<^sup>* blank_protocol p"
    "p_term p 1 = unat (currentTerm (node c 1))" "Entries (log (node c 1)) = dummy_entry # p_log p 1"
    "Entries (log (node c 2)) = dummy_entry # p_log p 2" by auto
  moreover have "Entries run_log = [dummy_entry, run_entry]" by (simp add: run_log_def)
  ultimately show ?thesis using r(2,3) committing_leader(2,5) committing_follower(4) by auto
qed

end
