(* ===== verification/Spec2Isabelle.thy ===== *)
theory Spec2Isabelle
  imports Election_Safety Lock_Order Raft_Programs Node_Type Leader_Log Overwriting_Run Service_Refinement Cluster_Safety
begin

text \<open>
  A replicated key-value store on Raft, verified: every operation of the C++ sources under \<open>src/\<close> as
  executable functions, and what makes them correct.

  \<^bold>\<open>The program.\<close> A client command is written as bytes into a log entry (\<open>kvstore/Command\<close>,
  \<open>raft/Log\<close>). The leader appends it and offers its log to the followers in heartbeat rounds; once
  a majority holds an entry of the current term, the leader commits it, and every node executes its
  committed entries once on its own store (\<open>raft/RaftNode\<close>, \<open>kvstore/KVStore\<close>). Term, vote, log
  and snapshot are saved to files (\<open>raft/RaftPersistence\<close>). Calls between nodes go through the
  interface \<open>RaftRPC\<close>, which has an implementation inside one process (\<open>raft/InMemoryRPC\<close>) and one
  over gRPC (\<open>raft/gRPCRaftClient\<close>, \<open>raft/gRPCRaftService\<close>); two executables put it together
  (\<open>raft_main.cpp\<close>, \<open>raft_client.cpp\<close>).

  \<^bold>\<open>The theories\<close>, in the order of their imports, with the files they model:

  \<^item> \<open>Raft_Prelude\<close>: machine words, exceptions, the chaining of fallible steps on a state
    (\<open>andThen\<close>, \<open>bindE\<close>), \<open>std::to_string\<close>, little-endian numbers, and the locale \<open>byte_codec\<close>: what a
    reader and a writer owe each other, with the products and strings built once from it.
  \<^item> \<open>KV_Command\<close> (\<open>Command.hpp\<close>, \<open>Command.cpp\<close>): commands and their bytes. Round trip, canonicity,
    rejection of truncated input.
  \<^item> \<open>KV_Store\<close> (\<open>KVStore.hpp\<close>, \<open>KVStore.cpp\<close>): the store and its snapshots. Refinement of a map,
    transfer by snapshot. A read past the end of the snapshot is the exception \<open>Undefined_behaviour\<close>.
  \<^item> \<open>Raft_Log\<close> (\<open>Log.hpp\<close>, \<open>Log.cpp\<close>): the log with its dummy entry. Each operation against the map
    of indices to entries (\<open>log_map\<close>).
  \<^item> \<open>Raft_Persistence\<close> (\<open>RaftPersistence.hpp\<close>, \<open>RaftPersistence.cpp\<close>): the state file as bytes and
    \<open>saveState\<close> as the sequence of its file operations, so that a crash can fall between two of them.
  \<^item> \<open>Raft_Messages\<close> (\<open>RaftNode.hpp\<close>, \<open>RaftRPC.hpp\<close>): arguments, replies, and the interface of the
    transport as a record of three functions on a world of any type.
  \<^item> \<open>Raft_Node\<close> (\<open>RaftNode.hpp\<close>, \<open>RaftNode.cpp\<close>): the state of a node, its construction and
    destruction, the handlers, the application of entries, the snapshot thread. A function takes the
    node and returns a result or an exception together with the node, for an exception leaves the
    changes made before it. \<open>Raft_Node_Laws\<close>: what the handlers do on every branch.
  \<^item> \<open>Raft_Service\<close>: the service a client sees, a map with the last sequence number per client, and
    the operations of the node as refinements of replay on it; restarts.
  \<^item> \<open>Raft_Leader\<close> (\<open>RaftNode.cpp\<close>): the commit rule, replication, elections and the timer rounds over
    any transport. \<open>Raft_Leader_Laws\<close>: their exact results.
  \<^item> \<open>Raft_Restart\<close>: every operation leaves term and vote on disk, where the constructor finds them.
  \<^item> \<open>Raft_Cluster\<close>, \<open>Election_Safety\<close>: any number of nodes as a step relation; see below.
  \<^item> \<open>Raft_Transport\<close>, \<open>Commit_Round\<close>: the locale \<open>delivering\<close>, the contract of a transport that delivers
    a call to the node of its target; under it elections, catching up and the whole way of a
    client request are proved once.
  \<^item> \<open>Replicated_Service\<close>, \<open>Service_Refinement\<close>: an undisturbed cluster as one service. The invariant \<open>settled\<close>
    (all logs equal, committed and executed) is reached by the first election of fresh nodes and kept
    by each client request with the two heartbeat rounds after it (\<open>serve\<close>); replay on the leader and on
    every replica is the abstract service.
  \<^item> \<open>InMemory_RPC\<close> (\<open>InMemoryRPC.hpp\<close>, \<open>InMemoryRPC.cpp\<close>): the transport of one process, an
    interpretation of the contract. \<open>Lock_Order\<close>: the mutexes that a timer round takes on it.
  \<^item> \<open>Grpc_RPC\<close> (\<open>gRPCRaftClient\<close>, \<open>gRPCRaftService\<close>, \<open>proto/raft.proto\<close>): messages, client, service
    and server. The gRPC library and the generated stubs are a parameter, the record \<open>grpc\<close>; what
    a property needs of them is a hypothesis: \<open>connects\<close>, that a stub runs the service of the node
    at its address and returns its response, or \<open>unreachable\<close>, that it returns an error status.
  \<^item> \<open>Raft_Programs\<close> (\<open>raft_main.cpp\<close>, \<open>raft_client.cpp\<close>): the two executables.
  \<^item> \<open>Node_Type\<close>, \<open>Leader_Log\<close>: the type invariant of a node under all its operations, the bounds of
    the election timer, and leader append-only. \<open>Overwriting_Run\<close>: a run of three nodes on the in-memory
    transport, evaluated from their constructors on, in which a committed entry is overwritten.
  \<^item> \<open>Raft_Protocol\<close>: the abstract specification, Raft without messages, indices and disks. Ballots carry
    the log of the candidate, a chain is what the leader of a term writes, an acknowledgement says how
    far a node holds it. Log matching, leader completeness and the agreement of committed entries are
    proved on it.
  \<^item> \<open>Plain_Node\<close>: what the operations of a node do to a log that was never compacted, as a list of
    entries (\<open>body\<close>). \<open>Vote_History\<close>: steady runs and who won which term in them.
  \<^item> \<open>Cluster_Protocol\<close>, \<open>Steady_Steps\<close>, \<open>State_Machine_Safety\<close>: the relation \<open>represents\<close> between a
    cluster and a protocol state, and that the protocol follows each step of a steady run,
    an instance of the locale \<open>simulation\<close>.
    \<open>Replica_History\<close>: what the replicas have executed. \<open>Sample_Run\<close>: a run in which a command is
    committed on both of two nodes. \<open>Cluster_Safety\<close>: the laws of the whole cluster.

  \<^bold>\<open>Elections.\<close> \<open>startElection\<close> and \<open>sendHeartbeats\<close> make blocking calls one after the other with the
  state mutex of the caller held. \<open>Raft_Leader\<close> has them as functions of the transport. The cluster
  relation \<open>cluster_step\<close> cuts them where the calls are: a node is \<open>Idle\<close>, \<open>Electing\<close> or in a
  \<open>Heartbeat\<close>, handlers of other calls run only on an idle node, requests and replies are messages
  that may be lost, delayed, repeated or reordered, a reply an election waits for may also be a
  failure, and nodes stop between steps and start again from their files (\<open>Raft_Restart\<close> shows that term
  and vote are there). The steps call the very functions of the node. \<open>election_safety\<close> is proved for all reachable
  states over a quorum system (locale \<open>quorums\<close>) by rule induction.

  \<^bold>\<open>Steady runs.\<close> The other laws of Raft are false of this code in general, because of defects that
  are proved here. They hold for the runs without them (\<open>steady\<close> in \<open>Vote_History\<close>): no log is
  compacted, every log fits into memory, and nobody but a leader sends a new \<open>AppendEntries\<close>. The
  first condition excludes the defect of \<open>handleAppendEntries_keeps_conflict\<close>, the last that of
  \<open>stepped_down_leader_overwrites\<close>. Restarts are part of these runs, but a node with entries in its
  log never completes one (\<open>restart_throws\<close>): it stays stopped. Messages may still be lost, delayed,
  repeated and reordered, nodes stop, elections compete, an \<open>AppendEntries\<close> makes a candidate forget its vote. In a
  steady run a term has one leader for ever, logs match, leaders are complete, a committed entry is
  never replaced, and all replicas have executed prefixes of one history; \<open>Sample_Run\<close> shows that
  such runs commit commands.

  \<^bold>\<open>Bounds.\<close> Integers are 64-bit words and wrap. Where that matters the properties say so: a term
  wraps after \<open>2 ^ 64\<close> elections, so the laws of the cluster count steps and hold up to \<open>2 ^ 64 - 1\<close> of them;
  the commit loop is a \<open>partial_function\<close> and \<open>commit_loop_returns\<close> shows that it ends unless the last index
  is the largest number. The other loops are functions with measures. No fuel is used.

  \<^bold>\<open>Where the sources do not compile.\<close> \<open>AppendEntriesReply\<close> has its two conflict fields commented out
  though all its users set them, and \<open>raft_main.cpp\<close> passes two constructor arguments in the wrong
  order. The model has the fields, and passes the arguments where the constructor wants them.

  \<^bold>\<open>What the properties show.\<close> Most state what the program means to do. Some state where it does
  something else, because a client of this code must know it: restarts with a log entry throw,
  compaction breaks \<open>getTerm\<close> and \<open>truncate\<close> (a compacted leader may commit nothing:
  \<open>compacted_leader_cannot_commit\<close>), a candidate or leader forgets its vote on an \<open>AppendEntries\<close> of its own
  term, a crash while saving loses the state, a leader that stepped
  down goes on sending and overwrites committed entries, in-memory rounds can deadlock.

  \<^bold>\<open>Not modelled.\<close> Console output (but for the status line of the server), the sleeping of the
  timer threads (a thread is the repetition of its round, and the clock readings are arguments),
  the creation of directories, the generator of random numbers (a stream), a crash in the
  middle of an operation within the cluster relation (\<open>Raft_Persistence\<close> has what it does to the files), the build files and the tests. The
  cluster relation names peers by their node ids, as the tests and the README do; \<open>raft_main.cpp\<close>
  numbers them by position (\<open>raft_main_serves\<close>).
\<close>

end
